(* ===== verification/Prelude.thy ===== *)
theory Prelude
  imports Main "HOL-Library.Word" "HOL-Library.AList"
begin

text \<open>
  Shared vocabulary of the tellus development: the machine integers and durations the
  crates use, results and caught calls, the association lists that stand for
  \<^verbatim>\<open>HashMap\<close>, the poll order of a biased \<^verbatim>\<open>select!\<close>, and the generic lemmas the
  component theories share.
\<close>

named_theorems world_simps \<open>field access after an operation on the shared world\<close>

section \<open>Machine integers\<close>

type_synonym u16 = "16 word"
type_synonym u32 = "32 word"
type_synonym u64 = "64 word"

text \<open>The width of \<^verbatim>\<open>usize\<close> on the 64-bit targets the crates are built for.\<close>

type_synonym usize = "64 word"

text \<open>\<^verbatim>\<open>saturating_add\<close> of the unsigned integers: the sum, or the greatest value.\<close>

definition saturating_add :: "'n::len word \<Rightarrow> 'n word \<Rightarrow> 'n word" where
  "saturating_add a b = (if unat a + unat b < 2 ^ LENGTH('n) then a + b else - 1)"

text \<open>\<^verbatim>\<open>checked_shl\<close> of \<^verbatim>\<open>u32\<close>: the shifted value if the distance is below the width.\<close>

definition checked_shl :: "u32 \<Rightarrow> u32 \<Rightarrow> u32 option" where
  "checked_shl x n = (if unat n < 32 then Some (push_bit (unat n) x) else None)"

lemma unat_less_exp: "unat (a :: 'n::len word) < 2 ^ LENGTH('n)"
  by (rule unsigned_less)

lemma unat_word_max: "unat (- 1 :: 'n::len word) = 2 ^ LENGTH('n) - 1"
  by (simp add: unsigned_minus_1_eq_mask mask_eq_exp_minus_1)

lemma unat_of_nat_small:
  "n < 2 ^ LENGTH('n) \<Longrightarrow> unat (of_nat n :: 'n::len word) = n"
  by (simp add: unsigned_of_nat take_bit_nat_eq_self_iff)

lemma unat_add_small:
  "unat a + unat b < 2 ^ LENGTH('n) \<Longrightarrow> unat (a + b :: 'n::len word) = unat a + unat b"
  by (simp add: unat_word_ariths)

lemma unat_saturating_add:
  fixes a b :: "'n::len word"
  shows "unat (saturating_add a b) = min (unat a + unat b) (2 ^ LENGTH('n) - 1)"
proof (cases "unat a + unat b < 2 ^ LENGTH('n)")
  case True
  then have "unat a + unat b \<le> 2 ^ LENGTH('n) - 1" by linarith
  with True show ?thesis
    by (simp add: saturating_add_def unat_add_small)
next
  case False
  then show ?thesis
    by (simp add: saturating_add_def unat_word_max)
qed

text \<open>The sum on binary integers, for evaluation.\<close>

lemma unat_sum_fits:
  fixes a b :: "'n::len word"
  shows "unat a + unat b < 2 ^ LENGTH('n) \<longleftrightarrow> uint a + uint b < 2 ^ LENGTH('n)"
proof -
  have "unat a + unat b < 2 ^ LENGTH('n) \<longleftrightarrow> int (unat a + unat b) < int (2 ^ LENGTH('n))"
    by (rule of_nat_less_iff [symmetric])
  then show ?thesis by simp
qed

lemma saturating_add_code [code]:
  fixes a b :: "'n::len word"
  shows "saturating_add a b = (if uint a + uint b < 2 ^ LENGTH('n) then a + b else - 1)"
  by (simp only: saturating_add_def unat_sum_fits)

text \<open>Arithmetic of a build with overflow checks: \<^const>\<open>None\<close> is the panic.\<close>

definition checked_add :: "'n::len word \<Rightarrow> 'n word \<Rightarrow> 'n word option" where
  "checked_add a b = (if unat a + unat b < 2 ^ LENGTH('n) then Some (a + b) else None)"

definition checked_sub :: "'n::len word \<Rightarrow> 'n word \<Rightarrow> 'n word option" where
  "checked_sub a b = (if b \<le> a then Some (a - b) else None)"

lemma checked_add_code [code]:
  fixes a b :: "'n::len word"
  shows "checked_add a b = (if uint a + uint b < 2 ^ LENGTH('n) then Some (a + b) else None)"
  by (simp only: checked_add_def unat_sum_fits)

lemma checked_add_unat:
  fixes a b :: "'n::len word"
  shows "checked_add a b = Some c \<Longrightarrow> unat c = unat a + unat b"
  by (auto simp: checked_add_def unat_word_ariths split: if_splits)

lemma checked_sub_unat: "checked_sub a b = Some c \<Longrightarrow> unat a = unat c + unat b"
  by (auto simp: checked_sub_def word_le_nat_alt unat_sub split: if_splits)

lemma saturating_add_0 [simp]: "saturating_add (a :: 'n::len word) 0 = a"
  by (simp add: saturating_add_def unat_less_exp)

lemma saturating_add_exact:
  fixes a b :: "'n::len word"
  assumes "unat a + unat b < 2 ^ LENGTH('n)"
  shows "saturating_add a b = a + b"
  using assms by (simp add: saturating_add_def)

lemma unat_checked_shl_1:
  assumes "unat n < 32"
  shows "\<exists>f. checked_shl 1 n = Some f \<and> unat f = 2 ^ unat n"
proof -
  have "(2::nat) ^ unat n < 2 ^ LENGTH(32)"
    by (rule power_strict_increasing) (use assms in simp_all)
  then have "unat (of_nat (2 ^ unat n) :: u32) = 2 ^ unat n"
    by (rule unat_of_nat_small)
  with assms show ?thesis
    by (simp add: checked_shl_def push_bit_eq_mult)
qed

section \<open>Durations and instants\<close>

text \<open>
  \<^verbatim>\<open>std::time::Duration\<close> as its number of nanoseconds, at most
  \<^verbatim>\<open>Duration::MAX\<close> (a \<^verbatim>\<open>u64\<close> of seconds and 999999999 nanoseconds). An instant is the
  number of nanoseconds since some origin; \<^verbatim>\<open>elapsed\<close> saturates at zero, as subtraction on
  \<^typ>\<open>nat\<close> does.
\<close>

type_synonym duration = nat
type_synonym instant = nat

definition duration_max :: duration where
  "duration_max = (2 ^ 64 - 1) * 1000000000 + 999999999"

definition from_millis :: "nat \<Rightarrow> duration" where
  "from_millis n = n * 1000000"

definition from_secs :: "nat \<Rightarrow> duration" where
  "from_secs n = n * 1000000000"

definition duration_saturating_mul :: "duration \<Rightarrow> u32 \<Rightarrow> duration" where
  "duration_saturating_mul d f = (if d * unat f \<le> duration_max then d * unat f else duration_max)"

definition elapsed :: "instant \<Rightarrow> instant \<Rightarrow> duration" where
  "elapsed now since = now - since"

lemma duration_saturating_mul_min:
  "duration_saturating_mul d f = min (d * unat f) duration_max"
  by (simp add: duration_saturating_mul_def min_def)

text \<open>The same on binary integers, for evaluation.\<close>

lemma duration_saturating_mul_code [code]:
  "duration_saturating_mul d f =
     (let p = int d * uint f in if p \<le> 18446744073709551615999999999 then nat p else duration_max)"
proof -
  have p: "int d * uint f = int (d * unat f)" by simp
  have m: "int duration_max = 18446744073709551615999999999" by (simp add: duration_max_def)
  have "int (d * unat f) \<le> 18446744073709551615999999999 \<longleftrightarrow> d * unat f \<le> duration_max"
    unfolding m [symmetric] of_nat_le_iff ..
  with p show ?thesis unfolding duration_saturating_mul_def Let_def p by (simp only: nat_int)
qed

section \<open>Results, panics and poll order\<close>

type_synonym ('a, 'e) result = "'e + 'a"

abbreviation Ok :: "'a \<Rightarrow> ('a, 'e) result" where
  "Ok \<equiv> Inr"

abbreviation Err :: "'e \<Rightarrow> ('a, 'e) result" where
  "Err \<equiv> Inl"

text \<open>
  How a call of user code or of a store ends when it runs under \<^verbatim>\<open>catch_unwind\<close>: it
  returns a value, returns an error, or panics.
\<close>

datatype ('a, 'e) call = Return 'a | Fail 'e | Panic

text \<open>
  \<^verbatim>\<open>Infallible\<close>, an error of which there is no value; HOL types are inhabited, so it has one
  that no operation returns.
\<close>

datatype infallible = Infallible

text \<open>
  One poll of \<^verbatim>\<open>select! { biased; ... }\<close> with two branches, in textual order: the first
  branch that is ready is taken, and the whole is pending if none is.
\<close>

fun select_biased :: "'a option \<Rightarrow> 'b option \<Rightarrow> ('a + 'b) option" where
  "select_biased (Some a) _ = Some (Inl a)"
| "select_biased None (Some b) = Some (Inr b)"
| "select_biased None None = None"

text \<open>
  Sequencing of calls inside one caught region: the first error (\<^verbatim>\<open>?\<close>) or panic ends it; and
  \<^verbatim>\<open>map_err\<close>.
\<close>

fun call_bind :: "('a, 'e) call \<Rightarrow> ('a \<Rightarrow> ('b, 'e) call) \<Rightarrow> ('b, 'e) call" where
  "call_bind (Return a) f = f a"
| "call_bind (Fail e) f = Fail e"
| "call_bind Panic f = Panic"

fun call_map_err :: "('e \<Rightarrow> 'f) \<Rightarrow> ('a, 'e) call \<Rightarrow> ('a, 'f) call" where
  "call_map_err h (Return a) = Return a"
| "call_map_err h (Fail e) = Fail (h e)"
| "call_map_err h Panic = Panic"

lemma call_bind_Return [simp]:
  "call_bind c f = Return b \<longleftrightarrow> (\<exists>a. c = Return a \<and> f a = Return b)"
  by (cases c) auto

lemma call_map_err_Return [simp]: "call_map_err h c = Return a \<longleftrightarrow> c = Return a"
  by (cases c) auto

fun result_bind :: "('a, 'e) result \<Rightarrow> ('a \<Rightarrow> ('b, 'e) result) \<Rightarrow> ('b, 'e) result" where
  "result_bind (Inl e) f = Inl e"
| "result_bind (Inr a) f = f a"

lemma result_bind_Ok_iff:
  "result_bind r f = Ok b \<longleftrightarrow> (\<exists>a. r = Ok a \<and> f a = Ok b)"
  by (cases r) auto

section \<open>Text\<close>

text \<open>The white space of ASCII.\<close>

definition is_space :: "char \<Rightarrow> bool" where
  "is_space c \<longleftrightarrow> of_char c \<in> {9, 10, 11, 12, 13, 32 :: nat}"

text \<open>Decimal digits, as \<^verbatim>\<open>format!\<close> prints an unsigned integer.\<close>

fun decimal :: "nat \<Rightarrow> string" where
  "decimal n = (if n < 10 then [char_of (48 + n)] else decimal (n div 10) @ [char_of (48 + n mod 10)])"

declare decimal.simps [simp del]

lemma decimal_digits: "c \<in> set (decimal n) \<Longrightarrow> 48 \<le> (of_char c :: nat) \<and> (of_char c :: nat) < 58"
proof (induction n rule: decimal.induct)
  case (1 n)
  then show ?case
    by (cases "n < 10") (auto simp: decimal.simps [of n] of_char_of take_bit_eq_mod)
qed

lemma decimal_not_in [simp]: "CHR ''-'' \<notin> set (decimal n)" "CHR ''/'' \<notin> set (decimal n)"
  using decimal_digits [of "CHR ''-''" n] decimal_digits [of "CHR ''/''" n] by auto

lemma decimal_nonempty [simp]: "decimal n \<noteq> []"
  by (simp add: decimal.simps [of n])

lemma decimal_length: "n < 10 ^ Suc d \<Longrightarrow> length (decimal n) \<le> Suc d"
proof (induction d arbitrary: n)
  case 0
  then show ?case by (simp add: decimal.simps [of n])
next
  case (Suc d)
  then have "n div 10 < 10 ^ Suc d" by auto
  with Suc.IH [of "n div 10"] show ?case by (simp add: decimal.simps [of n])
qed

text \<open>The digits determine the number.\<close>

definition undecimal :: "string \<Rightarrow> nat" where
  "undecimal s = foldl (\<lambda>v c. 10 * v + (of_char c - 48)) 0 s"

lemma undecimal_decimal [simp]: "undecimal (decimal n) = n"
proof (induction n rule: decimal.induct)
  case (1 n)
  then show ?case
    by (cases "n < 10") (auto simp: decimal.simps [of n] undecimal_def of_char_of take_bit_eq_mod)
qed

section \<open>Association lists for hash maps\<close>

lemma map_of_eq_None_notin: "map_of al k = None \<longleftrightarrow> k \<notin> fst ` set al"
  by (simp add: map_of_eq_None_iff)

lemma fst_set_delete [simp]: "fst ` set (AList.delete k al) = fst ` set al - {k}"
  by (induction al) auto

lemma set_delete_alist: "set (AList.delete k al) = {p \<in> set al. fst p \<noteq> k}"
  by (auto simp: AList.delete_eq)

lemma fst_set_update [simp]: "fst ` set (AList.update k v al) = insert k (fst ` set al)"
  by (simp add: dom_update)

lemma distinct_map_of_in_set:
  "distinct (map fst al) \<Longrightarrow> map_of al k = Some v \<longleftrightarrow> (k, v) \<in> set al"
  by simp

end
