(* ===== verification/Actor.thy ===== *)
theory Actor
  imports Prelude
begin

text \<open>
  \<^verbatim>\<open>tellus/src/actor_id.rs\<close> and the data of \<^verbatim>\<open>tellus/src/actor.rs\<close>: identities, what an
  actor receives and what it decides. An ID wraps a 128-bit UUID; drawing a fresh one is the
  \<^verbatim>\<open>uuid\<close> crate's, so the operations that create an actor take its ID as an argument. Messages
  of all actors share one type \<open>'m\<close>.
\<close>

datatype actor_id = ActorId (uuid: "128 word")

text \<open>The derived \<^verbatim>\<open>Ord\<close>: the order of the wrapped UUIDs, hence of their creation.\<close>

instantiation actor_id :: linorder
begin

definition less_eq_actor_id :: "actor_id \<Rightarrow> actor_id \<Rightarrow> bool" where
  "less_eq_actor_id a b \<longleftrightarrow> uuid a \<le> uuid b"

definition less_actor_id :: "actor_id \<Rightarrow> actor_id \<Rightarrow> bool" where
  "less_actor_id a b \<longleftrightarrow> uuid a < uuid b"

instance
  by standard (auto simp: less_eq_actor_id_def less_actor_id_def actor_id.expand)

end

datatype 'm incoming = Message 'm | Terminated actor_id

datatype 's control = Continue 's | Stop

fun is_message :: "'m incoming \<Rightarrow> bool" where
  "is_message (Message _) = True"
| "is_message (Terminated _) = False"

end
