(* ===== verification/Backoff.thy ===== *)
theory Backoff
  imports Prelude
begin

text \<open>
  \<^verbatim>\<open>tellus/src/backoff.rs\<close>: the bounds of an exponential backoff, its fallible
  constructor, the deserialization route through that constructor, and the delay of a step.
\<close>

record backoff =
  bo_min :: duration
  bo_max :: duration

record invalid_backoff =
  invalid_min :: duration
  invalid_max :: duration

record unchecked_backoff =
  unchecked_min :: duration
  unchecked_max :: duration

definition DEFAULT_MIN :: duration where
  "DEFAULT_MIN = from_millis 250"

definition DEFAULT_MAX :: duration where
  "DEFAULT_MAX = from_secs 4"

definition backoff_new :: "duration \<Rightarrow> duration \<Rightarrow> (backoff, invalid_backoff) result" where
  "backoff_new mn mx =
     (if mx < mn then Err \<lparr>invalid_min = mn, invalid_max = mx\<rparr>
      else Ok \<lparr>bo_min = mn, bo_max = mx\<rparr>)"

definition backoff_duration :: "backoff \<Rightarrow> u32 \<Rightarrow> duration" where
  "backoff_duration b step =
     (let factor = (case checked_shl 1 step of Some f \<Rightarrow> f | None \<Rightarrow> - 1)
      in min (duration_saturating_mul (bo_min b) factor) (bo_max b))"

text \<open>\<^verbatim>\<open>Backoff::default\<close>: \<^const>\<open>None\<close> is the panic of its \<^verbatim>\<open>expect\<close>.\<close>

definition backoff_default :: "backoff option" where
  "backoff_default =
     (case backoff_new DEFAULT_MIN DEFAULT_MAX of Ok b \<Rightarrow> Some b | Err _ \<Rightarrow> None)"

definition backoff_try_from :: "unchecked_backoff \<Rightarrow> (backoff, invalid_backoff) result" where
  "backoff_try_from u = backoff_new (unchecked_min u) (unchecked_max u)"

text \<open>
  What the private fields and the constructor guarantee of every \<^verbatim>\<open>Backoff\<close> value: the
  bounds are ordered, and the maximum is a \<^verbatim>\<open>Duration\<close>.
\<close>

definition backoff_valid :: "backoff \<Rightarrow> bool" where
  "backoff_valid b \<longleftrightarrow> bo_min b \<le> bo_max b \<and> bo_max b \<le> duration_max"

section \<open>The factor of a step\<close>

definition step_factor :: "u32 \<Rightarrow> nat" where
  "step_factor step = (if unat step < 32 then 2 ^ unat step else 2 ^ 32 - 1)"

lemma step_factor_pos: "0 < step_factor step"
  by (simp add: step_factor_def)

lemma step_factor_mono:
  assumes "unat s \<le> unat t"
  shows "step_factor s \<le> step_factor t"
proof (cases "unat t < 32")
  case True
  with assms show ?thesis by (simp add: step_factor_def power_increasing)
next
  case False
  have "(2::nat) ^ unat s \<le> 2 ^ 31" if "unat s < 32"
    by (rule power_increasing) (use that in simp_all)
  with False show ?thesis by (fastforce simp: step_factor_def)
qed

lemma backoff_duration_factor:
  assumes "backoff_valid b"
  shows "backoff_duration b step = min (bo_min b * step_factor step) (bo_max b)"
proof -
  have "unat (case checked_shl 1 step of Some f \<Rightarrow> f | None \<Rightarrow> - 1) = step_factor step"
  proof (cases "unat step < 32")
    case True
    then obtain f where "checked_shl 1 step = Some f" "unat f = 2 ^ unat step"
      using unat_checked_shl_1 by blast
    with True show ?thesis by (simp add: step_factor_def)
  next
    case False
    then show ?thesis
      by (simp add: checked_shl_def step_factor_def unat_word_max)
  qed
  with assms show ?thesis
    by (simp add: backoff_duration_def duration_saturating_mul_min backoff_valid_def Let_def
        min.assoc min.absorb2)
qed

section \<open>Properties\<close>

lemma backoff_new_Ok_valid:
  "backoff_new mn mx = Ok b \<Longrightarrow> mx \<le> duration_max \<Longrightarrow> backoff_valid b"
  by (auto simp: backoff_new_def backoff_valid_def split: if_splits)

text \<open>
  \<^verbatim>\<open>Backoff::new\<close> succeeds exactly on ordered bounds and then keeps both; on inverted
  bounds it fails with both of them, and deserialization is the same function, so no reachable
  \<^verbatim>\<open>Backoff\<close> contradicts itself.
\<close>

lemma backoff_new_cases:
  "backoff_try_from \<lparr>unchecked_min = mn, unchecked_max = mx\<rparr> = backoff_new mn mx \<and>
   backoff_new mn mx =
     (if mn \<le> mx then Ok \<lparr>bo_min = mn, bo_max = mx\<rparr>
      else Err \<lparr>invalid_min = mn, invalid_max = mx\<rparr>)"
  by (simp add: backoff_new_def backoff_try_from_def)

text \<open>The \<^verbatim>\<open>expect\<close> of \<^verbatim>\<open>Backoff::default\<close> never panics.\<close>

lemma backoff_default_valid:
  "\<exists>b. backoff_default = Some b \<and> backoff_valid b \<and> bo_min b = 250000000 \<and> bo_max b = 4000000000"
  by (simp add: backoff_default_def backoff_new_def backoff_valid_def DEFAULT_MIN_def
      DEFAULT_MAX_def from_millis_def from_secs_def duration_max_def)

text \<open>
  Up to step 31 the delay is the documented \<^verbatim>\<open>min * 2^step\<close>, capped at \<^verbatim>\<open>max\<close>:
  neither the shift nor the multiplication of the \<^verbatim>\<open>Duration\<close> loses anything.
\<close>

lemma backoff_duration_doubles:
  assumes "backoff_valid b" and "unat step < 32"
  shows "backoff_duration b step = min (bo_min b * 2 ^ unat step) (bo_max b)"
  using assms by (simp add: backoff_duration_factor step_factor_def)

text \<open>every delay lies between the two bounds, whatever the step.\<close>

lemma backoff_duration_bounds:
  assumes "backoff_valid b"
  shows "bo_min b \<le> backoff_duration b step \<and> backoff_duration b step \<le> bo_max b"
proof -
  have "bo_min b * 1 \<le> bo_min b * step_factor step"
    using step_factor_pos [of step] by (intro mult_le_mono2) simp
  with assms show ?thesis
    by (simp add: backoff_duration_factor backoff_valid_def)
qed

text \<open>A later step is never delayed less than an earlier one.\<close>

lemma backoff_duration_mono:
  assumes "backoff_valid b" and "s \<le> t"
  shows "backoff_duration b s \<le> backoff_duration b t"
proof -
  have "bo_min b * step_factor s \<le> bo_min b * step_factor t"
    using assms(2) by (intro mult_le_mono2 step_factor_mono) (simp add: word_le_nat_alt)
  then show ?thesis
    unfolding backoff_duration_factor [OF assms(1)] by (rule min.mono) simp
qed

text \<open>
  C39: from step 32 on the factor stays at \<^verbatim>\<open>u32::MAX\<close>, so the delay is
  \<^verbatim>\<open>min * (2^32 - 1)\<close> capped at \<^verbatim>\<open>max\<close>: with a minimum small enough it stays below
  both the documented \<^verbatim>\<open>min * 2^step\<close> and the cap.
\<close>

theorem backoff_wide_step:
  assumes "backoff_valid b" and "32 \<le> unat step"
  shows "backoff_duration b step = min (bo_min b * (2 ^ 32 - 1)) (bo_max b)"
  using assms by (simp add: backoff_duration_factor step_factor_def)

theorem backoff_wide_step_witness:
  "backoff_duration \<lparr>bo_min = 1, bo_max = 10000000000\<rparr> 40 = 4294967295 \<and>
   min (1 * 2 ^ unat (40::u32)) (10000000000::nat) = 10000000000"
  using backoff_wide_step [of "\<lparr>bo_min = 1, bo_max = 10000000000\<rparr>" 40]
  by (simp add: backoff_valid_def duration_max_def)

end
