(* ===== verification/ActorConfig.thy ===== *)
theory ActorConfig
  imports Backoff
begin

text \<open>
  \<^verbatim>\<open>tellus/src/actor_config.rs\<close>: the configuration of an actor, that is the capacity of its
  mailbox and what supervision does after a failure, with the builders. The
  \<^verbatim>\<open>NonZero\<close> types are plain words here; \<open>config_valid\<close> states what they guarantee.
\<close>

datatype mailbox_capacity = Unbounded | Bounded usize

record restart_policy =
  max_restarts :: u32
  policy_backoff :: backoff
  reset_after :: duration

datatype supervision_strategy = StopStrategy | Restart restart_policy

record actor_config =
  config_capacity :: mailbox_capacity
  config_strategy :: supervision_strategy

definition actor_config_default :: actor_config where
  "actor_config_default = \<lparr>config_capacity = Unbounded, config_strategy = StopStrategy\<rparr>"

definition with_mailbox_capacity :: "actor_config \<Rightarrow> mailbox_capacity \<Rightarrow> actor_config" where
  "with_mailbox_capacity c cap = c\<lparr>config_capacity := cap\<rparr>"

definition with_supervision_strategy :: "actor_config \<Rightarrow> supervision_strategy \<Rightarrow> actor_config" where
  "with_supervision_strategy c st = c\<lparr>config_strategy := st\<rparr>"

definition DEFAULT_RESET_AFTER :: duration where
  "DEFAULT_RESET_AFTER = from_secs 30"

text \<open>\<^const>\<open>None\<close> is the panic \<^verbatim>\<open>Backoff::default\<close> would raise.\<close>

definition restart_policy_new :: "u32 \<Rightarrow> restart_policy option" where
  "restart_policy_new n =
     map_option (\<lambda>b. \<lparr>max_restarts = n, policy_backoff = b, reset_after = DEFAULT_RESET_AFTER\<rparr>)
       backoff_default"

definition with_backoff :: "restart_policy \<Rightarrow> backoff \<Rightarrow> restart_policy" where
  "with_backoff p b = p\<lparr>policy_backoff := b\<rparr>"

definition with_reset_after :: "restart_policy \<Rightarrow> duration \<Rightarrow> restart_policy" where
  "with_reset_after p d = p\<lparr>reset_after := d\<rparr>"

definition policy_valid :: "restart_policy \<Rightarrow> bool" where
  "policy_valid p \<longleftrightarrow> 0 < max_restarts p \<and> backoff_valid (policy_backoff p)"

definition config_valid :: "actor_config \<Rightarrow> bool" where
  "config_valid c \<longleftrightarrow>
     (case config_capacity c of Unbounded \<Rightarrow> True | Bounded n \<Rightarrow> 0 < n) \<and>
     (case config_strategy c of StopStrategy \<Rightarrow> True | Restart p \<Rightarrow> policy_valid p)"

lemma restart_policy_new_valid:
  "0 < n \<Longrightarrow> \<exists>p. restart_policy_new n = Some p \<and> policy_valid p \<and> max_restarts p = n \<and>
     reset_after p = 30000000000"
  using backoff_default_valid
  by (auto simp: restart_policy_new_def policy_valid_def DEFAULT_RESET_AFTER_def from_secs_def)

lemma builders_keep_valid:
  "policy_valid p \<Longrightarrow> backoff_valid b \<Longrightarrow> policy_valid (with_reset_after (with_backoff p b) d)"
  by (simp add: policy_valid_def with_backoff_def with_reset_after_def)

lemma config_builders_valid:
  assumes "policy_valid p" and "0 < n"
  shows "config_valid (with_supervision_strategy
           (with_mailbox_capacity actor_config_default (Bounded n)) (Restart p))"
  using assms
  by (simp add: config_valid_def with_supervision_strategy_def with_mailbox_capacity_def
      actor_config_default_def)

end
