(* ===== verification/Channel.thy ===== *)
theory Channel
  imports Prelude
begin

text \<open>
  The flume channel under a mailbox. flume is a dependency, so its operations are a parameter
  of the model: the record \<open>flume\<close> carries what \<^verbatim>\<open>tellus/src/quota.rs\<close> and
  \<^verbatim>\<open>tellus/src/mailbox.rs\<close> call, and the locale \<open>flume_channel\<close> states the documented
  behaviour the crate relies on: a FIFO whose sends fail exactly once the receiver is gone.
\<close>

datatype ('a, 'c) recv_poll = Received 'a 'c | Pending | Closed

record ('a, 'c) flume =
  fl_unbounded :: 'c
  fl_send :: "'a \<Rightarrow> 'c \<Rightarrow> 'c option"
  fl_is_disconnected :: "'c \<Rightarrow> bool"
  fl_recv :: "'c \<Rightarrow> ('a, 'c) recv_poll"
  fl_drain :: "'c \<Rightarrow> 'a list \<times> 'c"
  fl_drop_rx :: "'c \<Rightarrow> 'c"

text \<open>
  \<^term>\<open>fl_send fl x c = None\<close> is the send error of a channel whose receiver was dropped;
  \<open>Closed\<close> is the receive error once every sender was dropped and the queue is empty.
  \<open>contents\<close> is the queue, oldest first, \<open>connected\<close> whether the receiver exists and
  \<open>tx_alive\<close> whether a sender does.
\<close>

locale flume_channel =
  fixes fl :: "('a, 'c) flume"
    and contents :: "'c \<Rightarrow> 'a list"
    and connected :: "'c \<Rightarrow> bool"
    and tx_alive :: "'c \<Rightarrow> bool"
  assumes unbounded_new:
      "contents (fl_unbounded fl) = [] \<and> connected (fl_unbounded fl) \<and> tx_alive (fl_unbounded fl)"
    and send_connected: "connected c \<Longrightarrow> fl_send fl x c \<noteq> None"
    and send_Some: "fl_send fl x c = Some c' \<Longrightarrow>
          connected c \<and> connected c' \<and> contents c' = contents c @ [x] \<and> tx_alive c' = tx_alive c"
    and is_disconnected: "fl_is_disconnected fl c = (\<not> connected c)"
    and recv_Cons: "contents c = x # xs \<Longrightarrow> \<exists>c'. fl_recv fl c = Received x c'"
    and recv_Received: "fl_recv fl c = Received x c' \<Longrightarrow>
          contents c = x # contents c' \<and> connected c' = connected c \<and> tx_alive c' = tx_alive c"
    and recv_Closed: "fl_recv fl c = Closed \<Longrightarrow> \<not> tx_alive c"
    and drain: "fl_drain fl c = (xs, c') \<Longrightarrow>
          xs = contents c \<and> contents c' = [] \<and> connected c' = connected c \<and> tx_alive c' = tx_alive c"
    and drop_rx: "contents (fl_drop_rx fl c) = contents c \<and> \<not> connected (fl_drop_rx fl c) \<and>
          tx_alive (fl_drop_rx fl c) = tx_alive c"
begin

lemma send_None_iff: "fl_send fl x c = None \<longleftrightarrow> \<not> connected c"
proof (cases "fl_send fl x c")
  case None
  then show ?thesis using send_connected by blast
next
  case (Some c')
  then show ?thesis using send_Some by simp
qed

lemma send_cases [consumes 0, case_names sent gone]:
  assumes "\<And>c'. fl_send fl x c = Some c' \<Longrightarrow> connected c \<Longrightarrow> connected c' \<Longrightarrow>
      contents c' = contents c @ [x] \<Longrightarrow> tx_alive c' = tx_alive c \<Longrightarrow> P"
    and "fl_send fl x c = None \<Longrightarrow> \<not> connected c \<Longrightarrow> P"
  shows P
  using assms send_Some send_None_iff by (cases "fl_send fl x c") auto

lemma recv_Nil: "contents c = [] \<Longrightarrow> tx_alive c \<Longrightarrow> fl_recv fl c = Pending"
  using recv_Received recv_Closed by (cases "fl_recv fl c") auto

text \<open>Whatever is sent first is received first, with nothing lost in between.\<close>

lemma send_then_recv:
  assumes "fl_send fl x c = Some c'" and "contents c = []"
  shows "\<exists>c''. fl_recv fl c' = Received x c'' \<and> contents c'' = []"
proof -
  have "contents c' = [x]" using assms send_Some by simp
  then obtain c'' where "fl_recv fl c' = Received x c''" using recv_Cons by blast
  with \<open>contents c' = [x]\<close> recv_Received show ?thesis by fastforce
qed

end

section \<open>A list that behaves like the channel\<close>

text \<open>
  The laws have a model: the queue as a list, with a flag each for the receiver and for the
  senders. The witnesses evaluate the mailbox over it.
\<close>

record 'a list_channel =
  items :: "'a list"
  rx_alive :: bool
  some_tx :: bool

definition list_flume :: "('a, 'a list_channel) flume" where
  "list_flume = \<lparr>
     fl_unbounded = \<lparr>items = [], rx_alive = True, some_tx = True\<rparr>,
     fl_send = (\<lambda>x c. if rx_alive c then Some (c\<lparr>items := items c @ [x]\<rparr>) else None),
     fl_is_disconnected = (\<lambda>c. \<not> rx_alive c),
     fl_recv = (\<lambda>c. case items c of
                     x # xs \<Rightarrow> Received x (c\<lparr>items := xs\<rparr>)
                   | [] \<Rightarrow> if some_tx c then Pending else Closed),
     fl_drain = (\<lambda>c. (items c, c\<lparr>items := []\<rparr>)),
     fl_drop_rx = (\<lambda>c. c\<lparr>rx_alive := False\<rparr>)\<rparr>"

interpretation list_chan: flume_channel list_flume items rx_alive some_tx
  by unfold_locales (auto simp: list_flume_def split: list.splits if_splits)

end
