(* ===== verification/Quota.thy ===== *)
theory Quota
  imports Channel
begin

text \<open>
  \<^verbatim>\<open>tellus/src/quota.rs\<close>: the capacity reservation in front of the channel, and the sender
  that combines both. The count is the shared \<^verbatim>\<open>AtomicUsize\<close>, so it wraps like one; each
  operation is one atomic access. A \<^verbatim>\<open>Reservation\<close> is a reservation taken and not yet
  committed or dropped: committing leaves the count, dropping releases it.
\<close>

datatype quota = QUnbounded | QBounded (quota_capacity: usize) (quota_count: usize)

datatype full = Full

datatype disconnected = Disconnected

datatype counted_send_error = FullError full | DisconnectedError disconnected

definition quota_unbounded :: quota where
  "quota_unbounded = QUnbounded"

definition quota_bounded :: "usize \<Rightarrow> quota" where
  "quota_bounded cap = QBounded cap 0"

fun reserve :: "quota \<Rightarrow> (quota, full) result" where
  "reserve QUnbounded = Ok QUnbounded"
| "reserve (QBounded cap current) =
     (if current < cap then Ok (QBounded cap (current + 1)) else Err Full)"

fun reserve_forced :: "quota \<Rightarrow> quota" where
  "reserve_forced QUnbounded = QUnbounded"
| "reserve_forced (QBounded cap current) = QBounded cap (current + 1)"

fun unreserve :: "quota \<Rightarrow> quota" where
  "unreserve QUnbounded = QUnbounded"
| "unreserve (QBounded cap previous) = QBounded cap (previous - 1)"

text \<open>The \<^verbatim>\<open>debug_assert!\<close> of \<^verbatim>\<open>unreserve\<close>: the count it releases from is not zero.\<close>

fun unreserve_ok :: "quota \<Rightarrow> bool" where
  "unreserve_ok QUnbounded = True"
| "unreserve_ok (QBounded cap previous) = (0 < previous)"

definition reservation_commit :: "quota \<Rightarrow> quota" where
  "reservation_commit q = q"

definition reservation_drop :: "quota \<Rightarrow> quota" where
  "reservation_drop q = unreserve q"

text \<open>The channel and the quota both halves share.\<close>

record 'c counted =
  item_chan :: 'c
  chan_quota :: quota

definition try_send_counted ::
  "('a, 'c) flume \<Rightarrow> 'a \<Rightarrow> ('c, 'z) counted_scheme
     \<Rightarrow> (unit, counted_send_error) result \<times> ('c, 'z) counted_scheme" where
  "try_send_counted fl item s =
     (case reserve (chan_quota s) of
        Ok q \<Rightarrow>
          (case fl_send fl item (item_chan s) of
             Some c \<Rightarrow> (Ok (), s\<lparr>item_chan := c, chan_quota := reservation_commit q\<rparr>)
           | None \<Rightarrow> (Err (DisconnectedError Disconnected), s\<lparr>chan_quota := reservation_drop q\<rparr>))
      | Err full \<Rightarrow>
          (if fl_is_disconnected fl (item_chan s)
           then (Err (DisconnectedError Disconnected), s)
           else (Err (FullError full), s)))"

definition try_send_forced ::
  "('a, 'c) flume \<Rightarrow> 'a \<Rightarrow> ('c, 'z) counted_scheme
     \<Rightarrow> (unit, disconnected) result \<times> ('c, 'z) counted_scheme" where
  "try_send_forced fl item s =
     (let q = reserve_forced (chan_quota s) in
      case fl_send fl item (item_chan s) of
        Some c \<Rightarrow> (Ok (), s\<lparr>item_chan := c, chan_quota := reservation_commit q\<rparr>)
      | None \<Rightarrow> (Err Disconnected, s\<lparr>chan_quota := reservation_drop q\<rparr>))"

definition try_send_uncounted ::
  "('a, 'c) flume \<Rightarrow> 'a \<Rightarrow> ('c, 'z) counted_scheme
     \<Rightarrow> (unit, disconnected) result \<times> ('c, 'z) counted_scheme" where
  "try_send_uncounted fl item s =
     (case fl_send fl item (item_chan s) of
        Some c \<Rightarrow> (Ok (), s\<lparr>item_chan := c\<rparr>)
      | None \<Rightarrow> (Err Disconnected, s))"

section \<open>Lemmas\<close>

lemma unreserve_reserve: "reserve q = Ok q' \<Longrightarrow> unreserve q' = q"
  by (cases q) (auto split: if_splits)

lemma unreserve_reserve_forced [simp]: "unreserve (reserve_forced q) = q"
  by (cases q) auto

lemma reserve_QBounded_Ok:
  "reserve (QBounded cap n) = Ok q \<longleftrightarrow> n < cap \<and> q = QBounded cap (n + 1)"
  by auto

lemma counted_record_eq [simp]:
  "(s :: ('c, 'z) counted_scheme)\<lparr>chan_quota := chan_quota s\<rparr> = s"
  by simp

lemma try_send_counted_Ok_iff:
  "try_send_counted fl x s = (Ok u, s') \<longleftrightarrow>
     (\<exists>q c. reserve (chan_quota s) = Ok q \<and> fl_send fl x (item_chan s) = Some c \<and>
        s' = s\<lparr>item_chan := c, chan_quota := q\<rparr>)"
  by (auto simp: try_send_counted_def reservation_commit_def reservation_drop_def
      split: sum.splits option.splits if_splits)

text \<open>A send that fails leaves the channel and the count as they were.\<close>

lemma try_send_counted_Err_same:
  "try_send_counted fl x s = (Err e, s') \<Longrightarrow> s' = s"
  by (auto simp: try_send_counted_def reservation_drop_def unreserve_reserve
      split: sum.splits option.splits if_splits)

lemma try_send_forced_Ok_iff:
  "try_send_forced fl x s = (Ok u, s') \<longleftrightarrow>
     (\<exists>c. fl_send fl x (item_chan s) = Some c \<and>
        s' = s\<lparr>item_chan := c, chan_quota := reserve_forced (chan_quota s)\<rparr>)"
  by (auto simp: try_send_forced_def Let_def reservation_commit_def split: option.splits)

lemma try_send_forced_Err_same:
  "try_send_forced fl x s = (Err e, s') \<Longrightarrow> s' = s"
  by (auto simp: try_send_forced_def Let_def reservation_drop_def split: option.splits)

lemma try_send_uncounted_Ok_iff:
  "try_send_uncounted fl x s = (Ok u, s') \<longleftrightarrow>
     (\<exists>c. fl_send fl x (item_chan s) = Some c \<and> s' = s\<lparr>item_chan := c\<rparr>)"
  by (auto simp: try_send_uncounted_def split: option.splits)

lemma try_send_uncounted_Err_same:
  "try_send_uncounted fl x s = (Err e, s') \<Longrightarrow> s' = s"
  by (auto simp: try_send_uncounted_def split: option.splits)

lemmas send_Err_same = try_send_counted_Err_same try_send_forced_Err_same try_send_uncounted_Err_same

end
