(* ===== verification/Mailbox.thy ===== *)
theory Mailbox
  imports Actor ActorConfig Quota
begin

text \<open>
  \<^verbatim>\<open>tellus/src/mailbox.rs\<close>: the mailbox, that is the counted channel of \<^verbatim>\<open>quota.rs\<close> plus the
  watcher registry. \<^verbatim>\<open>MailboxHandle\<close> and \<^verbatim>\<open>Mailbox\<close> share all of it through \<^verbatim>\<open>Arc\<close>s
  and clones, so both halves are one record here and each method is a function on it. The theory
  \<^verbatim>\<open>Contention\<close> lets the atomic steps of several senders and of the receiver interleave.
\<close>

section \<open>Watchers and their registry\<close>

datatype actor_terminated = ActorTerminated

text \<open>
  The implementations of \<^verbatim>\<open>TerminatedSink\<close>: the sender of the watching actor's mailbox, named
  by its ID, and the oneshot of the actor system that watches its root.
\<close>

datatype terminated_sink = MailboxSink actor_id | RootSink

record watcher =
  watcher_id :: actor_id
  watcher_sink :: terminated_sink

definition watcher_new :: "actor_id \<Rightarrow> terminated_sink \<Rightarrow> watcher" where
  "watcher_new i sink = \<lparr>watcher_id = i, watcher_sink = sink\<rparr>"

text \<open>The hash map by watcher ID; \<^const>\<open>None\<close> once registration is closed.\<close>

type_synonym watcher_registry = "(actor_id \<times> watcher) list option"

definition registry_default :: watcher_registry where
  "registry_default = Some []"

definition registry_add ::
  "watcher \<Rightarrow> watcher_registry \<Rightarrow> (unit, actor_terminated) result \<times> watcher_registry" where
  "registry_add w r =
     (case r of
        None \<Rightarrow> (Err ActorTerminated, None)
      | Some watchers \<Rightarrow>
          (Ok (), Some (case map_of watchers (watcher_id w) of
                          Some _ \<Rightarrow> watchers
                        | None \<Rightarrow> (watcher_id w, w) # watchers)))"

definition registry_remove :: "actor_id \<Rightarrow> watcher_registry \<Rightarrow> watcher_registry" where
  "registry_remove i r = map_option (AList.delete i) r"

definition registry_take :: "watcher_registry \<Rightarrow> watcher list \<times> watcher_registry" where
  "registry_take r = (case r of Some watchers \<Rightarrow> (map snd watchers, None) | None \<Rightarrow> ([], None))"

text \<open>Every watcher is stored under its own ID, once.\<close>

definition registry_wf :: "watcher_registry \<Rightarrow> bool" where
  "registry_wf r \<longleftrightarrow>
     (case r of None \<Rightarrow> True
      | Some ws \<Rightarrow> distinct (map fst ws) \<and> list_all (\<lambda>(i, w). watcher_id w = i) ws)"

definition registered :: "watcher_registry \<Rightarrow> actor_id set" where
  "registered r = (case r of None \<Rightarrow> {} | Some ws \<Rightarrow> fst ` set ws)"

section \<open>The mailbox\<close>

record 'c mailbox = "'c counted" +
  registry :: watcher_registry

datatype send_error = MailboxFull full | TerminatedError actor_terminated

fun send_error_from :: "counted_send_error \<Rightarrow> send_error" where
  "send_error_from (FullError full) = MailboxFull full"
| "send_error_from (DisconnectedError _) = TerminatedError ActorTerminated"

definition make_mailbox :: "('m incoming, 'c) flume \<Rightarrow> mailbox_capacity \<Rightarrow> 'c mailbox" where
  "make_mailbox fl cap =
     \<lparr>item_chan = fl_unbounded fl,
      chan_quota = (case cap of Unbounded \<Rightarrow> quota_unbounded | Bounded n \<Rightarrow> quota_bounded n),
      registry = registry_default\<rparr>"

definition try_send_message ::
  "('m incoming, 'c) flume \<Rightarrow> 'm \<Rightarrow> 'c mailbox \<Rightarrow> (unit, send_error) result \<times> 'c mailbox" where
  "try_send_message fl m mb =
     (case try_send_counted fl (Message m) mb of
        (Ok u, mb') \<Rightarrow> (Ok u, mb')
      | (Err e, mb') \<Rightarrow> (Err (send_error_from e), mb'))"

definition try_send_forced_message ::
  "('m incoming, 'c) flume \<Rightarrow> 'm \<Rightarrow> 'c mailbox \<Rightarrow> (unit, send_error) result \<times> 'c mailbox" where
  "try_send_forced_message fl m mb =
     (case try_send_forced fl (Message m) mb of
        (Ok u, mb') \<Rightarrow> (Ok u, mb')
      | (Err _, mb') \<Rightarrow> (Err (TerminatedError ActorTerminated), mb'))"

text \<open>\<^verbatim>\<open>TerminatedSink for CountedSender\<close>: a signal into the watching actor's mailbox.\<close>

definition sink_send_terminated ::
  "('m incoming, 'c) flume \<Rightarrow> actor_id \<Rightarrow> 'c mailbox \<Rightarrow> (unit, actor_terminated) result \<times> 'c mailbox" where
  "sink_send_terminated fl i mb =
     (case try_send_uncounted fl (Terminated i) mb of
        (Ok u, mb') \<Rightarrow> (Ok u, mb')
      | (Err _, mb') \<Rightarrow> (Err ActorTerminated, mb'))"

text \<open>\<^verbatim>\<open>recv\<close>: \<open>Closed\<close> is the \<^verbatim>\<open>None\<close> it resolves to once every handle is dropped.\<close>

definition mailbox_recv ::
  "('m incoming, 'c) flume \<Rightarrow> 'c mailbox \<Rightarrow> ('m incoming, 'c mailbox) recv_poll" where
  "mailbox_recv fl mb =
     (case fl_recv fl (item_chan mb) of
        Received i c \<Rightarrow>
          Received i (mb\<lparr>item_chan := c,
            chan_quota := (if is_message i then unreserve (chan_quota mb) else chan_quota mb)\<rparr>)
      | Pending \<Rightarrow> Pending
      | Closed \<Rightarrow> Closed)"

definition mailbox_try_recv ::
  "('m incoming, 'c) flume \<Rightarrow> 'c mailbox \<Rightarrow> ('m incoming \<times> 'c mailbox) option" where
  "mailbox_try_recv fl mb =
     (case fl_recv fl (item_chan mb) of
        Received i c \<Rightarrow>
          Some (i, mb\<lparr>item_chan := c,
            chan_quota := (if is_message i then unreserve (chan_quota mb) else chan_quota mb)\<rparr>)
      | Pending \<Rightarrow> None
      | Closed \<Rightarrow> None)"

text \<open>
  Termination splits the mailbox: the receiver is drained and dropped, and the watchers are
  taken through the other half later.
\<close>

definition drain_mailbox :: "('m incoming, 'c) flume \<Rightarrow> 'c mailbox \<Rightarrow> 'm incoming list \<times> 'c mailbox" where
  "drain_mailbox fl mb =
     (case fl_drain fl (item_chan mb) of (drained, c) \<Rightarrow> (drained, mb\<lparr>item_chan := c\<rparr>))"

definition disconnect_mailbox :: "('m incoming, 'c) flume \<Rightarrow> 'c mailbox \<Rightarrow> 'c mailbox" where
  "disconnect_mailbox fl mb = mb\<lparr>item_chan := fl_drop_rx fl (item_chan mb)\<rparr>"

definition take_watchers :: "'c mailbox \<Rightarrow> watcher list \<times> 'c mailbox" where
  "take_watchers mb = (case registry_take (registry mb) of (ws, r) \<Rightarrow> (ws, mb\<lparr>registry := r\<rparr>))"

section \<open>Registry lemmas\<close>

lemma registry_add_open:
  "r = Some ws \<Longrightarrow> fst (registry_add w r) = Ok () \<and> registered (snd (registry_add w r)) =
     insert (watcher_id w) (registered r)"
  by (force simp: registry_add_def registered_def map_of_eq_None_iff split: option.splits
      dest: map_of_SomeD)

lemma registry_add_closed: "registry_add w None = (Err ActorTerminated, None)"
  by (simp add: registry_add_def)

lemma registered_remove: "registered (registry_remove i r) = registered r - {i}"
  by (cases r) (simp_all add: registry_remove_def registered_def)

lemma registry_remove_None_iff [simp]: "registry_remove i r = None \<longleftrightarrow> r = None"
  by (simp add: registry_remove_def)

lemma registry_take_ids:
  assumes "registry_wf r"
  shows "set (map watcher_id (fst (registry_take r))) = registered r \<and>
    distinct (map watcher_id (fst (registry_take r))) \<and> snd (registry_take r) = None"
proof (cases r)
  case None
  then show ?thesis by (simp add: registry_take_def registered_def)
next
  case (Some ws)
  then have ids: "map watcher_id (map snd ws) = map fst ws"
    using assms by (auto simp: registry_wf_def list_all_iff)
  have take: "registry_take r = (map snd ws, None)"
    by (simp add: Some registry_take_def)
  show ?thesis
    unfolding take fst_conv snd_conv ids
    using Some assms by (simp add: registered_def registry_wf_def)
qed

lemma registry_wf_default [simp]: "registry_wf registry_default"
  by (simp add: registry_wf_def registry_default_def)

lemma registry_wf_add: "registry_wf r \<Longrightarrow> registry_wf (snd (registry_add w r))"
  by (auto simp: registry_wf_def registry_add_def map_of_eq_None_iff split: option.splits)

lemma registry_wf_remove: "registry_wf r \<Longrightarrow> registry_wf (registry_remove i r)"
  by (auto simp: registry_wf_def registry_remove_def distinct_delete list_all_iff set_delete_alist
      split: option.splits)

lemmas registry_wf_ops = registry_wf_default registry_wf_add registry_wf_remove

section \<open>The contract of a mailbox\<close>

text \<open>
  What the rest of the crate relies on: one FIFO for messages and signals, whose sends either
  enqueue at its end or change nothing; a full mailbox refuses only ordinary messages, and a
  terminated actor refuses everything, as terminated. \<open>room\<close> is whether a message fits.
\<close>

locale mailbox_contract =
  fixes send :: "'m \<Rightarrow> 'b \<Rightarrow> (unit, send_error) result \<times> 'b"
    and send_forced :: "'m \<Rightarrow> 'b \<Rightarrow> (unit, send_error) result \<times> 'b"
    and signal :: "actor_id \<Rightarrow> 'b \<Rightarrow> (unit, actor_terminated) result \<times> 'b"
    and recv :: "'b \<Rightarrow> ('m incoming, 'b) recv_poll"
    and queue :: "'b \<Rightarrow> 'm incoming list"
    and alive :: "'b \<Rightarrow> bool"
    and room :: "'b \<Rightarrow> bool"
  assumes send_Ok: "alive b \<Longrightarrow> room b \<Longrightarrow>
        \<exists>b'. send m b = (Ok (), b') \<and> queue b' = queue b @ [Message m] \<and> alive b'"
    and send_full: "alive b \<Longrightarrow> \<not> room b \<Longrightarrow> send m b = (Err (MailboxFull Full), b)"
    and send_terminated: "\<not> alive b \<Longrightarrow> send m b = (Err (TerminatedError ActorTerminated), b)"
    and forced_Ok: "alive b \<Longrightarrow>
        \<exists>b'. send_forced m b = (Ok (), b') \<and> queue b' = queue b @ [Message m] \<and> alive b'"
    and forced_terminated: "\<not> alive b \<Longrightarrow> send_forced m b = (Err (TerminatedError ActorTerminated), b)"
    and signal_Ok: "alive b \<Longrightarrow>
        \<exists>b'. signal i b = (Ok (), b') \<and> queue b' = queue b @ [Terminated i] \<and> alive b'"
    and signal_terminated: "\<not> alive b \<Longrightarrow> signal i b = (Err ActorTerminated, b)"
    and recv_next: "queue b = x # xs \<Longrightarrow> \<exists>b'. recv b = Received x b'"
    and recv_queue: "recv b = Received x b' \<Longrightarrow> queue b = x # queue b' \<and> alive b' = alive b"
begin

lemma send_cases [case_names ok full terminated]:
  assumes "\<And>b'. send m b = (Ok (), b') \<Longrightarrow> alive b \<Longrightarrow> alive b' \<Longrightarrow> room b \<Longrightarrow>
      queue b' = queue b @ [Message m] \<Longrightarrow> P"
    and "send m b = (Err (MailboxFull Full), b) \<Longrightarrow> alive b \<Longrightarrow> \<not> room b \<Longrightarrow> P"
    and "send m b = (Err (TerminatedError ActorTerminated), b) \<Longrightarrow> \<not> alive b \<Longrightarrow> P"
  shows P
  using assms send_Ok send_full send_terminated by metis

lemma send_queue: "send m b = (Ok u, b') \<Longrightarrow> queue b' = queue b @ [Message m]"
  by (rule send_cases [of m b]) auto

lemma send_refused_same: "send m b = (Err e, b') \<Longrightarrow> b' = b"
  by (rule send_cases [of m b]) auto

lemma forced_queue: "send_forced m b = (Ok u, b') \<Longrightarrow> queue b' = queue b @ [Message m]"
  using forced_Ok [of b m] forced_terminated [of b m] by (cases "alive b") auto

lemma forced_refused_same: "send_forced m b = (Err e, b') \<Longrightarrow> b' = b"
  using forced_Ok [of b m] forced_terminated [of b m] by (cases "alive b") auto

lemma signal_refused_same: "signal i b = (Err e, b') \<Longrightarrow> b' = b"
  using signal_Ok [of b i] signal_terminated [of b i] by (cases "alive b") auto

lemma signal_queue: "signal i b = (Ok u, b') \<Longrightarrow> queue b' = queue b @ [Terminated i]"
  using signal_Ok [of b i] signal_terminated [of b i] by (cases "alive b") auto

lemma send_snd:
  "alive (snd (send m b)) = alive b"
  "queue (snd (send m b)) = queue b @ (if isl (fst (send m b)) then [] else [Message m])"
  by (rule send_cases [of m b]; simp)+

lemma signal_snd:
  "alive (snd (signal i b)) = alive b"
  "queue (snd (signal i b)) = queue b @ (if isl (fst (signal i b)) then [] else [Terminated i])"
  using signal_Ok [of b i] signal_terminated [of b i] by (cases "alive b"; auto)+

lemma send_outcomes:
  "fst (send m b) =
      (if \<not> alive b then Err (TerminatedError ActorTerminated)
       else if room b then Ok () else Err (MailboxFull Full)) \<and>
    fst (send_forced m b) =
      (if alive b then Ok () else Err (TerminatedError ActorTerminated)) \<and>
    fst (signal i b) =
      (if alive b then Ok () else Err ActorTerminated) \<and>
    (isl (fst (send m b)) \<longrightarrow> snd (send m b) = b) \<and>
    (isl (fst (send_forced m b)) \<longrightarrow> snd (send_forced m b) = b) \<and>
    (isl (fst (signal i b)) \<longrightarrow> snd (signal i b) = b)"
  using send_Ok [of b m] send_full [of b m] send_terminated [of b m]
    forced_Ok [of b m] forced_terminated [of b m] signal_Ok [of b i] signal_terminated [of b i]
  by auto

end

section \<open>The code meets the contract\<close>

text \<open>
  Over any channel with the documented behaviour of flume, the operations of \<^verbatim>\<open>mailbox.rs\<close>
  are a mailbox: the queue is the channel's, and there is room unless the count of a bounded
  quota has reached its capacity.
\<close>

definition has_room :: "quota \<Rightarrow> bool" where
  "has_room q = (case q of QUnbounded \<Rightarrow> True | QBounded cap n \<Rightarrow> n < cap)"

lemma reserve_room: "has_room q \<Longrightarrow> \<exists>q'. reserve q = Ok q'"
  by (cases q) (auto simp: has_room_def)

lemma reserve_no_room: "\<not> has_room q \<Longrightarrow> reserve q = Err Full"
  by (cases q) (auto simp: has_room_def)

lemmas mailbox_op_defs = try_send_message_def try_send_forced_message_def sink_send_terminated_def
  try_send_counted_def try_send_forced_def try_send_uncounted_def
  reservation_commit_def reservation_drop_def

context flume_channel
begin

lemma counted_send_terminated:
  "\<not> connected (item_chan s) \<Longrightarrow>
     try_send_counted fl x s = (Err (DisconnectedError Disconnected), s)"
  using send_None_iff [of x "item_chan s"]
  by (cases "reserve (chan_quota s)")
     (auto simp: try_send_counted_def is_disconnected reservation_drop_def unreserve_reserve)

lemma counted_send_full:
  "connected (item_chan s) \<Longrightarrow> \<not> has_room (chan_quota s) \<Longrightarrow>
     try_send_counted fl x s = (Err (FullError Full), s)"
  by (simp add: try_send_counted_def is_disconnected reserve_no_room)

lemma counted_send_ok:
  assumes "connected (item_chan s)" and "has_room (chan_quota s)"
  shows "\<exists>c q. try_send_counted fl x s = (Ok (), s\<lparr>item_chan := c, chan_quota := q\<rparr>) \<and>
    reserve (chan_quota s) = Ok q \<and> connected c \<and> contents c = contents (item_chan s) @ [x]"
proof -
  obtain q where "reserve (chan_quota s) = Ok q" using assms(2) reserve_room by blast
  moreover obtain c where "fl_send fl x (item_chan s) = Some c"
    using send_connected [OF assms(1)] by auto
  ultimately show ?thesis
    using send_Some by (auto simp: try_send_counted_def reservation_commit_def)
qed

end

locale mailbox_channel = flume_channel fl contents connected tx_alive
  for fl :: "('m incoming, 'c) flume"
    and contents :: "'c \<Rightarrow> 'm incoming list"
    and connected :: "'c \<Rightarrow> bool"
    and tx_alive :: "'c \<Rightarrow> bool"

sublocale mailbox_channel \<subseteq> mbx: mailbox_contract
  "try_send_message fl" "try_send_forced_message fl" "sink_send_terminated fl" "mailbox_recv fl"
  "\<lambda>mb. contents (item_chan mb)" "\<lambda>mb. connected (item_chan mb)" "\<lambda>mb. has_room (chan_quota mb)"
proof (unfold_locales, goal_cases)
  case (1 b m)
  then show ?case using counted_send_ok [of b "Message m"] by (auto simp: try_send_message_def)
next
  case (2 b m)
  then show ?case by (simp add: try_send_message_def counted_send_full)
next
  case (3 b m)
  then show ?case by (simp add: try_send_message_def counted_send_terminated)
next
  case (4 b m)
  then show ?case
    using send_Some send_connected
    by (fastforce simp: mailbox_op_defs Let_def split: option.splits)
next
  case (5 b m)
  then show ?case
    using send_None_iff [of "Message m" "item_chan b"] by (simp add: mailbox_op_defs Let_def)
next
  case (6 b i)
  then show ?case
    using send_Some send_connected by (fastforce simp: mailbox_op_defs split: option.splits)
next
  case (7 b i)
  then show ?case
    using send_None_iff [of "Terminated i" "item_chan b"] by (simp add: mailbox_op_defs)
next
  case (8 b x xs)
  then show ?case using recv_Cons by (fastforce simp: mailbox_recv_def)
next
  case (9 b x b')
  then show ?case
    using recv_Received by (fastforce simp: mailbox_recv_def split: recv_poll.splits)
qed

interpretation list_box: mailbox_channel list_flume items rx_alive some_tx
  by unfold_locales

section \<open>First in, first out\<close>

text \<open>
  The operations on one mailbox in the order they take effect. \<open>run_ops\<close> gives what they
  enqueued, what was received, and the mailbox they leave.
\<close>

datatype 'm mailbox_op = SendOp 'm | ForcedOp 'm | SignalOp actor_id | RecvOp

fun run_op ::
  "('m incoming, 'c) flume \<Rightarrow> 'm mailbox_op \<Rightarrow> 'c mailbox
     \<Rightarrow> 'm incoming list \<times> 'm incoming list \<times> 'c mailbox" where
  "run_op fl (SendOp m) mb =
     (case try_send_message fl m mb of (Ok _, mb') \<Rightarrow> ([Message m], [], mb') | (Err _, mb') \<Rightarrow> ([], [], mb'))"
| "run_op fl (ForcedOp m) mb =
     (case try_send_forced_message fl m mb of
        (Ok _, mb') \<Rightarrow> ([Message m], [], mb') | (Err _, mb') \<Rightarrow> ([], [], mb'))"
| "run_op fl (SignalOp i) mb =
     (case sink_send_terminated fl i mb of
        (Ok _, mb') \<Rightarrow> ([Terminated i], [], mb') | (Err _, mb') \<Rightarrow> ([], [], mb'))"
| "run_op fl RecvOp mb =
     (case mailbox_recv fl mb of Received x mb' \<Rightarrow> ([], [x], mb') | _ \<Rightarrow> ([], [], mb))"

fun run_ops ::
  "('m incoming, 'c) flume \<Rightarrow> 'm mailbox_op list \<Rightarrow> 'c mailbox
     \<Rightarrow> 'm incoming list \<times> 'm incoming list \<times> 'c mailbox" where
  "run_ops fl [] mb = ([], [], mb)"
| "run_ops fl (p # ps) mb =
     (case run_op fl p mb of (acc, rcv, mb') \<Rightarrow>
      (case run_ops fl ps mb' of (acc', rcv', mb'') \<Rightarrow> (acc @ acc', rcv @ rcv', mb'')))"

context mailbox_channel
begin

lemma run_op_queue:
  "run_op fl p mb = (acc, rcv, mb') \<Longrightarrow>
     contents (item_chan mb) @ acc = rcv @ contents (item_chan mb')"
  by (cases p)
     (auto split: prod.splits sum.splits recv_poll.splits
       dest: mbx.send_queue mbx.send_refused_same mbx.forced_queue mbx.forced_refused_same
         mbx.signal_queue mbx.signal_refused_same mbx.recv_queue)

lemma run_ops_fifo:
  "run_ops fl ps mb = (acc, rcv, mb') \<Longrightarrow>
     contents (item_chan mb) @ acc = rcv @ contents (item_chan mb')"
proof (induction ps arbitrary: mb acc rcv mb')
  case Nil
  then show ?case by simp
next
  case (Cons p ps)
  obtain acc1 rcv1 mb1 where p: "run_op fl p mb = (acc1, rcv1, mb1)"
    by (cases "run_op fl p mb") auto
  obtain acc2 rcv2 mb2 where ps: "run_ops fl ps mb1 = (acc2, rcv2, mb2)"
    by (cases "run_ops fl ps mb1") auto
  from Cons.prems have "acc = acc1 @ acc2" "rcv = rcv1 @ rcv2" "mb' = mb2"
    by (simp_all add: p ps)
  moreover have "contents (item_chan mb) @ acc1 = rcv1 @ contents (item_chan mb1)"
    using p by (rule run_op_queue)
  moreover have "contents (item_chan mb1) @ acc2 = rcv2 @ contents (item_chan mb2)"
    using ps by (rule Cons.IH)
  ultimately show ?case by (metis append.assoc)
qed

lemmas send_outcomes = mbx.send_outcomes

end

text \<open>
  C33: a mailbox is one FIFO for messages and terminated signals: after any operations on a new
  mailbox, what was received is exactly what was enqueued, in the same order and without loss or
  duplication, and the rest is still queued; a signal keeps its place behind the messages accepted
  before it.
\<close>

theorem mailbox_fifo:
  assumes "mailbox_channel fl contents connected tx_alive"
    and "run_ops fl ps (make_mailbox fl cap) = (accepted, received, mb)"
  shows "accepted = received @ contents (item_chan mb)"
proof -
  have "contents (item_chan (make_mailbox fl cap)) = []"
    using mailbox_channel.axioms [OF assms(1)]
    by (simp add: make_mailbox_def flume_channel.unbounded_new)
  with mailbox_channel.run_ops_fifo [OF assms] show ?thesis by simp
qed

theorem mailbox_fifo_witness:
  "run_ops list_flume [SendOp 7, SendOp 8, SignalOp (ActorId 1), ForcedOp 9, RecvOp, RecvOp]
     (make_mailbox list_flume (Bounded 1)) =
   ([Message (7::nat), Terminated (ActorId 1), Message 9], [Message 7, Terminated (ActorId 1)],
    \<lparr>item_chan = \<lparr>items = [Message 9], rx_alive = True, some_tx = True\<rparr>,
     chan_quota = QBounded 1 1, registry = Some []\<rparr>) \<and>
   [Message (7::nat), Terminated (ActorId 1), Message 9] =
     [Message 7, Terminated (ActorId 1)] @ items \<lparr>items = [Message 9], rx_alive = True, some_tx = True\<rparr>"
proof -
  have run: "run_ops list_flume [SendOp 7, SendOp 8, SignalOp (ActorId 1), ForcedOp 9, RecvOp, RecvOp]
     (make_mailbox list_flume (Bounded 1)) =
   ([Message (7::nat), Terminated (ActorId 1), Message 9], [Message 7, Terminated (ActorId 1)],
    \<lparr>item_chan = \<lparr>items = [Message 9], rx_alive = True, some_tx = True\<rparr>,
     chan_quota = QBounded 1 1, registry = Some []\<rparr>)"
    by (simp add: mailbox_op_defs mailbox_recv_def make_mailbox_def list_flume_def quota_bounded_def
        registry_default_def)
  with mailbox_fifo [OF list_box.mailbox_channel_axioms run] show ?thesis by simp
qed

text \<open>
  C35: what a send reports and does depends on the receiver first: to a terminated actor every
  send fails as terminated, even when the quota is full; to a live one only an ordinary message
  can be refused, exactly when the count has reached the capacity; a forced message and a
  terminated signal are always enqueued; and a refused send leaves the mailbox as it was.
\<close>

theorem mailbox_send_outcomes:
  assumes "mailbox_channel fl contents connected tx_alive"
  shows "fst (try_send_message fl m mb) =
      (if \<not> connected (item_chan mb) then Err (TerminatedError ActorTerminated)
       else if has_room (chan_quota mb) then Ok () else Err (MailboxFull Full)) \<and>
    fst (try_send_forced_message fl m mb) =
      (if connected (item_chan mb) then Ok () else Err (TerminatedError ActorTerminated)) \<and>
    fst (sink_send_terminated fl i mb) =
      (if connected (item_chan mb) then Ok () else Err ActorTerminated) \<and>
    (isl (fst (try_send_message fl m mb)) \<longrightarrow> snd (try_send_message fl m mb) = mb) \<and>
    (isl (fst (try_send_forced_message fl m mb)) \<longrightarrow> snd (try_send_forced_message fl m mb) = mb) \<and>
    (isl (fst (sink_send_terminated fl i mb)) \<longrightarrow> snd (sink_send_terminated fl i mb) = mb)"
  by (rule mailbox_channel.send_outcomes [OF assms])

theorem mailbox_send_outcomes_witness:
  "fst (try_send_message list_flume (5::nat)
      \<lparr>item_chan = \<lparr>items = [Message 4], rx_alive = False, some_tx = True\<rparr>,
       chan_quota = QBounded 1 1, registry = None\<rparr>) = Err (TerminatedError ActorTerminated)"
  using mailbox_send_outcomes [OF list_box.mailbox_channel_axioms, of "5::nat"
      "\<lparr>item_chan = \<lparr>items = [Message 4], rx_alive = False, some_tx = True\<rparr>,
        chan_quota = QBounded 1 1, registry = None\<rparr>" "ActorId 0"]
  by simp

end
