(* ===== verification/Contention.thy ===== *)
theory Contention
  imports Mailbox "HOL-Library.Multiset"
begin

text \<open>
  Any number of threads use one bounded mailbox at the same time. A send of \<^verbatim>\<open>quota.rs\<close> is not
  atomic: it reserves, then sends into the channel, then commits or, when the channel is
  disconnected, drops its reservation; \<^verbatim>\<open>recv\<close> takes an item and then releases it. Here each
  of these accesses is a step of its own, and the steps of all threads interleave freely.
\<close>

text \<open>
  \<open>held\<close> are the messages whose send has reserved and not yet sent, \<open>failed\<close> counts the
  sends that found the channel disconnected and have yet to drop their reservation,
  \<open>releasing\<close> the receives that have yet to release, \<open>discarded\<close> the messages termination
  drained without releasing them, and \<open>forced\<close> the forced reservations taken so far.
\<close>

record ('m, 'c) contention =
  box :: "'c counted"
  held :: "'m multiset"
  failed :: nat
  releasing :: nat
  discarded :: nat
  forced :: nat

definition contention_start :: "('m incoming, 'c) flume \<Rightarrow> usize \<Rightarrow> ('m, 'c) contention" where
  "contention_start fl cap =
     \<lparr>box = \<lparr>item_chan = fl_unbounded fl, chan_quota = quota_bounded cap\<rparr>,
      held = {#}, failed = 0, releasing = 0, discarded = 0, forced = 0\<rparr>"

inductive contention_step ::
  "('m incoming, 'c) flume \<Rightarrow> ('m, 'c) contention \<Rightarrow> ('m, 'c) contention \<Rightarrow> bool"
  for fl where
  do_reserve: "reserve (chan_quota (box s)) = Ok q \<Longrightarrow>
    contention_step fl s (s\<lparr>box := (box s)\<lparr>chan_quota := q\<rparr>, held := add_mset m (held s)\<rparr>)"
| do_reserve_forced:
    "contention_step fl s (s\<lparr>box := (box s)\<lparr>chan_quota := reserve_forced (chan_quota (box s))\<rparr>,
       held := add_mset m (held s), forced := Suc (forced s)\<rparr>)"
| do_send: "m \<in># held s \<Longrightarrow> fl_send fl (Message m) (item_chan (box s)) = Some c \<Longrightarrow>
    contention_step fl s (s\<lparr>box := \<lparr>item_chan = c, chan_quota = reservation_commit (chan_quota (box s))\<rparr>,
       held := held s - {#m#}\<rparr>)"
| do_send_fails: "m \<in># held s \<Longrightarrow> fl_send fl (Message m) (item_chan (box s)) = None \<Longrightarrow>
    contention_step fl s (s\<lparr>held := held s - {#m#}, failed := Suc (failed s)\<rparr>)"
| do_drop: "failed s = Suc n \<Longrightarrow>
    contention_step fl s (s\<lparr>box := (box s)\<lparr>chan_quota := reservation_drop (chan_quota (box s))\<rparr>,
       failed := n\<rparr>)"
| do_signal: "try_send_uncounted fl (Terminated i) (box s) = (Ok (), b) \<Longrightarrow>
    contention_step fl s (s\<lparr>box := b\<rparr>)"
| do_recv: "fl_recv fl (item_chan (box s)) = Received x c \<Longrightarrow>
    contention_step fl s (s\<lparr>box := (box s)\<lparr>item_chan := c\<rparr>,
       releasing := (if is_message x then Suc (releasing s) else releasing s)\<rparr>)"
| do_release: "releasing s = Suc n \<Longrightarrow>
    contention_step fl s (s\<lparr>box := (box s)\<lparr>chan_quota := unreserve (chan_quota (box s))\<rparr>,
       releasing := n\<rparr>)"
| do_drain: "fl_drain fl (item_chan (box s)) = (xs, c) \<Longrightarrow>
    contention_step fl s (s\<lparr>box := (box s)\<lparr>item_chan := c\<rparr>,
       discarded := discarded s + length (filter is_message xs)\<rparr>)"
| do_disconnect:
    "contention_step fl s (s\<lparr>box := (box s)\<lparr>item_chan := fl_drop_rx fl (item_chan (box s))\<rparr>\<rparr>)"

inductive contention_reach ::
  "('m incoming, 'c) flume \<Rightarrow> usize \<Rightarrow> ('m, 'c) contention \<Rightarrow> bool" for fl cap where
  reach_start: "contention_reach fl cap (contention_start fl cap)"
| reach_step: "contention_reach fl cap s \<Longrightarrow> contention_step fl s t \<Longrightarrow> contention_reach fl cap t"

inductive_simps contention_step_iff: "contention_step fl s t"

text \<open>Every reservation taken and not released: what the count has to be.\<close>

definition in_flight :: "('c \<Rightarrow> 'm incoming list) \<Rightarrow> ('m, 'c) contention \<Rightarrow> nat" where
  "in_flight contents s =
     length (filter is_message (contents (item_chan (box s)))) + size (held s) + failed s +
     releasing s + discarded s"

definition contention_inv :: "('c \<Rightarrow> 'm incoming list) \<Rightarrow> usize \<Rightarrow> ('m, 'c) contention \<Rightarrow> bool" where
  "contention_inv contents cap s \<longleftrightarrow>
     chan_quota (box s) = QBounded cap (of_nat (in_flight contents s)) \<and>
     (unat cap + forced s < 2 ^ 64 \<longrightarrow> in_flight contents s \<le> unat cap + forced s)"

lemma in_flight_reserve:
  "in_flight contents (s\<lparr>box := (box s)\<lparr>chan_quota := q\<rparr>, held := add_mset m (held s)\<rparr>) =
     Suc (in_flight contents s)"
  by (simp add: in_flight_def)

lemma size_held_remove: "m \<in># held s \<Longrightarrow> Suc (size (held s - {#m#})) = size (held s)"
  by (metis add_mset_remove_trivial_eq size_add_mset)

lemma in_flight_send_fails:
  assumes "m \<in># held s"
  shows "in_flight contents (s\<lparr>held := held s - {#m#}, failed := Suc (failed s)\<rparr>) = in_flight contents s"
  unfolding in_flight_def size_held_remove [OF assms, symmetric] by simp

text \<open>A reservation is granted only below the capacity, also when the count could wrap.\<close>

lemma reserve_below_capacity:
  assumes "unat cap + f < 2 ^ 64" and "n \<le> unat cap + f"
    and "(of_nat n :: usize) < cap"
  shows "Suc n \<le> unat cap"
proof -
  from assms have "n < 2 ^ LENGTH(64)" by simp
  then have "unat (of_nat n :: usize) = n" by (rule unat_of_nat_small)
  with assms(3) show ?thesis by (simp add: word_less_nat_alt)
qed

context mailbox_channel
begin

lemma in_flight_send:
  assumes "m \<in># held s" and "fl_send fl (Message m) (item_chan (box s)) = Some c"
  shows "in_flight contents (s\<lparr>box := \<lparr>item_chan = c, chan_quota = q\<rparr>, held := held s - {#m#}\<rparr>) =
    in_flight contents s"
  using assms send_Some size_held_remove [of m s] by (simp add: in_flight_def)

lemma in_flight_recv:
  assumes "fl_recv fl (item_chan (box s)) = Received x c"
  shows "in_flight contents (s\<lparr>box := (box s)\<lparr>item_chan := c\<rparr>,
      releasing := (if is_message x then Suc (releasing s) else releasing s)\<rparr>) = in_flight contents s"
  using recv_Received [OF assms] by (simp add: in_flight_def)

lemma contention_step_inv:
  assumes "contention_step fl s t" and "contention_inv contents cap s"
  shows "contention_inv contents cap t"
  using assms
proof (induction rule: contention_step.induct)
  case (do_reserve s q m)
  then show ?case
    using reserve_below_capacity [of cap "forced s" "in_flight contents s"]
    by (auto simp: contention_inv_def in_flight_reserve add.commute split: if_splits)
next
  case (do_reserve_forced s m)
  then show ?case by (auto simp: contention_inv_def in_flight_def add_ac)
next
  case (do_send m s c)
  then show ?case by (simp add: contention_inv_def reservation_commit_def in_flight_send)
next
  case (do_send_fails m s)
  then show ?case by (simp add: contention_inv_def in_flight_send_fails)
next
  case (do_drop s n)
  then show ?case by (auto simp: contention_inv_def in_flight_def reservation_drop_def)
next
  case (do_signal i s b)
  then show ?case
    by (auto simp: contention_inv_def in_flight_def try_send_uncounted_Ok_iff dest: send_Some)
next
  case (do_recv s x c)
  then show ?case
    using in_flight_recv [OF do_recv.hyps] by (simp add: contention_inv_def)
next
  case (do_release s n)
  then show ?case by (auto simp: contention_inv_def in_flight_def)
next
  case (do_drain s xs c)
  then show ?case using drain [of "item_chan (box s)"]
    by (auto simp: contention_inv_def in_flight_def add_ac)
next
  case (do_disconnect s)
  then show ?case using drop_rx by (simp add: contention_inv_def in_flight_def)
qed

lemma contention_reach_inv: "contention_reach fl cap s \<Longrightarrow> contention_inv contents cap s"
proof (induction rule: contention_reach.induct)
  case reach_start
  then show ?case
    using unbounded_new
    by (simp add: contention_inv_def contention_start_def in_flight_def quota_bounded_def)
next
  case (reach_step s t)
  then show ?case by (blast intro: contention_step_inv)
qed

lemma contention_count:
  assumes "contention_reach fl cap s" and "unat cap + forced s < 2 ^ 64"
  shows "\<exists>n. chan_quota (box s) = QBounded cap n \<and> unat n = in_flight contents s \<and>
    in_flight contents s \<le> unat cap + forced s"
proof -
  have inv: "contention_inv contents cap s"
    using assms(1) by (rule contention_reach_inv)
  with assms(2) have le: "in_flight contents s \<le> unat cap + forced s"
    by (simp add: contention_inv_def)
  with assms(2) have "unat (of_nat (in_flight contents s) :: usize) = in_flight contents s"
    by (intro unat_of_nat_small) simp
  with inv le show ?thesis by (simp add: contention_inv_def)
qed

end

section \<open>Properties\<close>

text \<open>
  C34: under any interleaving of senders, forced senders, signals, the receiver and termination,
  the shared count equals the reservations in flight: the messages in the channel, the sends that
  have reserved but not sent, those about to give up, the receives about to release, and what
  termination discarded; and there are never more than the capacity plus the forced ones.
\<close>

theorem quota_counts_in_flight:
  assumes "mailbox_channel fl contents connected tx_alive" and "contention_reach fl cap s"
    and "unat cap + forced s < 2 ^ 64"
  shows "unat (quota_count (chan_quota (box s))) = in_flight contents s \<and>
    in_flight contents s \<le> unat cap + forced s"
  using mailbox_channel.contention_count [OF assms] by auto

text \<open>
  the \<^verbatim>\<open>debug_assert!\<close> of \<^verbatim>\<open>unreserve\<close> holds under every interleaving: whenever a receive
  or a failed send is about to release a reservation, the count is not zero, so it never wraps
  below zero.
\<close>

lemma quota_never_underflows:
  assumes "mailbox_channel fl contents connected tx_alive" and "contention_reach fl cap s"
    and "unat cap + forced s < 2 ^ 64" and "0 < releasing s + failed s"
  shows "unreserve_ok (chan_quota (box s))"
proof -
  obtain n where n: "chan_quota (box s) = QBounded cap n" "unat n = in_flight contents s"
    using mailbox_channel.contention_count [OF assms(1-3)] by blast
  have "0 < in_flight contents s" using assms(4) by (auto simp: in_flight_def)
  with n show ?thesis by (simp add: word_less_nat_alt)
qed

section \<open>A reachable state with all of it\<close>

text \<open>
  Capacity one: a sender reserves and sends, a forced message is sent past the full quota, and
  the receiver has taken the first message and is about to release it.
\<close>

definition contended :: "(nat, nat incoming list_channel) contention" where
  "contended =
     \<lparr>box = \<lparr>item_chan = \<lparr>items = [Message 8], rx_alive = True, some_tx = True\<rparr>,
             chan_quota = QBounded 1 2\<rparr>,
      held = {#}, failed = 0, releasing = 1, discarded = 0, forced = 1\<rparr>"

lemma contended_reach: "contention_reach list_flume 1 contended"
proof -
  note step = contention_reach.reach_step
  let ?c = "\<lambda>xs. \<lparr>items = xs, rx_alive = True, some_tx = True\<rparr>"
  let ?s = "\<lambda>xs n h r f. \<lparr>box = \<lparr>item_chan = ?c xs, chan_quota = QBounded 1 n\<rparr>,
      held = h, failed = 0, releasing = r, discarded = 0, forced = f\<rparr> :: (nat, nat incoming list_channel) contention"
  have "contention_reach list_flume 1 (?s [] 0 {#} 0 0)"
    using contention_reach.reach_start [of "list_flume :: (nat incoming, _) flume" 1]
    by (simp add: contention_start_def list_flume_def quota_bounded_def)
  then have "contention_reach list_flume 1 (?s [] 1 {#7#} 0 0)"
    by (rule step) (use contention_step.do_reserve [of "?s [] 0 {#} 0 0" "QBounded 1 1" list_flume 7] in simp)
  then have "contention_reach list_flume 1 (?s [Message 7] 1 {#} 0 0)"
    by (rule step) (use contention_step.do_send [of 7 "?s [] 1 {#7#} 0 0" list_flume "?c [Message 7]"]
        in \<open>simp add: list_flume_def reservation_commit_def\<close>)
  then have "contention_reach list_flume 1 (?s [Message 7] 2 {#8#} 0 1)"
    by (rule step) (use contention_step.do_reserve_forced [of list_flume "?s [Message 7] 1 {#} 0 0" 8] in simp)
  then have "contention_reach list_flume 1 (?s [Message 7, Message 8] 2 {#} 0 1)"
    by (rule step) (use contention_step.do_send [of 8 "?s [Message 7] 2 {#8#} 0 1" list_flume
          "?c [Message 7, Message 8]"] in \<open>simp add: list_flume_def reservation_commit_def\<close>)
  then have "contention_reach list_flume 1 (?s [Message 8] 2 {#} 1 1)"
    by (rule step) (use contention_step.do_recv [of list_flume "?s [Message 7, Message 8] 2 {#} 0 1"
          "Message 7" "?c [Message 8]"] in \<open>simp add: list_flume_def\<close>)
  then show ?thesis by (simp add: contended_def)
qed

theorem quota_counts_in_flight_witness:
  "unat (quota_count (chan_quota (box contended))) = in_flight items contended \<and>
   in_flight items contended \<le> unat (1::usize) + forced contended"
  by (rule quota_counts_in_flight [OF list_box.mailbox_channel_axioms contended_reach])
     (simp add: contended_def)

end
