(* ===== verification/Supervision.thy ===== *)
theory Supervision
  imports ActorConfig
begin

text \<open>
  The supervision decisions of \<^verbatim>\<open>tellus/src/actor_context.rs\<close>: what a failure leads to
  (\<^verbatim>\<open>next_restart\<close>), how a backoff ends (\<^verbatim>\<open>await_backoff\<close>), and how panics of user code
  become failures (\<^verbatim>\<open>catch_panic_and_log\<close>, \<^verbatim>\<open>catch_and_log\<close>). The results of the
  Tokio calls (\<^verbatim>\<open>has_changed\<close>, the stop future, \<^verbatim>\<open>sleep\<close>) are arguments.
\<close>

datatype restart = After duration | LimitExceeded | NotConfigured

datatype interrupted = NotInterrupted | StoppedByParent

definition catch_panic_and_log :: "('a, 'e) call \<Rightarrow> ('a, 'e) result option" where
  "catch_panic_and_log c =
     (case c of Return a \<Rightarrow> Some (Ok a) | Fail e \<Rightarrow> Some (Err e) | Panic \<Rightarrow> None)"

definition catch_and_log :: "('a, 'e) call \<Rightarrow> 'a option" where
  "catch_and_log c =
     (case catch_panic_and_log c of
        None \<Rightarrow> None
      | Some (Ok a) \<Rightarrow> Some a
      | Some (Err _) \<Rightarrow> None)"

definition next_restart ::
  "supervision_strategy \<Rightarrow> instant option \<Rightarrow> instant \<Rightarrow> u32 \<Rightarrow> restart \<times> u32" where
  "next_restart strategy up_since now restarts =
     (case strategy of
        StopStrategy \<Rightarrow> (NotConfigured, restarts)
      | Restart policy \<Rightarrow>
          (let restarts = (case up_since of
                             Some up \<Rightarrow> if reset_after policy \<le> elapsed now up then 0 else restarts
                           | None \<Rightarrow> restarts)
           in if max_restarts policy \<le> restarts then (LimitExceeded, restarts)
              else (After (backoff_duration (policy_backoff policy) restarts), restarts + 1)))"

text \<open>\<^verbatim>\<open>parent_stopping_rx.has_changed().unwrap_or(true)\<close> of a \<^verbatim>\<open>has_changed\<close> result.\<close>

definition parent_stopping :: "(bool, unit) result \<Rightarrow> bool" where
  "parent_stopping has_changed = (case has_changed of Ok b \<Rightarrow> b | Err _ \<Rightarrow> True)"

text \<open>
  One poll of \<^verbatim>\<open>await_backoff\<close>; \<^const>\<open>None\<close> is pending. A zero delay probes the parent
  instead of racing it.
\<close>

definition await_backoff ::
  "duration \<Rightarrow> (bool, unit) result \<Rightarrow> unit option \<Rightarrow> unit option \<Rightarrow> interrupted option" where
  "await_backoff delay has_changed stopped_by_parent slept =
     (let stopped = (if delay = 0 then Some (parent_stopping has_changed)
                     else map_option (\<lambda>branch. case branch of Inl _ \<Rightarrow> True | Inr _ \<Rightarrow> False)
                            (select_biased stopped_by_parent slept))
      in map_option (\<lambda>s. if s then StoppedByParent else NotInterrupted) stopped)"

text \<open>
  The failures of one actor, fed to \<^const>\<open>next_restart\<close> one after the other as the run loop
  does: each is the uptime of the failed incarnation (\<^const>\<open>None\<close> if it never started) and
  the time of the failure. The list of decisions ends with the first one that stops the actor.
\<close>

fun decisions :: "supervision_strategy \<Rightarrow> (instant option \<times> instant) list \<Rightarrow> u32 \<Rightarrow> restart list" where
  "decisions strategy [] restarts = []"
| "decisions strategy ((up_since, now) # failures) restarts =
     (case next_restart strategy up_since now restarts of
        (After d, restarts') \<Rightarrow> After d # decisions strategy failures restarts'
      | (r, _) \<Rightarrow> [r])"

text \<open>A failure within the streak: the incarnation did not run for \<^verbatim>\<open>reset_after\<close>.\<close>

definition in_streak :: "restart_policy \<Rightarrow> instant option \<times> instant \<Rightarrow> bool" where
  "in_streak policy f =
     (case f of (up_since, now) \<Rightarrow>
        (case up_since of None \<Rightarrow> True | Some up \<Rightarrow> elapsed now up < reset_after policy))"

section \<open>Lemmas\<close>

lemma catch_and_log_simps [simp]:
  "catch_and_log (Return a) = Some a"
  "catch_and_log (Fail e) = None"
  "catch_and_log Panic = None"
  by (simp_all add: catch_and_log_def catch_panic_and_log_def)

lemma catch_and_log_Some: "catch_and_log c = Some a \<longleftrightarrow> c = Return a"
  by (cases c) simp_all

lemma next_restart_in_streak:
  assumes "in_streak policy (up_since, now)"
  shows "next_restart (Restart policy) up_since now restarts =
     (if max_restarts policy \<le> restarts then (LimitExceeded, restarts)
      else (After (backoff_duration (policy_backoff policy) restarts), restarts + 1))"
  using assms by (cases up_since) (auto simp: next_restart_def in_streak_def)

lemma next_restart_reset:
  assumes "reset_after policy \<le> elapsed now up" and "0 < max_restarts policy"
  shows "next_restart (Restart policy) (Some up) now restarts =
     (After (backoff_duration (policy_backoff policy) 0), 1)"
  using assms by (simp add: next_restart_def word_less_nat_alt word_le_nat_alt)

lemma word_less_suc_unat:
  assumes "(a :: 'n::len word) < b"
  shows "unat (a + 1) = unat a + 1"
proof -
  have "unat a < unat b" and "unat b < 2 ^ LENGTH('n)"
    using assms by (simp_all only: word_less_nat_alt unat_less_exp)
  then have "unat a + 1 < 2 ^ LENGTH('n)" by linarith
  then have "unat a + unat (1 :: 'n word) < 2 ^ LENGTH('n)" by simp
  then show ?thesis by (simp add: unat_add_small)
qed

lemma next_restart_bounded:
  assumes "next_restart (Restart policy) up_since now restarts = (After d, restarts')"
  shows "restarts' \<le> max_restarts policy \<and> 0 < restarts' \<and>
    d = backoff_duration (policy_backoff policy) (restarts' - 1)"
proof -
  obtain r where r: "r < max_restarts policy" "restarts' = r + 1"
    "d = backoff_duration (policy_backoff policy) r"
    using assms by (auto simp: next_restart_def Let_def not_le split: option.splits if_splits)
  then show ?thesis
    using word_less_suc_unat [OF r(1)] by (auto simp: word_less_nat_alt word_le_nat_alt)
qed

lemma decisions_streak:
  assumes "list_all (in_streak policy) failures" and "unat restarts \<le> unat (max_restarts policy)"
  shows "decisions (Restart policy) failures restarts =
    (let left = unat (max_restarts policy) - unat restarts in
     map (\<lambda>i. After (backoff_duration (policy_backoff policy) (of_nat (unat restarts + i))))
       [0..<min (length failures) left] @
     (if left < length failures then [LimitExceeded] else []))"
  using assms
proof (induction failures arbitrary: restarts)
  case Nil
  then show ?case by simp
next
  case (Cons f failures)
  obtain up_since now where f: "f = (up_since, now)" by (cases f)
  with Cons.prems have streak: "in_streak policy (up_since, now)" by simp
  show ?case
  proof (cases "max_restarts policy \<le> restarts")
    case True
    with Cons.prems(2) show ?thesis
      by (simp add: f next_restart_in_streak [OF streak] word_le_nat_alt)
  next
    case False
    then have less: "restarts < max_restarts policy" by simp
    note suc = word_less_suc_unat [OF less]
    from less have left: "unat (max_restarts policy) - unat restarts =
        Suc (unat (max_restarts policy) - unat (restarts + 1))"
      by (simp add: suc word_less_nat_alt)
    have ih: "decisions (Restart policy) failures (restarts + 1) =
      (let left = unat (max_restarts policy) - unat (restarts + 1) in
       map (\<lambda>i. After (backoff_duration (policy_backoff policy) (of_nat (unat (restarts + 1) + i))))
         [0..<min (length failures) left] @
       (if left < length failures then [LimitExceeded] else []))"
      using Cons.prems less by (intro Cons.IH) (auto simp: suc word_less_nat_alt)
    show ?thesis
      unfolding left
      using False ih
      by (simp add: f next_restart_in_streak [OF streak] Let_def suc
          upt_conv_Cons map_Suc_upt [symmetric] add_ac del: upt_Suc)
  qed
qed

section \<open>Properties\<close>

text \<open>
  C37: a streak of failures is restarted with the backoff delays of steps 0, 1, 2, ... in this
  order, at most \<^verbatim>\<open>max_restarts\<close> times; the next failure stops the actor, and nothing is decided
  after that.
\<close>

theorem streak_schedule:
  assumes "list_all (in_streak policy) failures"
  shows "decisions (Restart policy) failures 0 =
    map (\<lambda>i. After (backoff_duration (policy_backoff policy) (of_nat i)))
      [0..<min (length failures) (unat (max_restarts policy))] @
    (if unat (max_restarts policy) < length failures then [LimitExceeded] else [])"
  using decisions_streak [OF assms, of 0] by simp

theorem streak_schedule_witness:
  "decisions (Restart \<lparr>max_restarts = 2, policy_backoff = \<lparr>bo_min = 5, bo_max = 8\<rparr>, reset_after = 100\<rparr>)
     [(None, 3), (Some 4, 50), (Some 60, 61), (None, 70)] 0 = [After 5, After 8, LimitExceeded]"
  using streak_schedule [of "\<lparr>max_restarts = 2, policy_backoff = \<lparr>bo_min = 5, bo_max = 8\<rparr>, reset_after = 100\<rparr>"
      "[(None, 3), (Some 4, 50), (Some 60, 61), (None, 70)]"]
  by (simp add: in_streak_def elapsed_def backoff_duration_factor backoff_valid_def duration_max_def
      step_factor_def upt_rec)

text \<open>
  Running for \<^verbatim>\<open>reset_after\<close> ends a streak: whatever the count was, the failure is
  restarted, with the first delay, and the count is one again.
\<close>

lemma reset_ends_streak:
  assumes "policy_valid policy" and "reset_after policy \<le> elapsed now up"
  shows "next_restart (Restart policy) (Some up) now restarts = (After (bo_min (policy_backoff policy)), 1)"
proof -
  have "backoff_duration (policy_backoff policy) 0 = bo_min (policy_backoff policy)"
    using assms(1) by (simp add: backoff_duration_factor step_factor_def policy_valid_def
        backoff_valid_def)
  with assms show ?thesis by (simp add: next_restart_reset policy_valid_def)
qed

text \<open>
  A backoff is interrupted exactly by the parent stopping: a zero delay probes the parent,
  where a dropped sender counts as stopping; otherwise a ready stop wins over an elapsed sleep,
  and the wait is pending as long as neither is ready.
\<close>

lemma await_backoff_cases:
  "await_backoff 0 probe stop slept =
     Some (if probe \<noteq> Ok False then StoppedByParent else NotInterrupted) \<and>
   await_backoff (Suc n) probe (Some ()) slept = Some StoppedByParent \<and>
   await_backoff (Suc n) probe None (Some ()) = Some NotInterrupted \<and>
   await_backoff (Suc n) probe None None = None"
  by (auto simp: await_backoff_def parent_stopping_def split: sum.splits)

end
