(* ===== verification/StopSignal.thy ===== *)
theory StopSignal
  imports Prelude
begin

text \<open>
  The Tokio watch channel through which a parent stops its children. Tokio is a dependency, so
  its operations are a parameter of the model: the record \<open>watch_ops\<close> carries what
  \<^verbatim>\<open>actor_context.rs\<close> and \<^verbatim>\<open>actor_system.rs\<close> call, and the locale \<open>watch_channel\<close> states
  the documented behaviour they rely on. A channel state \<open>'w\<close> is the state both halves share;
  every receiver here is cloned from one that never marks the value as seen, so all receivers of a
  channel agree on whether it has changed.
\<close>

record 'w watch_ops =
  wt_channel :: 'w
  wt_clone_rx :: "'w \<Rightarrow> 'w"
  wt_drop_rx :: "'w \<Rightarrow> 'w"
  wt_send :: "'w \<Rightarrow> 'w"
  wt_send_replace :: "'w \<Rightarrow> 'w"
  wt_drop_tx :: "'w \<Rightarrow> 'w"
  wt_has_changed :: "'w \<Rightarrow> (bool, unit) result"
  wt_changed :: "'w \<Rightarrow> unit option"
  wt_closed :: "'w \<Rightarrow> unit option"

text \<open>
  \<open>wt_changed\<close> and \<open>wt_closed\<close> are one poll of the future: ready once the value was sent
  or the sender dropped, and once no receiver is left. \<open>wt_send\<close> fails, leaving the value, when
  there is no receiver; \<open>wt_send_replace\<close> always sends.
\<close>

locale watch_channel =
  fixes wt :: "'w watch_ops"
    and receivers :: "'w \<Rightarrow> nat"
    and signalled :: "'w \<Rightarrow> bool"
    and sender_gone :: "'w \<Rightarrow> bool"
  assumes channel_new: "receivers (wt_channel wt) = 1 \<and> \<not> signalled (wt_channel wt) \<and>
        \<not> sender_gone (wt_channel wt)"
    and clone_rx: "receivers (wt_clone_rx wt c) = receivers c + 1 \<and>
        signalled (wt_clone_rx wt c) = signalled c \<and> sender_gone (wt_clone_rx wt c) = sender_gone c"
    and drop_rx: "0 < receivers c \<Longrightarrow> receivers (wt_drop_rx wt c) = receivers c - 1 \<and>
        signalled (wt_drop_rx wt c) = signalled c \<and> sender_gone (wt_drop_rx wt c) = sender_gone c"
    and send: "receivers (wt_send wt c) = receivers c \<and>
        signalled (wt_send wt c) = (signalled c \<or> 0 < receivers c) \<and>
        sender_gone (wt_send wt c) = sender_gone c"
    and send_replace: "receivers (wt_send_replace wt c) = receivers c \<and>
        signalled (wt_send_replace wt c) \<and> sender_gone (wt_send_replace wt c) = sender_gone c"
    and drop_tx: "receivers (wt_drop_tx wt c) = receivers c \<and>
        signalled (wt_drop_tx wt c) = signalled c \<and> sender_gone (wt_drop_tx wt c)"
    and has_changed: "wt_has_changed wt c = Ok False \<longleftrightarrow> \<not> signalled c \<and> \<not> sender_gone c"
    and changed: "wt_changed wt c = Some () \<longleftrightarrow> signalled c \<or> sender_gone c"
    and closed: "wt_closed wt c = Some () \<longleftrightarrow> receivers c = 0"
begin

lemma changed_None: "wt_changed wt c = None \<longleftrightarrow> \<not> signalled c \<and> \<not> sender_gone c"
  using changed [of c] by (cases "wt_changed wt c") auto

lemma closed_None: "wt_closed wt c = None \<longleftrightarrow> receivers c \<noteq> 0"
  using closed [of c] by (cases "wt_closed wt c") auto

end

section \<open>A counter that behaves like the channel\<close>

record watch_state =
  ws_receivers :: nat
  ws_sent :: bool
  ws_sender_gone :: bool

definition counting_watch :: "watch_state watch_ops" where
  "counting_watch = \<lparr>
     wt_channel = \<lparr>ws_receivers = 1, ws_sent = False, ws_sender_gone = False\<rparr>,
     wt_clone_rx = (\<lambda>c. c\<lparr>ws_receivers := ws_receivers c + 1\<rparr>),
     wt_drop_rx = (\<lambda>c. c\<lparr>ws_receivers := ws_receivers c - 1\<rparr>),
     wt_send = (\<lambda>c. if ws_receivers c = 0 then c else c\<lparr>ws_sent := True\<rparr>),
     wt_send_replace = (\<lambda>c. c\<lparr>ws_sent := True\<rparr>),
     wt_drop_tx = (\<lambda>c. c\<lparr>ws_sender_gone := True\<rparr>),
     wt_has_changed = (\<lambda>c. if ws_sender_gone c then Err () else Ok (ws_sent c)),
     wt_changed = (\<lambda>c. if ws_sent c \<or> ws_sender_gone c then Some () else None),
     wt_closed = (\<lambda>c. if ws_receivers c = 0 then Some () else None)\<rparr>"

interpretation count_watch: watch_channel counting_watch ws_receivers ws_sent ws_sender_gone
  by unfold_locales (auto simp: counting_watch_def)

end
