(* ===== verification/World.thy ===== *)
theory World
  imports Mailbox Supervision StopSignal
begin

text \<open>
  The state all actors of a system share, and what user code can do to it: the operations of
  \<^verbatim>\<open>actor_ref.rs\<close> and \<^verbatim>\<open>ask.rs\<close> and the contextual methods of \<^verbatim>\<open>actor_context.rs\<close>.
  An \<^verbatim>\<open>ActorRef\<close> is the ID of its actor, as its equality is, and the mailboxes are a store
  indexed by it. Every operation is one atomic access to the mailbox or registry of one actor.
\<close>

section \<open>State\<close>

text \<open>
  A stop channel is named by the actor that owns it (or the actor system) and its generation:
  \<^verbatim>\<open>stop_children\<close> replaces it by the next one.
\<close>

datatype owner = SystemOwner | ActorOwner actor_id

type_synonym gen = "owner \<times> nat"

text \<open>
  User code is synchronous and reaches the rest of the system only through the API, so it is a
  tree of API calls ending in a result; \<open>'k\<close> are the \<^verbatim>\<open>Actor\<close> values that can be spawned.
\<close>

datatype ('k, 'm, 'r) prog =
    Ret 'r
  | Tell actor_id 'm "('k, 'm, 'r) prog"
  | Watch actor_id "('k, 'm, 'r) prog"
  | Unwatch actor_id "('k, 'm, 'r) prog"
  | Spawn 'k actor_config "actor_id \<Rightarrow> ('k, 'm, 'r) prog"

text \<open>
  Where the task of an actor stands: the points of the \<^verbatim>\<open>spawn\<close> run loop, of
  \<^verbatim>\<open>await_restart\<close> and of \<^verbatim>\<open>terminate\<close> between which other tasks can run.
\<close>

datatype ('k, 'm, 's, 'e) phase =
    Starting
  | Initializing "('k, 'm, ('s, 'e) call) prog"
  | Receiving 's instant
  | Handling instant "('k, 'm, ('s control, 'e) call) prog"
  | Failed "instant option"
  | RestartStopping duration nat
  | BackingOff duration
  | Draining
  | Disconnecting "'m incoming list"
  | DroppingQueued "'m incoming list"
  | TakingWatched
  | Unregistering "actor_id list"
  | StoppingChildren
  | AwaitingChildren nat
  | DroppingContext
  | DroppingActor
  | TakingWatchers
  | Signaling "watcher list"
  | Finished

record ('k, 'm, 's, 'e) task =
  task_actor :: 'k
  task_config :: actor_config
  parent_stop :: gen
  task_restarts :: u32
  phase :: "('k, 'm, 's, 'e) phase"

text \<open>
  What happened, newest first: the observable side of the operations. \<open>Enqueued\<close> names the
  actor whose code sent (none for code outside of actors) and the mailbox; a signal is sent by
  the framework.
\<close>

datatype 'm event =
    Enqueued "actor_id option" actor_id "'m incoming"
  | DeadLetter actor_id
  | Watched actor_id actor_id
  | Unwatched actor_id actor_id
  | InitCalled actor_id
  | Delivered actor_id "'m incoming"
  | SignalDropped actor_id actor_id
  | Discarded actor_id "'m incoming list"
  | ActorDropped actor_id

text \<open>
  \<open>watched\<close> and \<open>generation\<close> are the actor's \<^verbatim>\<open>ActorContext\<close>; the last fields belong to
  the actor system: the ID under which it watches the root, the oneshot of \<^verbatim>\<open>RootTerminatedSink\<close> (whether
  its sender exists, whether it was sent), and who holds the shared \<^verbatim>\<open>stopping_tx\<close>.
\<close>

record ('c, 'w, 'k, 'm, 's, 'e) world =
  mailboxes :: "actor_id \<Rightarrow> 'c mailbox"
  stops :: "gen \<Rightarrow> 'w"
  tasks :: "actor_id \<Rightarrow> ('k, 'm, 's, 'e) task option"
  watched :: "actor_id \<Rightarrow> actor_id list"
  generation :: "actor_id \<Rightarrow> nat"
  trace :: "'m event list"
  root_watcher :: "actor_id option"
  terminated_tx :: bool
  terminated_sent :: bool
  system_holds :: bool
  sink_holds :: bool

section \<open>References: tell and ask\<close>

definition put_mailbox :: "actor_id \<Rightarrow> 'c mailbox \<Rightarrow> ('c, 'w, 'k, 'm, 's, 'e) world
    \<Rightarrow> ('c, 'w, 'k, 'm, 's, 'e) world" where
  "put_mailbox i mb w = w\<lparr>mailboxes := (mailboxes w)(i := mb)\<rparr>"

definition log_event :: "'m event \<Rightarrow> ('c, 'w, 'k, 'm, 's, 'e) world \<Rightarrow> ('c, 'w, 'k, 'm, 's, 'e) world" where
  "log_event e w = w\<lparr>trace := e # trace w\<rparr>"

definition try_tell ::
  "('m incoming, 'c) flume \<Rightarrow> actor_id option \<Rightarrow> actor_id \<Rightarrow> 'm \<Rightarrow> ('c, 'w, 'k, 'm, 's, 'e) world
     \<Rightarrow> (unit, send_error) result \<times> ('c, 'w, 'k, 'm, 's, 'e) world" where
  "try_tell fl from_id target m w =
     (case try_send_message fl m (mailboxes w target) of
        (Ok u, mb) \<Rightarrow> (Ok u, log_event (Enqueued from_id target (Message m)) (put_mailbox target mb w))
      | (Err e, mb) \<Rightarrow> (Err e, put_mailbox target mb w))"

definition try_tell_forced ::
  "('m incoming, 'c) flume \<Rightarrow> actor_id option \<Rightarrow> actor_id \<Rightarrow> 'm \<Rightarrow> ('c, 'w, 'k, 'm, 's, 'e) world
     \<Rightarrow> (unit, send_error) result \<times> ('c, 'w, 'k, 'm, 's, 'e) world" where
  "try_tell_forced fl from_id target m w =
     (case try_send_forced_message fl m (mailboxes w target) of
        (Ok u, mb) \<Rightarrow> (Ok u, log_event (Enqueued from_id target (Message m)) (put_mailbox target mb w))
      | (Err e, mb) \<Rightarrow> (Err e, put_mailbox target mb w))"

definition dead_letter :: "actor_id \<Rightarrow> ('c, 'w, 'k, 'm, 's, 'e) world \<Rightarrow> ('c, 'w, 'k, 'm, 's, 'e) world" where
  "dead_letter target w = log_event (DeadLetter target) w"

definition tell ::
  "('m incoming, 'c) flume \<Rightarrow> actor_id option \<Rightarrow> actor_id \<Rightarrow> 'm \<Rightarrow> ('c, 'w, 'k, 'm, 's, 'e) world
     \<Rightarrow> ('c, 'w, 'k, 'm, 's, 'e) world" where
  "tell fl from_id target m w =
     (case try_tell fl from_id target m w of
        (Ok _, w') \<Rightarrow> w'
      | (Err _, w') \<Rightarrow> dead_letter target w')"

datatype ask_error = AskMailboxFull | AskActorTerminated | NoReply | AskTimeout duration

fun ask_error_from :: "send_error \<Rightarrow> ask_error" where
  "ask_error_from (MailboxFull _) = AskMailboxFull"
| "ask_error_from (TerminatedError _) = AskActorTerminated"

text \<open>
  \<open>outcome\<close> is the result of \<^verbatim>\<open>timeout(within, reply_rx)\<close>: \<^const>\<open>None\<close> once the time has
  elapsed, else what the oneshot received. \<open>make_message\<close> builds the request around a
  \<^verbatim>\<open>ReplyTo\<close>, of which the model keeps the token \<open>reply_to\<close>.
\<close>

definition await_reply :: "duration \<Rightarrow> ('r, unit) result option \<Rightarrow> ('r, ask_error) result" where
  "await_reply within outcome =
     (case outcome of
        Some (Ok r) \<Rightarrow> Ok r
      | Some (Err _) \<Rightarrow> Err NoReply
      | None \<Rightarrow> Err (AskTimeout within))"

definition ask ::
  "('m incoming, 'c) flume \<Rightarrow> actor_id \<Rightarrow> duration \<Rightarrow> ('t \<Rightarrow> 'm) \<Rightarrow> 't \<Rightarrow> ('r, unit) result option
     \<Rightarrow> ('c, 'w, 'k, 'm, 's, 'e) world \<Rightarrow> ('r, ask_error) result \<times> ('c, 'w, 'k, 'm, 's, 'e) world" where
  "ask fl target within make_message reply_to outcome w =
     (case try_tell fl None target (make_message reply_to) w of
        (Err e, w') \<Rightarrow> (Err (ask_error_from e), w')
      | (Ok _, w') \<Rightarrow> (await_reply within outcome, w'))"

text \<open>
  The closures of the two kinds of \<^verbatim>\<open>ReplyTo\<close>. That of \<^verbatim>\<open>ask\<close> sends into the oneshot, which
  fails once the asker is gone; that of \<^verbatim>\<open>ActorContext::reply_to\<close> tells the actor itself.
\<close>

definition ask_reply ::
  "actor_id \<Rightarrow> bool \<Rightarrow> 'r \<Rightarrow> ('c, 'w, 'k, 'm, 's, 'e) world \<Rightarrow> 'r option \<times> ('c, 'w, 'k, 'm, 's, 'e) world" where
  "ask_reply target awaiting reply w =
     (if awaiting then (Some reply, w) else (None, dead_letter target w))"

definition reply_to ::
  "('m incoming, 'c) flume \<Rightarrow> actor_id option \<Rightarrow> actor_id \<Rightarrow> ('r \<Rightarrow> 'm) \<Rightarrow> 'r
     \<Rightarrow> ('c, 'w, 'k, 'm, 's, 'e) world \<Rightarrow> ('c, 'w, 'k, 'm, 's, 'e) world" where
  "reply_to fl from_id me into_message reply w = tell fl from_id me (into_message reply) w"

section \<open>The context: watch, unwatch, spawn\<close>

definition make_watcher :: "actor_id \<Rightarrow> watcher" where
  "make_watcher me = watcher_new me (MailboxSink me)"

text \<open>
  Signals into an actor's mailbox. \<open>send_terminated_to\<close> returns whether it was sent;
  \<^verbatim>\<open>SelfRef::send_terminated\<close> expects it was, as the actor's mailbox outlives its context.
\<close>

definition send_terminated_to ::
  "('m incoming, 'c) flume \<Rightarrow> actor_id \<Rightarrow> actor_id \<Rightarrow> ('c, 'w, 'k, 'm, 's, 'e) world
     \<Rightarrow> (unit, actor_terminated) result \<times> ('c, 'w, 'k, 'm, 's, 'e) world" where
  "send_terminated_to fl i target w =
     (case sink_send_terminated fl i (mailboxes w target) of
        (Ok u, mb) \<Rightarrow> (Ok u, log_event (Enqueued None target (Terminated i)) (put_mailbox target mb w))
      | (Err e, mb) \<Rightarrow> (Err e, put_mailbox target mb w))"

definition registry_of :: "('c, 'w, 'k, 'm, 's, 'e) world \<Rightarrow> actor_id \<Rightarrow> watcher_registry" where
  "registry_of w i = registry (mailboxes w i)"

definition put_registry :: "actor_id \<Rightarrow> watcher_registry \<Rightarrow> ('c, 'w, 'k, 'm, 's, 'e) world
    \<Rightarrow> ('c, 'w, 'k, 'm, 's, 'e) world" where
  "put_registry i r w = put_mailbox i ((mailboxes w i)\<lparr>registry := r\<rparr>) w"

definition put_watched :: "actor_id \<Rightarrow> actor_id list \<Rightarrow> ('c, 'w, 'k, 'm, 's, 'e) world
    \<Rightarrow> ('c, 'w, 'k, 'm, 's, 'e) world" where
  "put_watched me ids w = w\<lparr>watched := (watched w)(me := ids)\<rparr>"

text \<open>\<^const>\<open>None\<close> is the panic of the \<^verbatim>\<open>expect\<close> in \<^verbatim>\<open>SelfRef::send_terminated\<close>.\<close>

definition watch ::
  "('m incoming, 'c) flume \<Rightarrow> actor_id \<Rightarrow> actor_id \<Rightarrow> ('c, 'w, 'k, 'm, 's, 'e) world
     \<Rightarrow> ('c, 'w, 'k, 'm, 's, 'e) world option" where
  "watch fl me other w =
     (case registry_add (make_watcher me) (registry_of w other) of (registration, r) \<Rightarrow>
        (let w1 = log_event (Watched me other)
                    (put_watched me (List.insert other (watched w me)) (put_registry other r w))
         in case registration of
              Ok _ \<Rightarrow> Some w1
            | Err _ \<Rightarrow> (case send_terminated_to fl other me w1 of
                          (Ok _, w2) \<Rightarrow> Some w2
                        | (Err _, _) \<Rightarrow> None)))"

definition unwatch ::
  "actor_id \<Rightarrow> actor_id \<Rightarrow> ('c, 'w, 'k, 'm, 's, 'e) world \<Rightarrow> ('c, 'w, 'k, 'm, 's, 'e) world" where
  "unwatch me other w =
     log_event (Unwatched me other)
       (if other \<in> set (watched w me)
        then put_registry other (registry_remove me (registry_of w other))
               (put_watched me (removeAll other (watched w me)) w)
        else w)"

definition take_watched_for ::
  "actor_id \<Rightarrow> actor_id \<Rightarrow> ('c, 'w, 'k, 'm, 's, 'e) world \<Rightarrow> bool \<times> ('c, 'w, 'k, 'm, 's, 'e) world" where
  "take_watched_for me other w =
     (other \<in> set (watched w me), put_watched me (removeAll other (watched w me)) w)"

definition update_stop :: "gen \<Rightarrow> ('w \<Rightarrow> 'w) \<Rightarrow> ('c, 'w, 'k, 'm, 's, 'e) world
    \<Rightarrow> ('c, 'w, 'k, 'm, 's, 'e) world" where
  "update_stop g f w = w\<lparr>stops := (stops w)(g := f (stops w g))\<rparr>"

text \<open>
  \<^verbatim>\<open>spawn\<close> up to \<^verbatim>\<open>task::spawn\<close>: the mailbox exists, and the task, which starts later, owns
  the given receiver of its parent's stop channel.
\<close>

definition spawn ::
  "('m incoming, 'c) flume \<Rightarrow> gen \<Rightarrow> 'k \<Rightarrow> actor_config \<Rightarrow> actor_id
     \<Rightarrow> ('c, 'w, 'k, 'm, 's, 'e) world \<Rightarrow> ('c, 'w, 'k, 'm, 's, 'e) world" where
  "spawn fl parent_stopping_rx actor config i w =
     (put_mailbox i (make_mailbox fl (config_capacity config)) w)
       \<lparr>tasks := (tasks w)(i \<mapsto> \<lparr>task_actor = actor, task_config = config,
          parent_stop = parent_stopping_rx, task_restarts = 0, phase = Starting\<rparr>)\<rparr>"

definition spawn_with_config ::
  "('m incoming, 'c) flume \<Rightarrow> 'w watch_ops \<Rightarrow> actor_id \<Rightarrow> 'k \<Rightarrow> actor_config \<Rightarrow> actor_id
     \<Rightarrow> ('c, 'w, 'k, 'm, 's, 'e) world \<Rightarrow> ('c, 'w, 'k, 'm, 's, 'e) world" where
  "spawn_with_config fl wt me actor config i w =
     (let g = (ActorOwner me, generation w me)
      in spawn fl g actor config i (update_stop g (wt_clone_rx wt) w))"


section \<open>Field access after an operation\<close>

lemmas [world_simps] = put_mailbox_def log_event_def put_watched_def update_stop_def
  put_registry_def registry_of_def

lemma tell_mailboxes [world_simps]:
  "mailboxes (tell fl from_id target m w) =
     (mailboxes w)(target := snd (try_send_message fl m (mailboxes w target)))"
  by (auto simp: tell_def try_tell_def dead_letter_def world_simps split: prod.splits sum.splits)

lemma tell_trace [world_simps]:
  "trace (tell fl from_id target m w) =
     (case fst (try_send_message fl m (mailboxes w target)) of
        Ok _ \<Rightarrow> Enqueued from_id target (Message m) | Err _ \<Rightarrow> DeadLetter target) # trace w"
  by (auto simp: tell_def try_tell_def dead_letter_def world_simps split: prod.splits sum.splits)

lemma tell_frame [world_simps]:
  "stops (tell fl from_id target m w) = stops w"
  "tasks (tell fl from_id target m w) = tasks w"
  "watched (tell fl from_id target m w) = watched w"
  "generation (tell fl from_id target m w) = generation w"
  "root_watcher (tell fl from_id target m w) = root_watcher w"
  "terminated_tx (tell fl from_id target m w) = terminated_tx w"
  "terminated_sent (tell fl from_id target m w) = terminated_sent w"
  "system_holds (tell fl from_id target m w) = system_holds w"
  "sink_holds (tell fl from_id target m w) = sink_holds w"
  by (auto simp: tell_def try_tell_def dead_letter_def world_simps split: prod.splits sum.splits)

lemma send_terminated_to_mailboxes [world_simps]:
  "mailboxes (snd (send_terminated_to fl i target w)) =
     (mailboxes w)(target := snd (sink_send_terminated fl i (mailboxes w target)))"
  by (auto simp: send_terminated_to_def world_simps split: prod.splits sum.splits)

lemma send_terminated_to_trace [world_simps]:
  "trace (snd (send_terminated_to fl i target w)) =
     (case fst (sink_send_terminated fl i (mailboxes w target)) of
        Ok _ \<Rightarrow> [Enqueued None target (Terminated i)] | Err _ \<Rightarrow> []) @ trace w"
  by (auto simp: send_terminated_to_def world_simps split: prod.splits sum.splits)

lemma send_terminated_to_frame [world_simps]:
  "stops (snd (send_terminated_to fl i target w)) = stops w"
  "tasks (snd (send_terminated_to fl i target w)) = tasks w"
  "watched (snd (send_terminated_to fl i target w)) = watched w"
  "generation (snd (send_terminated_to fl i target w)) = generation w"
  "root_watcher (snd (send_terminated_to fl i target w)) = root_watcher w"
  "terminated_tx (snd (send_terminated_to fl i target w)) = terminated_tx w"
  "terminated_sent (snd (send_terminated_to fl i target w)) = terminated_sent w"
  "system_holds (snd (send_terminated_to fl i target w)) = system_holds w"
  "sink_holds (snd (send_terminated_to fl i target w)) = sink_holds w"
  by (auto simp: send_terminated_to_def world_simps split: prod.splits sum.splits)

text \<open>Sends do not touch the registry of the mailbox.\<close>

lemma registry_send [world_simps]:
  "registry (snd (try_send_message fl m mb)) = registry mb"
  "registry (snd (try_send_forced_message fl m mb)) = registry mb"
  "registry (snd (sink_send_terminated fl i mb)) = registry mb"
  by (auto simp: mailbox_op_defs Let_def split: sum.splits option.splits)

text \<open>The two ways a watch takes effect.\<close>

lemma watch_cases:
  assumes "watch fl me other w = Some w'"
  obtains (registered) r where "registry_add (make_watcher me) (registry_of w other) = (Ok (), r)"
      and "w' = log_event (Watched me other)
        (put_watched me (List.insert other (watched w me)) (put_registry other r w))"
  | (terminated) w1 where "registry_of w other = None"
      and "w1 = log_event (Watched me other) (put_watched me (List.insert other (watched w me)) w)"
      and "fst (send_terminated_to fl other me w1) = Ok ()"
      and "w' = snd (send_terminated_to fl other me w1)"
proof (cases "registry_of w other")
  case None
  then have "put_registry other None w = w"
    by (simp add: world_simps fun_upd_idem)
  with None assms that(2) show ?thesis
    by (fastforce simp: watch_def registry_add_closed split: prod.splits sum.splits)
next
  case (Some ws)
  with assms that(1) show ?thesis
    by (auto simp: watch_def registry_add_def split: prod.splits sum.splits)
qed

end
