(* ===== verification/Task.thy ===== *)
theory Task
  imports World
begin

text \<open>
  The task of an actor: the run loop of \<^verbatim>\<open>spawn\<close>, the macro \<^verbatim>\<open>next_incoming!\<close>,
  \<^verbatim>\<open>await_restart\<close>, \<^verbatim>\<open>stop_children\<close> and \<^verbatim>\<open>terminate\<close> of \<^verbatim>\<open>actor_context.rs\<close>.
  \<open>task_step\<close> runs one actor up to the next point where another task may run, and is
  \<^const>\<open>None\<close> while the task is pending. What user code does is \<open>init_code\<close> and
  \<open>receive_code\<close>, the methods of the \<^verbatim>\<open>Actor\<close> trait; the clock, a finished sleep and the ID
  drawn for a new actor are observed from outside.
\<close>

record ('c, 'w, 'k, 'm, 's, 'e) env =
  env_flume :: "('m incoming, 'c) flume"
  env_watch :: "'w watch_ops"
  init_code :: "'k \<Rightarrow> actor_id \<Rightarrow> ('k, 'm, ('s, 'e) call) prog"
  receive_code :: "'k \<Rightarrow> actor_id \<Rightarrow> 'm incoming \<Rightarrow> 's \<Rightarrow> ('k, 'm, ('s control, 'e) call) prog"

record obs =
  obs_now :: instant
  obs_slept :: "unit option"
  obs_fresh :: actor_id

definition put_task ::
  "actor_id \<Rightarrow> ('k, 'm, 's, 'e) task \<Rightarrow> ('c, 'w, 'k, 'm, 's, 'e) world \<Rightarrow> ('c, 'w, 'k, 'm, 's, 'e) world" where
  "put_task me t w = w\<lparr>tasks := (tasks w)(me \<mapsto> t)\<rparr>"

definition goto ::
  "actor_id \<Rightarrow> ('k, 'm, 's, 'e) task \<Rightarrow> ('k, 'm, 's, 'e) phase
     \<Rightarrow> ('c, 'w, 'k, 'm, 's, 'e) world \<Rightarrow> ('c, 'w, 'k, 'm, 's, 'e) world" where
  "goto me t ph w = put_task me (t\<lparr>phase := ph\<rparr>) w"

section \<open>API calls of user code\<close>

text \<open>
  One API call. References cannot be made up, so a call names a spawned actor.
\<close>

fun api_step ::
  "('c, 'w, 'k, 'm, 's, 'e) env \<Rightarrow> actor_id \<Rightarrow> actor_id \<Rightarrow> ('k, 'm, 'r) prog
     \<Rightarrow> ('c, 'w, 'k, 'm, 's, 'e) world \<Rightarrow> (('k, 'm, 'r) prog \<times> ('c, 'w, 'k, 'm, 's, 'e) world) option" where
  "api_step env fresh me (Ret r) w = None"
| "api_step env fresh me (Tell target m p) w =
     (if tasks w target = None then None else Some (p, tell (env_flume env) (Some me) target m w))"
| "api_step env fresh me (Watch other p) w =
     (if tasks w other = None then None
      else map_option (Pair p) (watch (env_flume env) me other w))"
| "api_step env fresh me (Unwatch other p) w =
     (if tasks w other = None then None else Some (p, unwatch me other w))"
| "api_step env fresh me (Spawn actor config p) w =
     Some (p fresh, spawn_with_config (env_flume env) (env_watch env) me actor config fresh w)"

section \<open>The run loop\<close>

text \<open>The head of the task: a context with a stop channel of its own, and a second receiver of the parent's.\<close>

definition start_task ::
  "('c, 'w, 'k, 'm, 's, 'e) env \<Rightarrow> actor_id \<Rightarrow> ('k, 'm, 's, 'e) task
     \<Rightarrow> ('c, 'w, 'k, 'm, 's, 'e) world \<Rightarrow> ('c, 'w, 'k, 'm, 's, 'e) world" where
  "start_task env me t w =
     (let w1 = w\<lparr>watched := (watched w)(me := []), generation := (generation w)(me := 0)\<rparr>;
          w2 = update_stop (ActorOwner me, 0) (\<lambda>_. wt_channel (env_watch env)) w1;
          w3 = update_stop (parent_stop t) (wt_clone_rx (env_watch env)) w2
      in goto me t (Initializing (init_code env (task_actor t) me)) (log_event (InitCalled me) w3))"

text \<open>The value of \<^verbatim>\<open>init\<close>: a state to receive with, or a failure before the actor was up.\<close>

definition init_done ::
  "instant \<Rightarrow> actor_id \<Rightarrow> ('k, 'm, 's, 'e) task \<Rightarrow> ('s, 'e) call
     \<Rightarrow> ('c, 'w, 'k, 'm, 's, 'e) world \<Rightarrow> ('c, 'w, 'k, 'm, 's, 'e) world" where
  "init_done now me t r w =
     (case catch_and_log r of
        Some s \<Rightarrow> goto me t (Receiving s now) w
      | None \<Rightarrow> goto me t (Failed None) w)"

datatype 'm polled = PolledStop | PolledDropped actor_id | PolledIncoming "'m incoming"

text \<open>
  One iteration of \<^verbatim>\<open>next_incoming!\<close>: a ready stop wins over the mailbox; a signal for an
  actor that is no longer watched is dropped. \<open>None\<close> is pending, and also the panic of the
  \<^verbatim>\<open>expect\<close>, which no mailbox with a live handle raises.
\<close>

definition next_incoming ::
  "('c, 'w, 'k, 'm, 's, 'e) env \<Rightarrow> actor_id \<Rightarrow> unit option \<Rightarrow> ('c, 'w, 'k, 'm, 's, 'e) world
     \<Rightarrow> ('m polled \<times> ('c, 'w, 'k, 'm, 's, 'e) world) option" where
  "next_incoming env me stopped_by_parent w =
     (case select_biased stopped_by_parent
             (case mailbox_recv (env_flume env) (mailboxes w me) of
                Received i mb \<Rightarrow> Some (i, mb) | Pending \<Rightarrow> None | Closed \<Rightarrow> None) of
        None \<Rightarrow> None
      | Some (Inl _) \<Rightarrow> Some (PolledStop, w)
      | Some (Inr (Message m, mb)) \<Rightarrow>
          Some (PolledIncoming (Message m), log_event (Delivered me (Message m)) (put_mailbox me mb w))
      | Some (Inr (Terminated other, mb)) \<Rightarrow>
          (case take_watched_for me other (put_mailbox me mb w) of (was_watched, w') \<Rightarrow>
             if was_watched
             then Some (PolledIncoming (Terminated other), log_event (Delivered me (Terminated other)) w')
             else Some (PolledDropped other, log_event (SignalDropped me other) w')))"

definition receive_step ::
  "('c, 'w, 'k, 'm, 's, 'e) env \<Rightarrow> actor_id \<Rightarrow> ('k, 'm, 's, 'e) task \<Rightarrow> 's \<Rightarrow> instant
     \<Rightarrow> ('c, 'w, 'k, 'm, 's, 'e) world \<Rightarrow> ('c, 'w, 'k, 'm, 's, 'e) world option" where
  "receive_step env me t s up_since w =
     (case next_incoming env me (wt_changed (env_watch env) (stops w (parent_stop t))) w of
        None \<Rightarrow> None
      | Some (PolledStop, w') \<Rightarrow> Some (goto me t Draining w')
      | Some (PolledDropped _, w') \<Rightarrow> Some (goto me t (Receiving s up_since) w')
      | Some (PolledIncoming i, w') \<Rightarrow>
          Some (goto me t (Handling up_since (receive_code env (task_actor t) me i s)) w'))"

text \<open>The value of \<^verbatim>\<open>receive_incoming\<close>: the next state, a stop, or a failure of an actor that was up.\<close>

definition receive_incoming ::
  "instant \<Rightarrow> actor_id \<Rightarrow> ('k, 'm, 's, 'e) task \<Rightarrow> ('s control, 'e) call
     \<Rightarrow> ('c, 'w, 'k, 'm, 's, 'e) world \<Rightarrow> ('c, 'w, 'k, 'm, 's, 'e) world" where
  "receive_incoming up_since me t r w =
     (case catch_and_log r of
        Some (Continue s) \<Rightarrow> goto me t (Receiving s up_since) w
      | Some Stop \<Rightarrow> goto me t Draining w
      | None \<Rightarrow> goto me t (Failed (Some up_since)) w)"

section \<open>Stopping children and restarting\<close>

text \<open>
  \<^verbatim>\<open>stop_children\<close> up to its await: the next generation's channel is installed, the current
  one is signalled, and the context's own receiver of it is dropped. Then \<^verbatim>\<open>closed\<close> is awaited
  and the old sender dropped.
\<close>

definition stop_children ::
  "'w watch_ops \<Rightarrow> actor_id \<Rightarrow> ('c, 'w, 'k, 'm, 's, 'e) world \<Rightarrow> ('c, 'w, 'k, 'm, 's, 'e) world" where
  "stop_children wt me w =
     (let n = generation w me;
          w1 = update_stop (ActorOwner me, Suc n) (\<lambda>_. wt_channel wt) w;
          w2 = update_stop (ActorOwner me, n) (wt_send wt) (w1\<lparr>generation := (generation w1)(me := Suc n)\<rparr>)
      in update_stop (ActorOwner me, n) (wt_drop_rx wt) w2)"

definition stop_children_closed ::
  "'w watch_ops \<Rightarrow> actor_id \<Rightarrow> nat \<Rightarrow> ('c, 'w, 'k, 'm, 's, 'e) world
     \<Rightarrow> ('c, 'w, 'k, 'm, 's, 'e) world option" where
  "stop_children_closed wt me n w =
     (case wt_closed wt (stops w (ActorOwner me, n)) of
        Some _ \<Rightarrow> Some (update_stop (ActorOwner me, n) (wt_drop_tx wt) w)
      | None \<Rightarrow> None)"

text \<open>\<^verbatim>\<open>await_restart\<close> up to \<^verbatim>\<open>stop_children\<close>: the decision, and the probe of the parent.\<close>

definition await_restart ::
  "'w watch_ops \<Rightarrow> instant \<Rightarrow> actor_id \<Rightarrow> ('k, 'm, 's, 'e) task \<Rightarrow> instant option
     \<Rightarrow> ('c, 'w, 'k, 'm, 's, 'e) world \<Rightarrow> ('c, 'w, 'k, 'm, 's, 'e) world" where
  "await_restart wt now me t up_since w =
     (case next_restart (config_strategy (task_config t)) up_since now (task_restarts t) of
        (After delay, n) \<Rightarrow>
          (if parent_stopping (wt_has_changed wt (stops w (parent_stop t)))
           then goto me (t\<lparr>task_restarts := n\<rparr>) Draining w
           else goto me (t\<lparr>task_restarts := n\<rparr>) (RestartStopping delay (generation w me))
                  (stop_children wt me w))
      | (_, n) \<Rightarrow> goto me (t\<lparr>task_restarts := n\<rparr>) Draining w)"

definition backoff_step ::
  "('c, 'w, 'k, 'm, 's, 'e) env \<Rightarrow> unit option \<Rightarrow> actor_id \<Rightarrow> ('k, 'm, 's, 'e) task \<Rightarrow> duration
     \<Rightarrow> ('c, 'w, 'k, 'm, 's, 'e) world \<Rightarrow> ('c, 'w, 'k, 'm, 's, 'e) world option" where
  "backoff_step env slept me t delay w =
     (let c = stops w (parent_stop t); wt = env_watch env in
      case await_backoff delay (wt_has_changed wt c) (wt_changed wt c) slept of
        None \<Rightarrow> None
      | Some NotInterrupted \<Rightarrow>
          Some (goto me t (Initializing (init_code env (task_actor t) me)) (log_event (InitCalled me) w))
      | Some StoppedByParent \<Rightarrow> Some (goto me t Draining w))"

section \<open>Termination\<close>

text \<open>
  \<^verbatim>\<open>terminate\<close>, one definition per statement that another task can observe: the queue is moved
  out, the channel is dropped, and only then the queued messages; the watched actors' registries
  are cleaned; the children are stopped and awaited; the context and the actor are dropped; the
  watchers are taken, which closes registration, and signalled one by one.
\<close>

definition terminate_drain ::
  "('m incoming, 'c) flume \<Rightarrow> actor_id \<Rightarrow> ('k, 'm, 's, 'e) task
     \<Rightarrow> ('c, 'w, 'k, 'm, 's, 'e) world \<Rightarrow> ('c, 'w, 'k, 'm, 's, 'e) world" where
  "terminate_drain fl me t w =
     (case drain_mailbox fl (mailboxes w me) of (drained, mb) \<Rightarrow>
        goto me t (Disconnecting drained) (log_event (Discarded me drained) (put_mailbox me mb w)))"

definition terminate_disconnect ::
  "('m incoming, 'c) flume \<Rightarrow> actor_id \<Rightarrow> ('k, 'm, 's, 'e) task \<Rightarrow> 'm incoming list
     \<Rightarrow> ('c, 'w, 'k, 'm, 's, 'e) world \<Rightarrow> ('c, 'w, 'k, 'm, 's, 'e) world" where
  "terminate_disconnect fl me t drained w =
     goto me t (DroppingQueued drained) (put_mailbox me (disconnect_mailbox fl (mailboxes w me)) w)"

definition take_watched ::
  "actor_id \<Rightarrow> ('c, 'w, 'k, 'm, 's, 'e) world \<Rightarrow> actor_id list \<times> ('c, 'w, 'k, 'm, 's, 'e) world" where
  "take_watched me w = (watched w me, put_watched me [] w)"

definition terminate_unregister ::
  "actor_id \<Rightarrow> ('k, 'm, 's, 'e) task \<Rightarrow> actor_id \<Rightarrow> actor_id list
     \<Rightarrow> ('c, 'w, 'k, 'm, 's, 'e) world \<Rightarrow> ('c, 'w, 'k, 'm, 's, 'e) world" where
  "terminate_unregister me t other rest w =
     goto me t (Unregistering rest)
       (put_registry other (registry_remove me (registry_of w other)) w)"

definition drop_context ::
  "'w watch_ops \<Rightarrow> actor_id \<Rightarrow> ('c, 'w, 'k, 'm, 's, 'e) world \<Rightarrow> ('c, 'w, 'k, 'm, 's, 'e) world" where
  "drop_context wt me w =
     update_stop (ActorOwner me, generation w me) (\<lambda>c. wt_drop_rx wt (wt_drop_tx wt c)) w"

definition terminate_take_watchers ::
  "actor_id \<Rightarrow> ('k, 'm, 's, 'e) task \<Rightarrow> ('c, 'w, 'k, 'm, 's, 'e) world
     \<Rightarrow> ('c, 'w, 'k, 'm, 's, 'e) world" where
  "terminate_take_watchers me t w =
     (case take_watchers (mailboxes w me) of (ws, mb) \<Rightarrow> goto me t (Signaling ws) (put_mailbox me mb w))"

text \<open>
  \<^verbatim>\<open>RootTerminatedSink::send_terminated\<close>; the sink itself goes with the watcher, and with it
  an unsent oneshot and its share of the system's stop sender.
\<close>

definition root_send_terminated ::
  "('c, 'w, 'k, 'm, 's, 'e) world \<Rightarrow> (unit, actor_terminated) result \<times> ('c, 'w, 'k, 'm, 's, 'e) world" where
  "root_send_terminated w =
     (if terminated_tx w then (Ok (), w\<lparr>terminated_tx := False, terminated_sent := True\<rparr>)
      else (Err ActorTerminated, w))"

definition drop_sink ::
  "'w watch_ops \<Rightarrow> ('c, 'w, 'k, 'm, 's, 'e) world \<Rightarrow> ('c, 'w, 'k, 'm, 's, 'e) world" where
  "drop_sink wt w =
     (let w1 = w\<lparr>terminated_tx := False, sink_holds := False\<rparr>
      in if system_holds w then w1 else update_stop (SystemOwner, 0) (wt_drop_tx wt) w1)"

definition watcher_send_terminated ::
  "('c, 'w, 'k, 'm, 's, 'e) env \<Rightarrow> actor_id \<Rightarrow> watcher
     \<Rightarrow> ('c, 'w, 'k, 'm, 's, 'e) world \<Rightarrow> ('c, 'w, 'k, 'm, 's, 'e) world" where
  "watcher_send_terminated env me wtc w =
     (case watcher_sink wtc of
        MailboxSink target \<Rightarrow> snd (send_terminated_to (env_flume env) me target w)
      | RootSink \<Rightarrow> drop_sink (env_watch env) (snd (root_send_terminated w)))"

text \<open>At the end of the task its two receivers of the parent's stop channel are dropped.\<close>

definition finish_task ::
  "'w watch_ops \<Rightarrow> actor_id \<Rightarrow> ('k, 'm, 's, 'e) task
     \<Rightarrow> ('c, 'w, 'k, 'm, 's, 'e) world \<Rightarrow> ('c, 'w, 'k, 'm, 's, 'e) world" where
  "finish_task wt me t w =
     goto me t Finished (update_stop (parent_stop t) (\<lambda>c. wt_drop_rx wt (wt_drop_rx wt c)) w)"

section \<open>The step of a task\<close>

definition user_step ::
  "('c, 'w, 'k, 'm, 's, 'e) env \<Rightarrow> obs \<Rightarrow> actor_id \<Rightarrow> ('k, 'm, 's, 'e) task
     \<Rightarrow> (('k, 'm, 'r) prog \<Rightarrow> ('k, 'm, 's, 'e) phase) \<Rightarrow> ('k, 'm, 'r) prog
     \<Rightarrow> ('c, 'w, 'k, 'm, 's, 'e) world \<Rightarrow> ('c, 'w, 'k, 'm, 's, 'e) world option" where
  "user_step env ob me t ph p w =
     (case api_step env (obs_fresh ob) me p w of
        None \<Rightarrow> None
      | Some (p', w') \<Rightarrow> Some (goto me t (ph p') w'))"

definition phase_step ::
  "('c, 'w, 'k, 'm, 's, 'e) env \<Rightarrow> obs \<Rightarrow> actor_id \<Rightarrow> ('k, 'm, 's, 'e) task
     \<Rightarrow> ('c, 'w, 'k, 'm, 's, 'e) world \<Rightarrow> ('c, 'w, 'k, 'm, 's, 'e) world option" where
  "phase_step env ob me t w =
     (let wt = env_watch env; fl = env_flume env in
      case phase t of
        Starting \<Rightarrow> Some (start_task env me t w)
      | Initializing p \<Rightarrow>
          (case p of Ret r \<Rightarrow> Some (init_done (obs_now ob) me t r w)
                   | _ \<Rightarrow> user_step env ob me t Initializing p w)
      | Receiving s up_since \<Rightarrow> receive_step env me t s up_since w
      | Handling up_since p \<Rightarrow>
          (case p of Ret r \<Rightarrow> Some (receive_incoming up_since me t r w)
                   | _ \<Rightarrow> user_step env ob me t (Handling up_since) p w)
      | Failed up_since \<Rightarrow> Some (await_restart wt (obs_now ob) me t up_since w)
      | RestartStopping delay n \<Rightarrow>
          map_option (goto me t (BackingOff delay)) (stop_children_closed wt me n w)
      | BackingOff delay \<Rightarrow> backoff_step env (obs_slept ob) me t delay w
      | Draining \<Rightarrow> Some (terminate_drain fl me t w)
      | Disconnecting drained \<Rightarrow> Some (terminate_disconnect fl me t drained w)
      | DroppingQueued drained \<Rightarrow> Some (goto me t TakingWatched w)
      | TakingWatched \<Rightarrow> (case take_watched me w of (ids, w') \<Rightarrow> Some (goto me t (Unregistering ids) w'))
      | Unregistering ids \<Rightarrow>
          (case ids of [] \<Rightarrow> Some (goto me t StoppingChildren w)
                     | other # rest \<Rightarrow> Some (terminate_unregister me t other rest w))
      | StoppingChildren \<Rightarrow> Some (goto me t (AwaitingChildren (generation w me)) (stop_children wt me w))
      | AwaitingChildren n \<Rightarrow> map_option (goto me t DroppingContext) (stop_children_closed wt me n w)
      | DroppingContext \<Rightarrow> Some (goto me t DroppingActor (drop_context wt me w))
      | DroppingActor \<Rightarrow> Some (goto me t TakingWatchers (log_event (ActorDropped me) w))
      | TakingWatchers \<Rightarrow> Some (terminate_take_watchers me t w)
      | Signaling ws \<Rightarrow>
          (case ws of [] \<Rightarrow> Some (finish_task wt me t w)
                    | wtc # rest \<Rightarrow> Some (goto me t (Signaling rest) (watcher_send_terminated env me wtc w)))
      | Finished \<Rightarrow> None)"

definition task_step ::
  "('c, 'w, 'k, 'm, 's, 'e) env \<Rightarrow> obs \<Rightarrow> actor_id
     \<Rightarrow> ('c, 'w, 'k, 'm, 's, 'e) world \<Rightarrow> ('c, 'w, 'k, 'm, 's, 'e) world option" where
  "task_step env ob me w =
     (case tasks w me of None \<Rightarrow> None | Some t \<Rightarrow> phase_step env ob me t w)"

lemmas phase_step_eq = phase_step_def [unfolded Let_def]

end
