(* ===== verification/System.thy ===== *)
theory System
  imports Task
begin

text \<open>
  \<^verbatim>\<open>tellus/src/actor_system.rs\<close> and a whole running system: the root actor, its descendants
  and code outside of actors, as a step relation in which the tasks interleave freely. The
  invariants of the reachable states are the guarantees of the crate that no single task could
  give: signals are not lost, a parent outlives its children, and the system's \<^verbatim>\<open>terminated\<close>
  resolves once all are gone.
\<close>

section \<open>The actor system\<close>

text \<open>\<^verbatim>\<open>spawn_root\<close> up to \<^verbatim>\<open>watch_root\<close>: the root owns the only receiver of the system's stop channel.\<close>

definition spawn_root ::
  "('c, 'w, 'k, 'm, 's, 'e) env \<Rightarrow> 'k \<Rightarrow> actor_config \<Rightarrow> actor_id \<Rightarrow> ('c, 'w, 'k, 'm, 's, 'e) world" where
  "spawn_root env actor config root =
     spawn (env_flume env) (SystemOwner, 0) actor config root
       \<lparr>mailboxes = (\<lambda>_. make_mailbox (env_flume env) Unbounded), stops = (\<lambda>_. wt_channel (env_watch env)),
        tasks = (\<lambda>_. None), watched = (\<lambda>_. []), generation = (\<lambda>_. 0), trace = [],
        root_watcher = None, terminated_tx = False, terminated_sent = False,
        system_holds = True, sink_holds = False\<rparr>"

text \<open>
  \<^verbatim>\<open>watch_root\<close> under a fresh ID: the oneshot and the sink are made, and the sink is signalled
  at once (and gone with the function) if the root has already terminated.
\<close>

definition watch_root ::
  "'w watch_ops \<Rightarrow> actor_id \<Rightarrow> actor_id \<Rightarrow> ('c, 'w, 'k, 'm, 's, 'e) world
     \<Rightarrow> ('c, 'w, 'k, 'm, 's, 'e) world" where
  "watch_root wt root i w =
     (case registry_add (watcher_new i RootSink) (registry_of w root) of (registration, r) \<Rightarrow>
        (let w1 = (put_registry root r w)\<lparr>root_watcher := Some i, terminated_tx := True, sink_holds := True\<rparr>
         in case registration of
              Ok _ \<Rightarrow> w1
            | Err _ \<Rightarrow> drop_sink wt (snd (root_send_terminated w1))))"

definition system_stop :: "'w watch_ops \<Rightarrow> ('c, 'w, 'k, 'm, 's, 'e) world \<Rightarrow> ('c, 'w, 'k, 'm, 's, 'e) world" where
  "system_stop wt w = update_stop (SystemOwner, 0) (wt_send_replace wt) w"

definition drop_system :: "'w watch_ops \<Rightarrow> ('c, 'w, 'k, 'm, 's, 'e) world \<Rightarrow> ('c, 'w, 'k, 'm, 's, 'e) world" where
  "drop_system wt w =
     (let w1 = w\<lparr>system_holds := False\<rparr>
      in if sink_holds w then w1 else update_stop (SystemOwner, 0) (wt_drop_tx wt) w1)"

datatype system_error = WatchRoot

text \<open>One poll of \<^verbatim>\<open>terminated\<close>: the oneshot was sent, or its sender is gone, or it is pending.\<close>

definition system_terminated :: "('c, 'w, 'k, 'm, 's, 'e) world \<Rightarrow> (unit, system_error) result option" where
  "system_terminated w =
     (if terminated_sent w then Some (Ok ())
      else if terminated_tx w then None else Some (Err WatchRoot))"

section \<open>Steps of the system\<close>

text \<open>A fresh ID is that of no actor and of no watcher.\<close>

definition fresh_id :: "('c, 'w, 'k, 'm, 's, 'e) world \<Rightarrow> actor_id \<Rightarrow> bool" where
  "fresh_id w i \<longleftrightarrow> tasks w i = None \<and> root_watcher w \<noteq> Some i"

inductive sys_step ::
  "('c, 'w, 'k, 'm, 's, 'e) env \<Rightarrow> actor_id \<Rightarrow> ('c, 'w, 'k, 'm, 's, 'e) world
     \<Rightarrow> ('c, 'w, 'k, 'm, 's, 'e) world \<Rightarrow> bool"
  for env root where
  step_task: "fresh_id w (obs_fresh ob) \<Longrightarrow> task_step env ob me w = Some w' \<Longrightarrow> sys_step env root w w'"
| step_tell: "tasks w target \<noteq> None \<Longrightarrow>
    sys_step env root w (tell (env_flume env) None target m w)"
| step_watch_root: "root_watcher w = None \<Longrightarrow> fresh_id w i \<Longrightarrow>
    sys_step env root w (watch_root (env_watch env) root i w)"
| step_stop: "root_watcher w \<noteq> None \<Longrightarrow> system_holds w \<Longrightarrow>
    sys_step env root w (system_stop (env_watch env) w)"
| step_drop: "root_watcher w \<noteq> None \<Longrightarrow> system_holds w \<Longrightarrow>
    sys_step env root w (drop_system (env_watch env) w)"

inductive sys_reach ::
  "('c, 'w, 'k, 'm, 's, 'e) env \<Rightarrow> 'k \<Rightarrow> actor_config \<Rightarrow> actor_id
     \<Rightarrow> ('c, 'w, 'k, 'm, 's, 'e) world \<Rightarrow> bool"
  for env actor config root where
  sys_start: "sys_reach env actor config root (spawn_root env actor config root)"
| sys_next: "sys_reach env actor config root w \<Longrightarrow> sys_step env root w w' \<Longrightarrow>
    sys_reach env actor config root w'"

section \<open>The stages of a task\<close>

text \<open>How far a task is on its way out; it never goes back.\<close>

fun rank :: "('k, 'm, 's, 'e) phase \<Rightarrow> nat" where
  "rank Starting = 0"
| "rank Draining = 2"
| "rank (Disconnecting _) = 3"
| "rank (DroppingQueued _) = 4"
| "rank TakingWatched = 5"
| "rank (Unregistering _) = 6"
| "rank StoppingChildren = 7"
| "rank (AwaitingChildren _) = 8"
| "rank DroppingContext = 9"
| "rank DroppingActor = 10"
| "rank TakingWatchers = 11"
| "rank (Signaling _) = 12"
| "rank Finished = 13"
| "rank _ = 1"

end
