(* ===== verification/ActorTree.thy ===== *)
theory ActorTree
  imports System
begin

text \<open>
  The tree of actors and the stop channels that hold it together. The receivers of a stop
  channel are counted: those of the tasks spawned under it and the owner's own, so a channel
  closes exactly when all children of that generation have finished, and what an actor does after
  \<^verbatim>\<open>stop_children\<close> happens after the end of its descendants.
\<close>

section \<open>What a step does to the tree\<close>

fun weight :: "('k, 'm, 's, 'e) phase \<Rightarrow> nat" where
  "weight Starting = 1"
| "weight Finished = 0"
| "weight _ = 2"

fun awaits :: "('k, 'm, 's, 'e) phase \<Rightarrow> nat \<Rightarrow> bool" where
  "awaits (RestartStopping _ n) k = (k = n)"
| "awaits (AwaitingChildren n) k = (k = n)"
| "awaits _ k = False"

definition holds :: "gen \<Rightarrow> ('k, 'm, 's, 'e) task \<Rightarrow> nat" where
  "holds g t = (if parent_stop t = g then weight (phase t) else 0)"

text \<open>The receivers of the stop channel \<open>g\<close> owned by the tasks spawned under it.\<close>

definition held :: "gen \<Rightarrow> (actor_id \<Rightarrow> ('k, 'm, 's, 'e) task option) \<Rightarrow> nat" where
  "held g ts = (\<Sum>i\<in>dom ts. holds g (the (ts i)))"

text \<open>A phase change that neither stops children nor drops anything of the tree.\<close>

definition quiet_phases :: "('k, 'm, 's, 'e) phase \<Rightarrow> ('k, 'm, 's, 'e) phase \<Rightarrow> bool" where
  "quiet_phases p q \<longleftrightarrow> 1 \<le> rank p \<and> rank p \<le> rank q \<and> rank q \<le> 12 \<and>
     (rank q \<le> 7 \<or> 10 \<le> rank p) \<and> (\<forall>n. \<not> awaits p n) \<and> (\<forall>n. \<not> awaits q n)"

lemma weight_rank: "1 \<le> rank p \<Longrightarrow> rank p \<le> 12 \<Longrightarrow> weight p = 2"
  by (cases p) auto

lemma rank_13_iff [simp]: "rank p = 13 \<longleftrightarrow> p = Finished"
  by (cases p) auto

lemma rank_0_iff [simp]: "rank p = 0 \<longleftrightarrow> p = Starting"
  by (cases p) auto

lemma rank_le_13: "rank p \<le> 13"
  by (cases p) auto

lemma awaits_rank: "awaits p n \<Longrightarrow> rank p = 1 \<or> rank p = 8"
  by (cases p) auto

lemma held_update:
  assumes "finite (dom ts)" and "ts me = Some t"
  shows "held g (ts(me \<mapsto> t')) + holds g t = held g ts + holds g t'"
proof -
  have "dom (ts(me \<mapsto> t')) = dom ts" using assms(2) by auto
  moreover have "me \<in> dom ts" using assms(2) by auto
  moreover have "(\<Sum>i\<in>dom ts - {me}. holds g (the ((ts(me \<mapsto> t')) i))) =
      (\<Sum>i\<in>dom ts - {me}. holds g (the (ts i)))"
    by (rule sum.cong) auto
  ultimately show ?thesis
    using assms by (simp add: held_def sum.remove [of "dom ts" me])
qed

lemma held_same:
  assumes "finite (dom ts)" and "ts me = Some t" and "holds g t' = holds g t"
  shows "held g (ts(me \<mapsto> t')) = held g ts"
  using held_update [OF assms(1,2), of g t'] assms(3) by simp

lemma held_new:
  assumes "finite (dom ts)" and "ts i = None"
  shows "held g (ts(i \<mapsto> t)) = held g ts + holds g t"
proof -
  have "i \<notin> dom ts" using assms(2) by auto
  then have "(\<Sum>j\<in>dom ts. holds g (the ((ts(i \<mapsto> t)) j))) = held g ts"
    unfolding held_def by (intro sum.cong) auto
  with \<open>i \<notin> dom ts\<close> assms(1) show ?thesis
    by (simp add: held_def sum.insert)
qed

lemma held_0:
  "finite (dom ts) \<Longrightarrow> held g ts = 0 \<Longrightarrow> ts i = Some t \<Longrightarrow> parent_stop t = g \<Longrightarrow> phase t = Finished"
  by (cases "phase t") (force simp: held_def holds_def sum_eq_0_iff)+

inductive tree_step ::
  "'w watch_ops \<Rightarrow> ('w \<Rightarrow> nat) \<Rightarrow> ('c, 'w, 'k, 'm, 's, 'e) world \<Rightarrow> ('c, 'w, 'k, 'm, 's, 'e) world \<Rightarrow> bool"
  for wt receivers where
  tree_same: "tasks w' = tasks w \<Longrightarrow> generation w' = generation w \<Longrightarrow>
    (\<And>g. receivers (stops w' g) = receivers (stops w g)) \<Longrightarrow>
    (\<And>a n. stops w' (ActorOwner a, n) = stops w (ActorOwner a, n)) \<Longrightarrow> tree_step wt receivers w w'"
| tree_quiet: "tasks w me = Some t \<Longrightarrow> tasks w' = (tasks w)(me \<mapsto> t') \<Longrightarrow>
    parent_stop t' = parent_stop t \<Longrightarrow> quiet_phases (phase t) (phase t') \<Longrightarrow>
    generation w' = generation w \<Longrightarrow> (\<And>g. receivers (stops w' g) = receivers (stops w g)) \<Longrightarrow>
    (\<And>a n. stops w' (ActorOwner a, n) = stops w (ActorOwner a, n)) \<Longrightarrow>
    tree_step wt receivers w w'"
| tree_start: "tasks w me = Some t \<Longrightarrow> phase t = Starting \<Longrightarrow> rank (phase t') = 1 \<Longrightarrow>
    (\<And>n. \<not> awaits (phase t') n) \<Longrightarrow> parent_stop t' = parent_stop t \<Longrightarrow>
    tasks w' = (tasks w)(me \<mapsto> t') \<Longrightarrow> generation w' = (generation w)(me := 0) \<Longrightarrow>
    stops w' = (let f = (stops w)((ActorOwner me, 0) := wt_channel wt)
                in f(parent_stop t := wt_clone_rx wt (f (parent_stop t)))) \<Longrightarrow>
    tree_step wt receivers w w'"
| tree_spawn: "tasks w me = Some t \<Longrightarrow> tasks w i = None \<Longrightarrow> quiet_phases (phase t) (phase t') \<Longrightarrow>
    rank (phase t') = 1 \<Longrightarrow>
    parent_stop t' = parent_stop t \<Longrightarrow> phase c = Starting \<Longrightarrow>
    parent_stop c = (ActorOwner me, generation w me) \<Longrightarrow>
    tasks w' = (tasks w)(i \<mapsto> c, me \<mapsto> t') \<Longrightarrow> generation w' = generation w \<Longrightarrow>
    stops w' = (stops w)((ActorOwner me, generation w me) :=
                           wt_clone_rx wt (stops w (ActorOwner me, generation w me))) \<Longrightarrow>
    tree_step wt receivers w w'"
| tree_stop: "tasks w me = Some t \<Longrightarrow> 1 \<le> rank (phase t) \<Longrightarrow> rank (phase t) \<le> 7 \<Longrightarrow>
    rank (phase t) \<le> rank (phase t') \<Longrightarrow>
    (\<And>n. \<not> awaits (phase t) n) \<Longrightarrow> awaits (phase t') (generation w me) \<Longrightarrow>
    parent_stop t' = parent_stop t \<Longrightarrow> tasks w' = (tasks w)(me \<mapsto> t') \<Longrightarrow>
    generation w' = (generation w)(me := Suc (generation w me)) \<Longrightarrow>
    stops w' = (let f = (stops w)((ActorOwner me, Suc (generation w me)) := wt_channel wt);
                    c = stops w (ActorOwner me, generation w me)
                in f((ActorOwner me, generation w me) := wt_drop_rx wt (wt_send wt c))) \<Longrightarrow>
    tree_step wt receivers w w'"
| tree_closed: "tasks w me = Some t \<Longrightarrow> awaits (phase t) n \<Longrightarrow>
    wt_closed wt (stops w (ActorOwner me, n)) \<noteq> None \<Longrightarrow>
    (rank (phase t) = 1 \<and> rank (phase t') = 1 \<or> rank (phase t) = 8 \<and> rank (phase t') = 9) \<Longrightarrow>
    (\<And>k. \<not> awaits (phase t') k) \<Longrightarrow>
    parent_stop t' = parent_stop t \<Longrightarrow> tasks w' = (tasks w)(me \<mapsto> t') \<Longrightarrow>
    generation w' = generation w \<Longrightarrow>
    stops w' = (stops w)((ActorOwner me, n) := wt_drop_tx wt (stops w (ActorOwner me, n))) \<Longrightarrow>
    tree_step wt receivers w w'"
| tree_context: "tasks w me = Some t \<Longrightarrow> rank (phase t) = 9 \<Longrightarrow> rank (phase t') = 10 \<Longrightarrow>
    parent_stop t' = parent_stop t \<Longrightarrow> tasks w' = (tasks w)(me \<mapsto> t') \<Longrightarrow>
    generation w' = generation w \<Longrightarrow>
    stops w' = (stops w)((ActorOwner me, generation w me) :=
       wt_drop_rx wt (wt_drop_tx wt (stops w (ActorOwner me, generation w me)))) \<Longrightarrow>
    tree_step wt receivers w w'"
| tree_finish: "tasks w me = Some t \<Longrightarrow> rank (phase t) = 12 \<Longrightarrow> phase t' = Finished \<Longrightarrow>
    parent_stop t' = parent_stop t \<Longrightarrow> tasks w' = (tasks w)(me \<mapsto> t') \<Longrightarrow>
    generation w' = generation w \<Longrightarrow>
    stops w' = (stops w)(parent_stop t := wt_drop_rx wt (wt_drop_rx wt (stops w (parent_stop t)))) \<Longrightarrow>
    tree_step wt receivers w w'"

section \<open>The runtime\<close>

locale actor_runtime =
  mailbox_channel "env_flume env" contents connected tx_alive +
  stop: watch_channel "env_watch env" receivers signalled sender_gone
  for env :: "('c, 'w, 'k, 'm, 's, 'e) env"
    and contents :: "'c \<Rightarrow> 'm incoming list" and connected tx_alive :: "'c \<Rightarrow> bool"
    and receivers :: "'w \<Rightarrow> nat" and signalled sender_gone :: "'w \<Rightarrow> bool"
begin

lemma receivers_drop_sink:
  "receivers (stops (drop_sink (env_watch env) w) g) = receivers (stops w g)"
  using stop.drop_tx by (simp add: drop_sink_def world_simps Let_def)

lemma drop_sink_frame [world_simps]:
  "tasks (drop_sink wt w) = tasks w" "generation (drop_sink wt w) = generation w"
  "mailboxes (drop_sink wt w) = mailboxes w" "watched (drop_sink wt w) = watched w"
  "trace (drop_sink wt w) = trace w"
  by (simp_all add: drop_sink_def world_simps Let_def)

lemma stops_drop_sink [world_simps]:
  "stops (drop_sink wt w) (ActorOwner a, n) = stops w (ActorOwner a, n)"
  by (simp add: drop_sink_def world_simps Let_def)

lemma goto_frame [world_simps]:
  "tasks (goto me t ph w) = (tasks w)(me \<mapsto> t\<lparr>phase := ph\<rparr>)"
  "generation (goto me t ph w) = generation w" "stops (goto me t ph w) = stops w"
  "mailboxes (goto me t ph w) = mailboxes w" "watched (goto me t ph w) = watched w"
  "trace (goto me t ph w) = trace w" "root_watcher (goto me t ph w) = root_watcher w"
  "terminated_tx (goto me t ph w) = terminated_tx w"
  "terminated_sent (goto me t ph w) = terminated_sent w"
  "system_holds (goto me t ph w) = system_holds w" "sink_holds (goto me t ph w) = sink_holds w"
  by (simp_all add: goto_def put_task_def)

lemma watch_frame:
  assumes "watch fl me other w = Some w'"
  shows "tasks w' = tasks w" "stops w' = stops w" "generation w' = generation w"
  using assms by (cases rule: watch_cases; simp add: world_simps)+

lemma unwatch_frame [world_simps]:
  "tasks (unwatch me other w) = tasks w" "stops (unwatch me other w) = stops w"
  "generation (unwatch me other w) = generation w"
  by (simp_all add: unwatch_def world_simps)

lemma user_step_tree:
  assumes t: "tasks w me = Some t" and fresh: "tasks w (obs_fresh ob) = None"
    and ph: "rank (phase t) = 1" "\<And>n. \<not> awaits (phase t) n" "\<And>p. rank (ph p) = 1"
      "\<And>p n. \<not> awaits (ph p) n"
    and step: "user_step env ob me t ph p w = Some w'"
  shows "tree_step (env_watch env) receivers w w'"
proof -
  from ph have quiet: "\<And>p. quiet_phases (phase t) (ph p)" by (simp add: quiet_phases_def)
  from step obtain p' w1 where api: "api_step env (obs_fresh ob) me p w = Some (p', w1)"
    and w': "w' = goto me t (ph p') w1"
    by (auto simp: user_step_def split: option.splits prod.splits)
  show ?thesis
  proof (cases p)
    case (Spawn actor config q)
    with api w' show ?thesis
      by (intro tree_spawn [of w me t "obs_fresh ob" "t\<lparr>phase := ph p'\<rparr>"
              "\<lparr>task_actor = actor, task_config = config, parent_stop = (ActorOwner me, generation w me),
                task_restarts = 0, phase = Starting\<rparr>"])
         (auto simp: t fresh ph quiet spawn_with_config_def spawn_def world_simps Let_def)
  next
    case (Watch other q)
    with api have "watch (env_flume env) me other w = Some w1" by (auto split: if_splits)
    then show ?thesis
      by (intro tree_quiet [of w me t w' "t\<lparr>phase := ph p'\<rparr>"])
         (simp_all add: t quiet w' world_simps watch_frame)
  qed (use api w' in \<open>auto intro!: tree_quiet [of w me t _ "t\<lparr>phase := ph p'\<rparr>"]
         simp: t quiet world_simps split: if_splits\<close>)
qed

lemma receive_step_tree:
  assumes "tasks w me = Some t" and "phase t = Receiving s up"
    and "receive_step env me t s up w = Some w'"
  shows "tree_step (env_watch env) receivers w w'"
  using assms
  by (auto intro!: tree_quiet simp: receive_step_def next_incoming_def take_watched_for_def
      world_simps quiet_phases_def
      split: option.splits sum.splits prod.splits polled.splits incoming.splits if_splits)

lemma stop_children_tree:
  assumes "tasks w me = Some t" and "1 \<le> rank (phase t)" and "rank (phase t) \<le> 7"
    and "rank (phase t) \<le> rank (phase t')"
    and "\<And>n. \<not> awaits (phase t) n" and "awaits (phase t') (generation w me)"
    and "parent_stop t' = parent_stop t"
    and "tasks w' = (tasks w)(me \<mapsto> t')"
    and "generation w' = generation (stop_children wt me w)"
    and "stops w' = stops (stop_children wt me w)"
  shows "tree_step wt receivers w w'"
  using assms by (intro tree_stop [of w me t t']) (simp_all add: stop_children_def world_simps Let_def)

lemma stop_children_frame [world_simps]:
  "tasks (stop_children wt me w) = tasks w" "mailboxes (stop_children wt me w) = mailboxes w"
  "watched (stop_children wt me w) = watched w" "trace (stop_children wt me w) = trace w"
  "root_watcher (stop_children wt me w) = root_watcher w"
  "terminated_tx (stop_children wt me w) = terminated_tx w"
  "terminated_sent (stop_children wt me w) = terminated_sent w"
  "system_holds (stop_children wt me w) = system_holds w"
  "sink_holds (stop_children wt me w) = sink_holds w"
  by (simp_all add: stop_children_def world_simps Let_def)

lemma await_restart_tree:
  assumes t: "tasks w me = Some t" and ph: "phase t = Failed up"
  shows "tree_step (env_watch env) receivers w (await_restart (env_watch env) now me t up w)"
proof -
  obtain r n where r: "next_restart (config_strategy (task_config t)) up now (task_restarts t) = (r, n)"
    by (cases "next_restart (config_strategy (task_config t)) up now (task_restarts t)")
  have leave: "tree_step (env_watch env) receivers w (goto me (t\<lparr>task_restarts := n\<rparr>) Draining w)"
    by (rule tree_quiet [OF t, of _ "t\<lparr>task_restarts := n, phase := Draining\<rparr>"])
       (simp_all add: world_simps quiet_phases_def ph)
  show ?thesis
  proof (cases r)
    case (After d)
    have "tree_step (env_watch env) receivers w
        (goto me (t\<lparr>task_restarts := n\<rparr>) (RestartStopping d (generation w me)) (stop_children (env_watch env) me w))"
      by (rule stop_children_tree [OF t, of "t\<lparr>task_restarts := n, phase := RestartStopping d (generation w me)\<rparr>"])
         (simp_all add: world_simps ph)
    with After leave show ?thesis by (simp add: await_restart_def r)
  qed (use leave in \<open>simp_all add: await_restart_def r\<close>)
qed

lemma backoff_step_tree:
  assumes "tasks w me = Some t" and "phase t = BackingOff d"
    and "backoff_step env slept me t d w = Some w'"
  shows "tree_step (env_watch env) receivers w w'"
  using assms
  by (auto intro!: tree_quiet simp: backoff_step_def world_simps quiet_phases_def Let_def
      split: option.splits interrupted.splits)

lemma stop_children_closed_tree:
  assumes "tasks w me = Some t" and "awaits (phase t) n" and "stop_children_closed (env_watch env) me n w = Some w1"
    and "rank (phase t) = 1 \<and> rank ph = 1 \<or> rank (phase t) = 8 \<and> rank ph = 9" and "\<And>k. \<not> awaits ph k"
  shows "tree_step (env_watch env) receivers w (goto me t ph w1)"
  using assms
  by (intro tree_closed [of w me t n _ "t\<lparr>phase := ph\<rparr>"])
     (auto simp: world_simps stop_children_closed_def split: option.splits)

lemma signal_frame [world_simps]:
  "tasks (watcher_send_terminated env me wtc w) = tasks w"
  "generation (watcher_send_terminated env me wtc w) = generation w"
  "watched (watcher_send_terminated env me wtc w) = watched w"
  "stops (watcher_send_terminated env me wtc w) (ActorOwner a, n) = stops w (ActorOwner a, n)"
  by (auto simp: watcher_send_terminated_def root_send_terminated_def world_simps
      split: terminated_sink.splits)

lemma receivers_signal:
  "receivers (stops (watcher_send_terminated env me wtc w) g) = receivers (stops w g)"
  by (auto simp: watcher_send_terminated_def root_send_terminated_def world_simps receivers_drop_sink
      split: terminated_sink.splits)

lemma phase_step_tree:
  assumes t: "tasks w me = Some t" and fresh: "tasks w (obs_fresh ob) = None"
    and step: "phase_step env ob me t w = Some w'"
  shows "tree_step (env_watch env) receivers w w'"
proof (cases "phase t")
  case Starting
  with step show ?thesis
    by (intro tree_start [OF t, of "t\<lparr>phase := Initializing (init_code env (task_actor t) me)\<rparr>"])
       (auto simp: phase_step_eq start_task_def world_simps Let_def fun_eq_iff)
next
  case (Initializing p)
  then show ?thesis
    using step user_step_tree [OF t fresh, of Initializing p w']
    by (cases p) (auto intro!: tree_quiet [OF t] simp: phase_step_eq init_done_def world_simps
        quiet_phases_def split: option.splits)
next
  case (Handling up p)
  then show ?thesis
    using step user_step_tree [OF t fresh, of "Handling up" p w']
    by (cases p) (auto intro!: tree_quiet [OF t] simp: phase_step_eq receive_incoming_def world_simps
        quiet_phases_def split: option.splits control.splits)
next
  case (Receiving s up)
  with step receive_step_tree [OF t] show ?thesis by (simp add: phase_step_eq)
next
  case (Failed up)
  with step await_restart_tree [OF t] show ?thesis by (auto simp: phase_step_eq)
next
  case (BackingOff d)
  with step backoff_step_tree [OF t] show ?thesis by (simp add: phase_step_eq)
next
  case (RestartStopping d n)
  with step stop_children_closed_tree [OF t, of n] show ?thesis by (auto simp: phase_step_eq)
next
  case (AwaitingChildren n)
  with step stop_children_closed_tree [OF t, of n] show ?thesis by (auto simp: phase_step_eq)
next
  case StoppingChildren
  with step show ?thesis
    by (intro stop_children_tree [OF t, of "t\<lparr>phase := AwaitingChildren (generation w me)\<rparr>"])
       (auto simp: phase_step_eq world_simps)
next
  case DroppingContext
  with step show ?thesis
    by (intro tree_context [OF t, of "t\<lparr>phase := DroppingActor\<rparr>"])
       (auto simp: phase_step_eq drop_context_def world_simps)
next
  case (Signaling ws)
  then show ?thesis
  proof (cases ws)
    case Nil
    with Signaling step show ?thesis
      by (intro tree_finish [OF t, of "t\<lparr>phase := Finished\<rparr>"])
         (auto simp: phase_step_eq finish_task_def world_simps)
  next
    case (Cons wtc rest)
    with Signaling step show ?thesis
      by (intro tree_quiet [OF t, of _ "t\<lparr>phase := Signaling rest\<rparr>"])
         (auto simp: phase_step_eq quiet_phases_def world_simps receivers_signal)
  qed
qed (use step in \<open>auto intro!: tree_quiet [OF t]
       simp: phase_step_eq terminate_drain_def terminate_disconnect_def take_watched_def
         terminate_unregister_def terminate_take_watchers_def world_simps quiet_phases_def
       split: prod.splits list.splits\<close>)

lemma sys_step_tree:
  assumes "sys_step env root w w'"
  shows "tree_step (env_watch env) receivers w w'"
  using assms
proof (cases rule: sys_step.cases)
  case (step_task ob me)
  then show ?thesis
    using phase_step_tree [of w me] by (auto simp: task_step_def fresh_id_def split: option.splits)
next
  case (step_watch_root i)
  then show ?thesis
    by (auto intro!: tree_same simp: watch_root_def root_send_terminated_def world_simps Let_def
        receivers_drop_sink split: prod.splits sum.splits)
qed (use stop.send_replace stop.drop_tx in
       \<open>auto intro!: tree_same simp: world_simps system_stop_def drop_system_def Let_def\<close>)

end

section \<open>The invariant\<close>

definition own :: "('k, 'm, 's, 'e) phase \<Rightarrow> nat \<Rightarrow> nat \<Rightarrow> nat" where
  "own p current n = (if n = current \<and> rank p \<le> 9 then 1 else 0)"

text \<open>
  A task spawned under an actor belongs to one of its generations; to the current one only until
  the actor stops its children for good; and unless that generation is the current or the awaited
  one, the task has finished.
\<close>

definition child_ok ::
  "('k, 'm, 's, 'e) task \<Rightarrow> nat \<Rightarrow> nat \<Rightarrow> ('k, 'm, 's, 'e) phase \<Rightarrow> bool" where
  "child_ok owner current n p \<longleftrightarrow>
     1 \<le> rank (phase owner) \<and> n \<le> current \<and> (n = current \<longrightarrow> rank (phase owner) \<le> 7) \<and>
     (p = Finished \<or> n = current \<or> awaits (phase owner) n)"

definition children_ok :: "('c, 'w, 'k, 'm, 's, 'e) world \<Rightarrow> bool" where
  "children_ok w \<longleftrightarrow>
     (\<forall>i t a n. tasks w i = Some t \<and> parent_stop t = (ActorOwner a, n) \<longrightarrow>
        (\<exists>owner. tasks w a = Some owner \<and> child_ok owner (generation w a) n (phase t)))"

definition awaited_ok :: "('c, 'w, 'k, 'm, 's, 'e) world \<Rightarrow> bool" where
  "awaited_ok w \<longleftrightarrow>
     (\<forall>a t n. tasks w a = Some t \<and> awaits (phase t) n \<longrightarrow> generation w a = Suc n)"

definition counts_ok :: "('w \<Rightarrow> nat) \<Rightarrow> ('c, 'w, 'k, 'm, 's, 'e) world \<Rightarrow> bool" where
  "counts_ok receivers w \<longleftrightarrow>
     (\<forall>a t n. tasks w a = Some t \<and> 1 \<le> rank (phase t) \<and> n \<le> generation w a \<longrightarrow>
        receivers (stops w (ActorOwner a, n)) =
          held (ActorOwner a, n) (tasks w) + own (phase t) (generation w a) n) \<and>
     receivers (stops w (SystemOwner, 0)) = held (SystemOwner, 0) (tasks w) \<and>
     (\<forall>i t k. tasks w i = Some t \<and> parent_stop t = (SystemOwner, k) \<longrightarrow> k = 0)"

definition tree_inv :: "('w \<Rightarrow> nat) \<Rightarrow> ('c, 'w, 'k, 'm, 's, 'e) world \<Rightarrow> bool" where
  "tree_inv receivers w \<longleftrightarrow>
     finite (dom (tasks w)) \<and> children_ok w \<and> awaited_ok w \<and> counts_ok receivers w"

lemma children_okD:
  "children_ok w \<Longrightarrow> tasks w i = Some t \<Longrightarrow> parent_stop t = (ActorOwner a, n) \<Longrightarrow>
     \<exists>owner. tasks w a = Some owner \<and> child_ok owner (generation w a) n (phase t)"
  unfolding children_ok_def by blast

lemma awaited_okD:
  "awaited_ok w \<Longrightarrow> tasks w a = Some t \<Longrightarrow> awaits (phase t) n \<Longrightarrow> generation w a = Suc n"
  unfolding awaited_ok_def by blast

lemma counts_okD:
  "counts_ok receivers w \<Longrightarrow> tasks w a = Some t \<Longrightarrow> 1 \<le> rank (phase t) \<Longrightarrow> n \<le> generation w a \<Longrightarrow>
     receivers (stops w (ActorOwner a, n)) =
       held (ActorOwner a, n) (tasks w) + own (phase t) (generation w a) n"
  unfolding counts_ok_def by blast

text \<open>A change of one task that keeps its place in the tree keeps every child in order.\<close>

lemma children_ok_update:
  assumes ok: "children_ok w" and t: "tasks w me = Some t" and ts: "tasks w' = (tasks w)(me \<mapsto> t')"
    and p: "parent_stop t' = parent_stop t" and fin: "phase t = Finished \<Longrightarrow> phase t' = Finished"
    and gen: "\<And>a. a \<noteq> me \<Longrightarrow> generation w' a = generation w a"
    and owner: "\<And>i c n. tasks w i = Some c \<Longrightarrow> parent_stop c = (ActorOwner me, n) \<Longrightarrow>
      child_ok t (generation w me) n (phase c) \<Longrightarrow> child_ok t' (generation w' me) n (phase c)"
  shows "children_ok w'"
  unfolding children_ok_def
proof (intro allI impI)
  fix i c a n
  assume c: "tasks w' i = Some c \<and> parent_stop c = (ActorOwner a, n)"
  define c0 where "c0 = (if i = me then t else c)"
  have c0: "tasks w i = Some c0" "parent_stop c0 = (ActorOwner a, n)"
    and fin': "phase c0 = Finished \<Longrightarrow> phase c = Finished"
    using c ts t p fin by (auto simp: c0_def split: if_splits)
  then obtain ow where ow: "tasks w a = Some ow" "child_ok ow (generation w a) n (phase c0)"
    using children_okD [OF ok] by blast
  show "\<exists>ow. tasks w' a = Some ow \<and> child_ok ow (generation w' a) n (phase c)"
  proof (cases "a = me")
    case True
    with ow owner c0 t have "child_ok t' (generation w' me) n (phase c0)" by simp
    with True fin' show ?thesis by (auto simp: ts child_ok_def)
  next
    case False
    with ow fin' show ?thesis by (auto simp: ts gen child_ok_def)
  qed
qed

lemma child_ok_quiet:
  "quiet_phases (phase t) (phase t') \<Longrightarrow> child_ok t k n q \<Longrightarrow> child_ok t' k n q"
  by (auto simp: child_ok_def quiet_phases_def)

lemma awaited_ok_update:
  assumes "awaited_ok w" and "tasks w' = (tasks w)(me \<mapsto> t')"
    and "\<And>a. a \<noteq> me \<Longrightarrow> generation w' a = generation w a"
    and "\<And>n. awaits (phase t') n \<Longrightarrow> generation w' me = Suc n"
  shows "awaited_ok w'"
  using assms unfolding awaited_ok_def by (auto split: if_splits)

lemma held_none:
  "(\<And>i t. ts i = Some t \<Longrightarrow> parent_stop t \<noteq> g) \<Longrightarrow> held g ts = 0"
  by (auto simp: held_def holds_def intro!: sum.neutral)

lemma holds_same: "parent_stop t' = parent_stop t \<Longrightarrow> weight (phase t') = weight (phase t) \<Longrightarrow> holds g t' = holds g t"
  by (simp add: holds_def)

text \<open>
  The counts after a change of the task \<open>me\<close>: it is enough to look at the channels whose
  receivers, whose tasks' receivers or whose owner changed.
\<close>

lemma counts_ok_update:
  assumes ok: "counts_ok receivers w" and ts: "tasks w' = (tasks w)(me \<mapsto> t')"
    and t: "tasks w me = Some t" and p: "parent_stop t' = parent_stop t"
    and gen: "\<And>a. a \<noteq> me \<Longrightarrow> generation w' a = generation w a"
    and others: "\<And>a n. a \<noteq> me \<Longrightarrow> n \<le> generation w a \<Longrightarrow> (\<exists>ta. tasks w a = Some ta \<and> 1 \<le> rank (phase ta)) \<Longrightarrow>
      receivers (stops w' (ActorOwner a, n)) + held (ActorOwner a, n) (tasks w) =
        receivers (stops w (ActorOwner a, n)) + held (ActorOwner a, n) (tasks w')"
    and mine: "\<And>n. 1 \<le> rank (phase t') \<Longrightarrow> n \<le> generation w' me \<Longrightarrow>
      receivers (stops w' (ActorOwner me, n)) =
        held (ActorOwner me, n) (tasks w') + own (phase t') (generation w' me) n"
    and sys: "receivers (stops w' (SystemOwner, 0)) + held (SystemOwner, 0) (tasks w) =
        receivers (stops w (SystemOwner, 0)) + held (SystemOwner, 0) (tasks w')"
  shows "counts_ok receivers w'"
proof -
  have "receivers (stops w' (ActorOwner a, n)) =
      held (ActorOwner a, n) (tasks w') + own (phase ta) (generation w' a) n"
    if "tasks w' a = Some ta" "1 \<le> rank (phase ta)" "n \<le> generation w' a" for a ta n
  proof (cases "a = me")
    case True
    with that mine show ?thesis by (simp add: ts)
  next
    case False
    with that gen have a: "tasks w a = Some ta" "n \<le> generation w a" "generation w' a = generation w a"
      by (simp_all add: ts)
    from counts_okD [OF ok a(1) that(2) a(2)] others [OF False a(2)] a that(2) show ?thesis
      by auto
  qed
  moreover have "receivers (stops w' (SystemOwner, 0)) = held (SystemOwner, 0) (tasks w')"
    using sys ok by (simp add: counts_ok_def)
  moreover have "\<forall>i t k. tasks w' i = Some t \<and> parent_stop t = (SystemOwner, k) \<longrightarrow> k = 0"
    using ok t p unfolding counts_ok_def ts by (auto split: if_splits)
  ultimately show ?thesis unfolding counts_ok_def by blast
qed

lemma counts_ok_quiet:
  assumes ok: "counts_ok receivers w" and fin: "finite (dom (tasks w))" and t: "tasks w me = Some t"
    and ts: "tasks w' = (tasks w)(me \<mapsto> t')" and p: "parent_stop t' = parent_stop t"
    and ranks: "1 \<le> rank (phase t)" "weight (phase t') = weight (phase t)" "rank (phase t) \<le> 9 \<longleftrightarrow> rank (phase t') \<le> 9"
    and gen: "generation w' = generation w" and rx: "\<And>g. receivers (stops w' g) = receivers (stops w g)"
  shows "counts_ok receivers w'"
proof -
  have held: "held g (tasks w') = held g (tasks w)" for g
    unfolding ts by (rule held_same [OF fin t holds_same [OF p ranks(2)]])
  show ?thesis
  proof (rule counts_ok_update [OF ok ts t p])
    show "receivers (stops w' (ActorOwner me, n)) =
        held (ActorOwner me, n) (tasks w') + own (phase t') (generation w' me) n"
      if "n \<le> generation w' me" for n
      using counts_okD [OF ok t ranks(1)] that ranks(3) by (simp add: gen rx held own_def)
  qed (simp_all add: gen rx held)
qed

context actor_runtime
begin

lemma tree_inv_same:
  assumes "tree_inv receivers w" and "tasks w' = tasks w" and "generation w' = generation w"
    and "\<And>g. receivers (stops w' g) = receivers (stops w g)"
  shows "tree_inv receivers w'"
proof -
  have "children_ok w' = children_ok w" "awaited_ok w' = awaited_ok w"
    "counts_ok receivers w' = counts_ok receivers w"
    by (simp_all add: assms children_ok_def awaited_ok_def counts_ok_def)
  with assms(1,2) show ?thesis by (simp add: tree_inv_def)
qed

lemma tree_inv_quiet:
  assumes inv: "tree_inv receivers w" and t: "tasks w me = Some t"
    and ts: "tasks w' = (tasks w)(me \<mapsto> t')" and p: "parent_stop t' = parent_stop t"
    and q: "quiet_phases (phase t) (phase t')" and gen: "generation w' = generation w"
    and rx: "\<And>g. receivers (stops w' g) = receivers (stops w g)"
  shows "tree_inv receivers w'"
proof -
  have w2: "weight (phase t) = 2" "weight (phase t') = 2"
    using q weight_rank [of "phase t"] weight_rank [of "phase t'"] by (auto simp: quiet_phases_def)
  have "children_ok w'"
    by (rule children_ok_update [OF _ t ts p])
       (use inv q w2 gen in \<open>auto simp: tree_inv_def intro: child_ok_quiet\<close>)
  moreover have "awaited_ok w'"
    by (rule awaited_ok_update [OF _ ts]) (use inv q gen in \<open>auto simp: tree_inv_def quiet_phases_def\<close>)
  moreover have "counts_ok receivers w'"
    by (rule counts_ok_quiet [OF _ _ t ts p])
       (use inv q w2 gen rx in \<open>auto simp: tree_inv_def quiet_phases_def\<close>)
  ultimately show ?thesis using inv ts by (simp add: tree_inv_def)
qed

lemma tree_inv_start:
  assumes inv: "tree_inv receivers w" and t: "tasks w me = Some t" and st: "phase t = Starting"
    and r': "rank (phase t') = 1" and aw: "\<And>n. \<not> awaits (phase t') n"
    and p: "parent_stop t' = parent_stop t" and ts: "tasks w' = (tasks w)(me \<mapsto> t')"
    and gen: "generation w' = (generation w)(me := 0)"
    and stops: "stops w' = (let f = (stops w)((ActorOwner me, 0) := wt_channel (env_watch env))
                in f(parent_stop t := wt_clone_rx (env_watch env) (f (parent_stop t))))"
  shows "tree_inv receivers w'"
proof -
  have fin: "finite (dom (tasks w))" and ch: "children_ok w" and co: "counts_ok receivers w"
    using inv by (simp_all add: tree_inv_def)
  have childless: "parent_stop c \<noteq> (ActorOwner me, n)" if "tasks w i = Some c" for i c n
    using children_okD [OF ch that, of me n] t st by (auto simp: child_ok_def)
  have w2: "weight (phase t') = 2" by (rule weight_rank) (use r' in auto)
  have held: "held g (tasks w') = held g (tasks w) + (if g = parent_stop t then 1 else 0)" for g
    using held_update [OF fin t, of g t'] p st w2 by (auto simp: ts holds_def split: if_splits)
  have rx: "receivers (stops w' g) = receivers (stops w g) + (if g = parent_stop t then 1 else 0)"
    if "g \<noteq> (ActorOwner me, 0)" for g
    using that childless [OF t, of 0] stop.clone_rx by (auto simp: stops Let_def)
  have none: "held (ActorOwner me, 0) (tasks w') = 0"
    by (rule held_none) (use childless t p in \<open>auto simp: ts split: if_splits\<close>)
  have "children_ok w'"
    by (rule children_ok_update [OF ch t ts p]) (use st gen in \<open>auto simp: child_ok_def\<close>)
  moreover have "awaited_ok w'"
    by (rule awaited_ok_update [OF _ ts]) (use inv aw gen in \<open>auto simp: tree_inv_def\<close>)
  moreover have "counts_ok receivers w'"
  proof (rule counts_ok_update [OF co ts t p])
    show "receivers (stops w' (ActorOwner me, n)) =
        held (ActorOwner me, n) (tasks w') + own (phase t') (generation w' me) n"
      if "n \<le> generation w' me" for n
      using that none childless [OF t, of 0] stop.channel_new r'
      by (auto simp: gen stops Let_def own_def)
  qed (auto simp: gen rx held)
  ultimately show ?thesis using fin ts by (simp add: tree_inv_def)
qed

lemma tree_inv_stop:
  assumes inv: "tree_inv receivers w" and t: "tasks w me = Some t"
    and r: "1 \<le> rank (phase t)" "rank (phase t) \<le> 7"
    and aw: "\<And>n. \<not> awaits (phase t) n" and aw': "awaits (phase t') (generation w me)"
    and p: "parent_stop t' = parent_stop t" and ts: "tasks w' = (tasks w)(me \<mapsto> t')"
    and gen: "generation w' = (generation w)(me := Suc (generation w me))"
    and stops: "stops w' = (let f = (stops w)((ActorOwner me, Suc (generation w me)) := wt_channel (env_watch env));
                    c = stops w (ActorOwner me, generation w me)
                in f((ActorOwner me, generation w me) := wt_drop_rx (env_watch env) (wt_send (env_watch env) c)))"
  shows "tree_inv receivers w'"
proof -
  have fin: "finite (dom (tasks w))" and ch: "children_ok w" and co: "counts_ok receivers w"
    using inv by (simp_all add: tree_inv_def)
  have r': "1 \<le> rank (phase t')" "rank (phase t') \<le> 8" using awaits_rank [OF aw'] by auto
  have w2: "weight (phase t) = 2" "weight (phase t') = 2"
    using r r' by (simp_all add: weight_rank)
  have held: "held g (tasks w') = held g (tasks w)" for g
    unfolding ts by (rule held_same [OF fin t holds_same [OF p]]) (simp add: w2)
  have none: "held (ActorOwner me, Suc (generation w me)) (tasks w) = 0"
    using children_okD [OF ch] t by (intro held_none) (fastforce simp: child_ok_def)
  have mine: "receivers (stops w (ActorOwner me, generation w me)) =
      held (ActorOwner me, generation w me) (tasks w) + 1"
    using counts_okD [OF co t r(1), of "generation w me"] r(2) by (simp add: own_def)
  have old: "receivers (stops w (ActorOwner me, n)) = held (ActorOwner me, n) (tasks w)"
    if "n < generation w me" for n
    using counts_okD [OF co t r(1), of n] that by (simp add: own_def)
  have "children_ok w'"
    by (rule children_ok_update [OF ch t ts p]) (use r r' aw aw' gen w2 in \<open>auto simp: child_ok_def le_Suc_eq\<close>)
  moreover have "awaited_ok w'"
    by (rule awaited_ok_update [OF _ ts])
       (use inv aw' gen in \<open>auto simp: tree_inv_def elim!: awaits.elims\<close>)
  moreover have "counts_ok receivers w'"
  proof (rule counts_ok_update [OF co ts t p])
    show "receivers (stops w' (ActorOwner me, n)) =
        held (ActorOwner me, n) (tasks w') + own (phase t') (generation w' me) n"
      if "n \<le> generation w' me" for n
      using that none mine old [of n] r' stop.channel_new
        stop.send [of "stops w (ActorOwner me, generation w me)"]
        stop.drop_rx [of "wt_send (env_watch env) (stops w (ActorOwner me, generation w me))"]
      by (auto simp: gen stops Let_def own_def held le_Suc_eq)
  qed (auto simp: gen held stops Let_def)
  ultimately show ?thesis using fin ts by (simp add: tree_inv_def)
qed

lemma tree_inv_spawn:
  assumes inv: "tree_inv receivers w" and t: "tasks w me = Some t" and i: "tasks w i = None"
    and q: "quiet_phases (phase t) (phase t')" and r': "rank (phase t') = 1"
    and p: "parent_stop t' = parent_stop t" and st: "phase c = Starting"
    and g: "parent_stop c = (ActorOwner me, generation w me)"
    and ts: "tasks w' = (tasks w)(i \<mapsto> c, me \<mapsto> t')" and gen: "generation w' = generation w"
    and stops: "stops w' = (stops w)((ActorOwner me, generation w me) :=
                  wt_clone_rx (env_watch env) (stops w (ActorOwner me, generation w me)))"
  shows "tree_inv receivers w'"
proof -
  define w1 where "w1 = w\<lparr>tasks := (tasks w)(i \<mapsto> c), stops := stops w'\<rparr>"
  have fin: "finite (dom (tasks w))" and ch: "children_ok w" and co: "counts_ok receivers w"
    using inv by (simp_all add: tree_inv_def)
  have me: "me \<noteq> i" using t i by auto
  have r: "rank (phase t) = 1" using q r' by (simp add: quiet_phases_def)
  have held: "held h (tasks w1) = held h (tasks w) + (if h = (ActorOwner me, generation w me) then 1 else 0)" for h
    using held_new [of "tasks w" i h c] fin i st g by (simp add: w1_def holds_def)
  have rx: "receivers (stops w1 h) = receivers (stops w h) + (if h = (ActorOwner me, generation w me) then 1 else 0)" for h
    using stop.clone_rx by (simp add: w1_def stops)
  have "children_ok w1"
    unfolding children_ok_def
  proof (intro allI impI)
    fix j d a n
    assume d: "tasks w1 j = Some d \<and> parent_stop d = (ActorOwner a, n)"
    show "\<exists>ow. tasks w1 a = Some ow \<and> child_ok ow (generation w1 a) n (phase d)"
    proof (cases "j = i")
      case True
      with d g t me r show ?thesis by (auto simp: w1_def child_ok_def)
    next
      case False
      with d children_okD [OF ch, of j d a n] i show ?thesis
        by (auto simp: w1_def)
    qed
  qed
  moreover have "awaited_ok w1"
    using inv st by (auto simp: tree_inv_def awaited_ok_def w1_def)
  moreover have "counts_ok receivers w1"
    using co st g unfolding counts_ok_def held rx
    by (auto simp: w1_def)
  ultimately have inv1: "tree_inv receivers w1" using fin by (simp add: tree_inv_def w1_def)
  show ?thesis
    by (rule tree_inv_quiet [OF inv1, of me t _ t']) (simp_all add: w1_def t me ts p q gen)
qed

lemma tree_inv_closed:
  assumes inv: "tree_inv receivers w" and t: "tasks w me = Some t" and aw: "awaits (phase t) n"
    and closed: "wt_closed (env_watch env) (stops w (ActorOwner me, n)) \<noteq> None"
    and r: "rank (phase t) = 1 \<and> rank (phase t') = 1 \<or> rank (phase t) = 8 \<and> rank (phase t') = 9"
    and aw': "\<And>k. \<not> awaits (phase t') k"
    and p: "parent_stop t' = parent_stop t" and ts: "tasks w' = (tasks w)(me \<mapsto> t')"
    and gen: "generation w' = generation w"
    and stops: "stops w' = (stops w)((ActorOwner me, n) := wt_drop_tx (env_watch env) (stops w (ActorOwner me, n)))"
  shows "tree_inv receivers w'"
proof -
  have fin: "finite (dom (tasks w))" and ch: "children_ok w" and co: "counts_ok receivers w"
    and n: "generation w me = Suc n"
    using inv awaited_okD [OF _ t aw] by (simp_all add: tree_inv_def)
  have w2: "weight (phase t') = weight (phase t)"
    using r weight_rank [of "phase t"] weight_rank [of "phase t'"] by auto
  have "receivers (stops w (ActorOwner me, n)) = 0" using closed by (simp add: stop.closed_None)
  then have "held (ActorOwner me, n) (tasks w) = 0"
    using counts_okD [OF co t, of n] r n by auto
  then have ended: "phase c = Finished" if "tasks w i = Some c" "parent_stop c = (ActorOwner me, n)" for i c
    using held_0 [OF fin] that by blast
  have rx: "receivers (stops w' g) = receivers (stops w g)" for g
    using stop.drop_tx by (simp add: stops)
  have only: "awaits (phase t) k \<longleftrightarrow> k = n" for k using aw by (cases "phase t") auto
  have "children_ok w'"
    by (rule children_ok_update [OF ch t ts p])
       (use r gen aw ended only in \<open>auto simp: child_ok_def\<close>)
  moreover have "awaited_ok w'"
    by (rule awaited_ok_update [OF _ ts]) (use inv aw' gen in \<open>auto simp: tree_inv_def\<close>)
  moreover have "counts_ok receivers w'"
    by (rule counts_ok_quiet [OF co fin t ts p _ w2 _ gen rx]) (use r in auto)
  ultimately show ?thesis using fin ts by (simp add: tree_inv_def)
qed

lemma tree_inv_context:
  assumes inv: "tree_inv receivers w" and t: "tasks w me = Some t" and r: "rank (phase t) = 9"
    and r': "rank (phase t') = 10" and p: "parent_stop t' = parent_stop t"
    and ts: "tasks w' = (tasks w)(me \<mapsto> t')" and gen: "generation w' = generation w"
    and stops: "stops w' = (stops w)((ActorOwner me, generation w me) :=
       wt_drop_rx (env_watch env) (wt_drop_tx (env_watch env) (stops w (ActorOwner me, generation w me))))"
  shows "tree_inv receivers w'"
proof -
  have fin: "finite (dom (tasks w))" and ch: "children_ok w" and co: "counts_ok receivers w"
    using inv by (simp_all add: tree_inv_def)
  have aw: "\<not> awaits (phase t) k" "\<not> awaits (phase t') k" for k
    using r r' awaits_rank by fastforce+
  have w2: "weight (phase t') = weight (phase t)" using r r' by (simp add: weight_rank)
  have held: "held g (tasks w') = held g (tasks w)" for g
    unfolding ts by (rule held_same [OF fin t holds_same [OF p w2]])
  note rx = counts_okD [OF co t]
  have "children_ok w'"
    by (rule children_ok_update [OF ch t ts p]) (use r r' aw gen in \<open>auto simp: child_ok_def\<close>)
  moreover have "awaited_ok w'"
    by (rule awaited_ok_update [OF _ ts]) (use inv aw gen in \<open>auto simp: tree_inv_def\<close>)
  moreover have "counts_ok receivers w'"
  proof (rule counts_ok_update [OF co ts t p])
    show "receivers (stops w' (ActorOwner me, n)) =
        held (ActorOwner me, n) (tasks w') + own (phase t') (generation w' me) n"
      if "n \<le> generation w' me" for n
      using that rx [of n] r r' stop.drop_tx [of "stops w (ActorOwner me, generation w me)"]
        stop.drop_rx [of "wt_drop_tx (env_watch env) (stops w (ActorOwner me, generation w me))"]
      by (auto simp: gen stops own_def held)
  qed (auto simp: gen held stops)
  ultimately show ?thesis using fin ts by (simp add: tree_inv_def)
qed

lemma receivers_parent:
  assumes inv: "tree_inv receivers w" and t: "tasks w me = Some t"
  shows "holds (parent_stop t) t \<le> receivers (stops w (parent_stop t))"
proof -
  have fin: "finite (dom (tasks w))" and ch: "children_ok w" and co: "counts_ok receivers w"
    using inv by (simp_all add: tree_inv_def)
  have le: "holds (parent_stop t) t \<le> held (parent_stop t) (tasks w)"
    unfolding held_def using fin t
    by (metis (no_types, lifting) domI member_le_sum option.sel zero_le)
  show ?thesis
  proof (cases "parent_stop t")
    case (Pair ow n)
    show ?thesis
    proof (cases ow)
      case SystemOwner
      with Pair co t have "n = 0" by (auto simp: counts_ok_def)
      with SystemOwner Pair co le show ?thesis by (simp add: counts_ok_def)
    next
      case (ActorOwner a)
      with Pair children_okD [OF ch t, of a n] obtain ta where
        "tasks w a = Some ta" "child_ok ta (generation w a) n (phase t)" by auto
      with counts_okD [OF co, of a ta n] Pair ActorOwner le show ?thesis by (simp add: child_ok_def)
    qed
  qed
qed

lemma tree_inv_finish:
  assumes inv: "tree_inv receivers w" and t: "tasks w me = Some t" and r: "rank (phase t) = 12"
    and f: "phase t' = Finished" and p: "parent_stop t' = parent_stop t"
    and ts: "tasks w' = (tasks w)(me \<mapsto> t')" and gen: "generation w' = generation w"
    and stops: "stops w' = (stops w)(parent_stop t :=
       wt_drop_rx (env_watch env) (wt_drop_rx (env_watch env) (stops w (parent_stop t))))"
  shows "tree_inv receivers w'"
proof -
  let ?c = "stops w (parent_stop t)"
  have fin: "finite (dom (tasks w))" and ch: "children_ok w" and co: "counts_ok receivers w"
    using inv by (simp_all add: tree_inv_def)
  have aw: "\<not> awaits (phase t) k" for k using r awaits_rank by fastforce
  have w2: "weight (phase t) = 2" using r by (simp add: weight_rank)
  have two: "2 \<le> receivers ?c" using receivers_parent [OF inv t] w2 by (simp add: holds_def)
  have rx: "receivers (stops w' g) + holds g t = receivers (stops w g)" for g
    using stop.drop_rx [of ?c] stop.drop_rx [of "wt_drop_rx (env_watch env) ?c"] two w2
    by (auto simp: stops holds_def)
  have held: "held g (tasks w') + holds g t = held g (tasks w)" for g
    using held_update [OF fin t, of g t'] f by (simp add: ts holds_def)
  have "children_ok w'"
    by (rule children_ok_update [OF ch t ts p]) (use r f aw gen in \<open>auto simp: child_ok_def\<close>)
  moreover have "awaited_ok w'"
    by (rule awaited_ok_update [OF _ ts]) (use inv f gen in \<open>auto simp: tree_inv_def\<close>)
  moreover have "counts_ok receivers w'"
  proof (rule counts_ok_update [OF co ts t p])
    show "receivers (stops w' (ActorOwner me, n)) =
        held (ActorOwner me, n) (tasks w') + own (phase t') (generation w' me) n"
      if "n \<le> generation w' me" for n
      using that counts_okD [OF co t, of n] rx [of "(ActorOwner me, n)"] held [of "(ActorOwner me, n)"] r f
      by (simp add: gen own_def)
    show "receivers (stops w' (ActorOwner a, n)) + held (ActorOwner a, n) (tasks w) =
        receivers (stops w (ActorOwner a, n)) + held (ActorOwner a, n) (tasks w')" for a n
      using rx [of "(ActorOwner a, n)"] held [of "(ActorOwner a, n)"] by linarith
    show "receivers (stops w' (SystemOwner, 0)) + held (SystemOwner, 0) (tasks w) =
        receivers (stops w (SystemOwner, 0)) + held (SystemOwner, 0) (tasks w')"
      using rx [of "(SystemOwner, 0)"] held [of "(SystemOwner, 0)"] by linarith
  qed (simp_all add: gen)
  ultimately show ?thesis using fin ts by (simp add: tree_inv_def)
qed

lemma tree_step_inv:
  assumes "tree_step (env_watch env) receivers w w'" and "tree_inv receivers w"
  shows "tree_inv receivers w'"
  using assms
  by (cases rule: tree_step.cases)
     (blast intro: tree_inv_same tree_inv_quiet tree_inv_start tree_inv_spawn tree_inv_stop
        tree_inv_closed tree_inv_context tree_inv_finish)+

lemma tree_inv_init: "tree_inv receivers (spawn_root env actor config root)"
  using stop.channel_new
  by (auto simp: tree_inv_def children_ok_def awaited_ok_def counts_ok_def spawn_root_def spawn_def
      world_simps held_def holds_def split: if_splits)

lemma sys_reach_tree: "sys_reach env actor config root w \<Longrightarrow> tree_inv receivers w"
  by (induction rule: sys_reach.induct)
     (auto intro: tree_inv_init tree_step_inv sys_step_tree)

end

section \<open>Descendants\<close>

inductive descendant :: "('c, 'w, 'k, 'm, 's, 'e) world \<Rightarrow> actor_id \<Rightarrow> actor_id \<Rightarrow> bool" for w where
  child: "tasks w c = Some t \<Longrightarrow> parent_stop t = (ActorOwner a, n) \<Longrightarrow> descendant w a c"
| grandchild: "descendant w a b \<Longrightarrow> tasks w c = Some t \<Longrightarrow> parent_stop t = (ActorOwner b, n) \<Longrightarrow>
    descendant w a c"

definition is_finished :: "('c, 'w, 'k, 'm, 's, 'e) world \<Rightarrow> actor_id \<Rightarrow> bool" where
  "is_finished w i \<longleftrightarrow> (\<exists>t. tasks w i = Some t \<and> phase t = Finished)"

lemma tree_step_parents:
  assumes "tree_step wt receivers w w'" and "tasks w i = Some t"
  shows "\<exists>t'. tasks w' i = Some t' \<and> parent_stop t' = parent_stop t \<and> rank (phase t) \<le> rank (phase t')"
  using assms
  by (cases rule: tree_step.cases) (auto simp: quiet_phases_def dest: awaits_rank)

lemma descendant_step:
  assumes "descendant w a c" and "tree_step wt receivers w w'"
  shows "descendant w' a c"
  using assms(1)
proof (induction rule: descendant.induct)
  case (child c t a n)
  then show ?case using tree_step_parents [OF assms(2) child(1)] by (auto intro: descendant.child)
next
  case (grandchild a b c t n)
  then show ?case
    using tree_step_parents [OF assms(2) grandchild(2)] by (auto intro: descendant.grandchild)
qed

text \<open>Every actor descends from the root.\<close>

lemma tree_step_new:
  assumes "tree_step wt receivers w w'" and "tasks w' i = Some t'" and "tasks w i = None"
  shows "\<exists>me n. tasks w me \<noteq> None \<and> parent_stop t' = (ActorOwner me, n)"
  using assms by (cases rule: tree_step.cases) (auto split: if_splits)

context actor_runtime
begin

lemma children_finished:
  assumes inv: "tree_inv receivers w" and a: "tasks w a = Some ta" "9 \<le> rank (phase ta)"
    and c: "tasks w c = Some t" "parent_stop t = (ActorOwner a, n)"
  shows "phase t = Finished"
proof -
  have "child_ok ta (generation w a) n (phase t)"
    using inv children_okD [of w c t a n] a c by (auto simp: tree_inv_def)
  with a(2) show ?thesis by (auto simp: child_ok_def dest: awaits_rank)
qed

lemma descendants_finished:
  assumes "descendant w a c" and inv: "tree_inv receivers w"
    and "tasks w a = Some ta" and "9 \<le> rank (phase ta)"
  shows "is_finished w c"
  using assms(1,3,4)
proof (induction rule: descendant.induct)
  case (child c t a n)
  then show ?case using children_finished [OF inv, of a ta c t n] by (simp add: is_finished_def)
next
  case (grandchild a b c t n)
  then obtain tb where "tasks w b = Some tb" "phase tb = Finished" by (auto simp: is_finished_def)
  then show ?case
    using children_finished [OF inv, of b tb c t n] grandchild by (simp add: is_finished_def)
qed

lemma sys_reach_root: "sys_reach env actor config root w \<Longrightarrow> tasks w root \<noteq> None"
proof (induction rule: sys_reach.induct)
  case (sys_next w w')
  then show ?case using tree_step_parents [OF sys_step_tree] by blast
qed (simp add: spawn_root_def spawn_def)

lemma sys_reach_descendant:
  assumes "sys_reach env actor config root w" and "tasks w i \<noteq> None"
  shows "tasks w root \<noteq> None \<and> (i = root \<or> descendant w root i)"
  using assms
proof (induction arbitrary: i rule: sys_reach.induct)
  case sys_start
  have "tasks (spawn_root env actor config root) j \<noteq> None \<longleftrightarrow> j = root" for j
    by (simp add: spawn_root_def spawn_def world_simps)
  with sys_start show ?case by blast
next
  case (sys_next w w')
  note tree = sys_step_tree [OF sys_next.hyps(2)]
  have keep: "tasks w' root \<noteq> None \<and> (j = root \<or> descendant w' root j)" if "tasks w j \<noteq> None" for j
  proof -
    from sys_next.IH [OF that] obtain tr where "tasks w root = Some tr" and j: "j = root \<or> descendant w root j"
      by blast
    with tree_step_parents [OF tree] have "tasks w' root \<noteq> None" by blast
    with j descendant_step [OF _ tree] show ?thesis by blast
  qed
  show ?case
  proof (cases "tasks w i")
    case (Some t)
    then show ?thesis by (intro keep) simp
  next
    case None
    then obtain me n t' where me: "tasks w me \<noteq> None" and t': "tasks w' i = Some t'"
      "parent_stop t' = (ActorOwner me, n)"
      using tree_step_new [OF tree] sys_next.prems by blast
    from keep [OF me] show ?thesis
      using child [OF t'] grandchild [OF _ t'] by blast
  qed
qed

end

end
