(* ===== verification/DeathWatch.thy ===== *)
theory DeathWatch
  imports ActorTree
begin

text \<open>
  Death watch: watching is race-free against termination, since registration and the closing of
  the registry exclude each other and a late watch signals itself. The invariants relate, for
  every actor, its phase with its mailbox and its registry, and for every watching actor the three
  places where its signal can be.
\<close>

section \<open>Mailboxes along the phases\<close>

definition mailbox_inv :: "('c \<Rightarrow> bool) \<Rightarrow> ('c, 'w, 'k, 'm, 's, 'e) world \<Rightarrow> bool" where
  "mailbox_inv connected w \<longleftrightarrow>
     (\<forall>a t. tasks w a = Some t \<longrightarrow>
        connected (item_chan (mailboxes w a)) = (rank (phase t) \<le> 3) \<and>
        (registry_of w a = None \<longleftrightarrow> 12 \<le> rank (phase t)) \<and> registry_wf (registry_of w a))"

lemma mailbox_invD:
  assumes "mailbox_inv connected w" and "tasks w a = Some t"
  shows "connected (item_chan (mailboxes w a)) = (rank (phase t) \<le> 3)"
    and "registry_of w a = None \<longleftrightarrow> 12 \<le> rank (phase t)" and "registry_wf (registry_of w a)"
  using assms unfolding mailbox_inv_def by blast+

text \<open>
  It is enough to look at the actors whose mailbox or phase changed.
\<close>

lemma mailbox_inv_update:
  assumes "mailbox_inv connected w"
    and "\<And>a t'. tasks w' a = Some t' \<Longrightarrow>
      (\<exists>t. tasks w a = Some t \<and> mailboxes w' a = mailboxes w a \<and>
           (rank (phase t') \<le> 3 \<longleftrightarrow> rank (phase t) \<le> 3) \<and> (12 \<le> rank (phase t') \<longleftrightarrow> 12 \<le> rank (phase t))) \<or>
      connected (item_chan (mailboxes w' a)) = (rank (phase t') \<le> 3) \<and>
        (registry_of w' a = None \<longleftrightarrow> 12 \<le> rank (phase t')) \<and> registry_wf (registry_of w' a)"
  shows "mailbox_inv connected w'"
  unfolding mailbox_inv_def
proof (intro allI impI)
  fix a t'
  assume "tasks w' a = Some t'"
  from assms(2) [OF this] mailbox_invD [OF assms(1)] show
    "connected (item_chan (mailboxes w' a)) = (rank (phase t') \<le> 3) \<and>
      (registry_of w' a = None \<longleftrightarrow> 12 \<le> rank (phase t')) \<and> registry_wf (registry_of w' a)"
    by (auto simp: registry_of_def)
qed

context actor_runtime
begin

lemma connected_ops:
  "connected (item_chan (snd (try_send_message (env_flume env) m mb))) = connected (item_chan mb)"
  "connected (item_chan (snd (sink_send_terminated (env_flume env) i mb))) = connected (item_chan mb)"
  "mailbox_recv (env_flume env) mb = Received x mb' \<Longrightarrow> connected (item_chan mb') = connected (item_chan mb)"
  "connected (item_chan (snd (drain_mailbox (env_flume env) mb))) = connected (item_chan mb)"
  "\<not> connected (item_chan (disconnect_mailbox (env_flume env) mb))"
  using mbx.recv_queue [of mb x mb'] drop_rx drain [of "item_chan mb"]
  by (auto simp: mbx.send_snd mbx.signal_snd drain_mailbox_def disconnect_mailbox_def split: prod.splits)

lemma registry_ops:
  "mailbox_recv (env_flume env) mb = Received x mb' \<Longrightarrow> registry mb' = registry mb"
  "registry (snd (drain_mailbox (env_flume env) mb)) = registry mb"
  "registry (disconnect_mailbox (env_flume env) mb) = registry mb"
  by (auto simp: mailbox_recv_def drain_mailbox_def disconnect_mailbox_def
      split: recv_poll.splits prod.splits)

text \<open>The parts of the invariant that an operation on the mailbox of \<open>i\<close> has to keep.\<close>

lemma mailbox_inv_put:
  assumes inv: "mailbox_inv connected w" and t: "tasks w me = Some t"
    and ts: "tasks w' = (tasks w)(me \<mapsto> t')"
    and ranks: "rank (phase t') \<le> 3 \<longleftrightarrow> rank (phase t) \<le> 3" "12 \<le> rank (phase t') \<longleftrightarrow> 12 \<le> rank (phase t)"
    and mbs: "mailboxes w' = (mailboxes w)(i := mb)"
    and mb: "connected (item_chan mb) = connected (item_chan (mailboxes w i))"
      "registry mb = None \<longleftrightarrow> registry (mailboxes w i) = None"
      "registry_wf (registry (mailboxes w i)) \<Longrightarrow> registry_wf (registry mb)"
  shows "mailbox_inv connected w'"
proof (rule mailbox_inv_update [OF inv])
  fix a t1
  assume "tasks w' a = Some t1"
  then obtain t0 where t0: "tasks w a = Some t0"
    and r: "rank (phase t1) \<le> 3 \<longleftrightarrow> rank (phase t0) \<le> 3" "12 \<le> rank (phase t1) \<longleftrightarrow> 12 \<le> rank (phase t0)"
    using t ranks by (cases "a = me") (auto simp: ts)
  show "(\<exists>t. tasks w a = Some t \<and> mailboxes w' a = mailboxes w a \<and>
           (rank (phase t1) \<le> 3 \<longleftrightarrow> rank (phase t) \<le> 3) \<and> (12 \<le> rank (phase t1) \<longleftrightarrow> 12 \<le> rank (phase t))) \<or>
      connected (item_chan (mailboxes w' a)) = (rank (phase t1) \<le> 3) \<and>
        (registry_of w' a = None \<longleftrightarrow> 12 \<le> rank (phase t1)) \<and> registry_wf (registry_of w' a)"
    using t0 r mb mailbox_invD [OF inv t0] by (cases "a = i") (simp_all add: mbs registry_of_def)
qed

lemma mailbox_inv_move:
  assumes "mailbox_inv connected w" and "tasks w me = Some t" and "tasks w' = (tasks w)(me \<mapsto> t')"
    and "rank (phase t') \<le> 3 \<longleftrightarrow> rank (phase t) \<le> 3" "12 \<le> rank (phase t') \<longleftrightarrow> 12 \<le> rank (phase t)"
    and "mailboxes w' = mailboxes w"
  shows "mailbox_inv connected w'"
  by (rule mailbox_inv_put [OF assms(1-5), of me "mailboxes w me"]) (simp_all add: assms(6))

lemma registry_add_None: "snd (registry_add x r) = None \<longleftrightarrow> r = None"
  by (simp add: registry_add_def split: option.splits)

lemma user_step_mailbox:
  assumes inv: "mailbox_inv connected w" and t: "tasks w me = Some t" and fresh: "tasks w (obs_fresh ob) = None"
    and ph: "rank (phase t) = 1" "\<And>p. rank (ph p) = 1" and step: "user_step env ob me t ph p w = Some w'"
  shows "mailbox_inv connected w'"
proof -
  from step obtain p' w1 where api: "api_step env (obs_fresh ob) me p w = Some (p', w1)"
    and w': "w' = goto me t (ph p') w1"
    by (auto simp: user_step_def split: option.splits prod.splits)
  note put = mailbox_inv_put [OF inv t, of w' "t\<lparr>phase := ph p'\<rparr>"]
  show ?thesis
  proof (cases p)
    case (Tell target m q)
    with api show ?thesis
      by (intro put [of target "snd (try_send_message (env_flume env) m (mailboxes w target))"])
         (auto simp: w' ph world_simps connected_ops split: if_splits)
  next
    case (Watch other q)
    with api have "watch (env_flume env) me other w = Some w1" by (auto split: if_splits)
    then show ?thesis
    proof (cases rule: watch_cases)
      case (registered r)
      from registered(1) have r: "r = None \<longleftrightarrow> registry_of w other = None"
          "registry_wf (registry_of w other) \<Longrightarrow> registry_wf r"
        using registry_add_None [of "make_watcher me" "registry_of w other"]
          registry_wf_add [of "registry_of w other" "make_watcher me"] by simp_all
      show ?thesis
        by (rule put [of other "(mailboxes w other)\<lparr>registry := r\<rparr>"])
           (use r in \<open>simp_all add: w' ph registered(2) world_simps\<close>)
    next
      case (terminated w2)
      then show ?thesis
        by (intro put [of me "snd (sink_send_terminated (env_flume env) other (mailboxes w me))"])
           (simp_all add: w' ph world_simps connected_ops)
    qed
  next
    case (Unwatch other q)
    with api show ?thesis
      by (intro put [of other "(mailboxes w other)\<lparr>registry := registry (mailboxes w' other)\<rparr>"])
         (auto simp: w' ph unwatch_def world_simps registry_wf_remove split: if_splits)
  next
    case (Spawn actor config q)
    with api have ts: "tasks w' = (tasks w)(obs_fresh ob \<mapsto> \<lparr>task_actor = actor, task_config = config,
          parent_stop = (ActorOwner me, generation w me), task_restarts = 0, phase = Starting\<rparr>,
          me \<mapsto> t\<lparr>phase := ph p'\<rparr>)"
      and mbs: "mailboxes w' = (mailboxes w)(obs_fresh ob := make_mailbox (env_flume env) (config_capacity config))"
      by (auto simp: w' spawn_with_config_def spawn_def world_simps Let_def)
    show ?thesis
      using unbounded_new t ph
      by (intro mailbox_inv_update [OF inv])
         (auto simp: ts mbs fresh make_mailbox_def registry_default_def registry_wf_def registry_of_def
           split: if_splits)
  qed (use api in simp)
qed

lemma receive_step_cases [consumes 1, case_names stop message signal]:
  assumes "receive_step env me t s up w = Some w'"
  obtains (stop) "w' = goto me t Draining w"
      "signalled (stops w (parent_stop t)) \<or> sender_gone (stops w (parent_stop t))"
  | (message) m mb where "mailbox_recv (env_flume env) (mailboxes w me) = Received (Message m) mb"
      "w' = goto me t (Handling up (receive_code env (task_actor t) me (Message m) s))
              (log_event (Delivered me (Message m)) (put_mailbox me mb w))"
  | (signal) other mb ph e where
      "mailbox_recv (env_flume env) (mailboxes w me) = Received (Terminated other) mb"
      "w' = goto me t ph (log_event e (put_watched me (removeAll other (watched w me)) (put_mailbox me mb w)))"
      "(ph, e) = (if other \<in> set (watched w me)
         then (Handling up (receive_code env (task_actor t) me (Terminated other) s), Delivered me (Terminated other))
         else (Receiving s up, SignalDropped me other))"
proof (cases "wt_changed (env_watch env) (stops w (parent_stop t))")
  case (Some u)
  then show ?thesis
    using assms that(1) stop.changed [of "stops w (parent_stop t)"]
    by (simp add: receive_step_def next_incoming_def)
next
  case None
  then obtain i mb where r: "mailbox_recv (env_flume env) (mailboxes w me) = Received i mb"
    using assms by (auto simp: receive_step_def next_incoming_def split: recv_poll.splits)
  show ?thesis
  proof (cases i)
    case (Message m)
    with None r assms show ?thesis
      by (intro that(2)) (auto simp: receive_step_def next_incoming_def)
  next
    case (Terminated other)
    with None r assms that(3) [of other mb] show ?thesis
      by (cases "other \<in> set (watched w me)")
         (simp_all add: receive_step_def next_incoming_def take_watched_for_def world_simps)
  qed
qed

lemma receive_step_mailbox:
  assumes inv: "mailbox_inv connected w" and t: "tasks w me = Some t" and ph: "phase t = Receiving s up"
    and step: "receive_step env me t s up w = Some w'"
  shows "mailbox_inv connected w'"
  using step
proof (cases rule: receive_step_cases)
  case stop
  then show ?thesis
    by (intro mailbox_inv_move [OF inv t, of _ "t\<lparr>phase := Draining\<rparr>"]) (simp_all add: world_simps ph)
next
  case (message m mb)
  let ?t = "t\<lparr>phase := Handling up (receive_code env (task_actor t) me (Message m) s)\<rparr>"
  from message show ?thesis
    by (intro mailbox_inv_put [OF inv t, of _ ?t me mb])
       (simp_all add: world_simps ph connected_ops registry_ops)
next
  case (signal other mb ph' e)
  then have "rank ph' = 1" by (auto split: if_splits)
  with signal show ?thesis
    by (intro mailbox_inv_put [OF inv t, of _ "t\<lparr>phase := ph'\<rparr>" me mb])
       (simp_all add: world_simps ph connected_ops registry_ops)
qed

text \<open>
  The steps of a task by what they touch besides its phase and the stop channels: most only move
  on, a few work on mailboxes, registries and what is watched.
\<close>

definition plain_phases :: "('k, 'm, 's, 'e) phase \<Rightarrow> ('k, 'm, 's, 'e) phase \<Rightarrow> bool" where
  "plain_phases p q \<longleftrightarrow> rank p \<le> rank q \<and>
     (rank p = 1 \<and> rank q \<le> 2 \<or> 4 \<le> rank p \<and> rank q \<le> 11)"

definition same_but_tasks ::
  "('c, 'w, 'k, 'm, 's, 'e) world \<Rightarrow> ('c, 'w, 'k, 'm, 's, 'e) world \<Rightarrow> bool" where
  "same_but_tasks w w' \<longleftrightarrow> mailboxes w' = mailboxes w \<and> watched w' = watched w \<and>
     root_watcher w' = root_watcher w \<and> terminated_tx w' = terminated_tx w \<and>
     terminated_sent w' = terminated_sent w \<and> system_holds w' = system_holds w \<and>
     sink_holds w' = sink_holds w \<and> stops w' (SystemOwner, 0) = stops w (SystemOwner, 0)"

lemma stop_children_closed_frame:
  assumes "stop_children_closed wt me n w = Some w1"
  shows "same_but_tasks w w1 \<and> tasks w1 = tasks w \<and> trace w1 = trace w"
  using assms
  by (auto simp: stop_children_closed_def same_but_tasks_def world_simps split: option.splits)

lemma await_restart_plain:
  "\<exists>t'. plain_phases (Failed up) (phase t') \<and> parent_stop t' = parent_stop t \<and>
     same_but_tasks w (await_restart wt now me t up w) \<and>
     tasks (await_restart wt now me t up w) = (tasks w)(me \<mapsto> t') \<and>
     trace (await_restart wt now me t up w) = trace w"
  by (rule exI [of _ "the (tasks (await_restart wt now me t up w) me)"])
     (auto simp: await_restart_def stop_children_def Let_def plain_phases_def same_but_tasks_def world_simps
       split: prod.splits restart.splits)

lemma backoff_step_cases:
  assumes "backoff_step env slept me t d w = Some w'"
  shows "w' = goto me t Draining w \<or>
    w' = goto me t (Initializing (init_code env (task_actor t) me)) (log_event (InitCalled me) w)"
  using assms by (auto simp: backoff_step_def Let_def split: option.splits interrupted.splits)

lemma plain_move:
  assumes "same_but_tasks w w1" and "tasks w1 = tasks w" and "trace w1 = tr"
  shows "same_but_tasks w (goto me t ph w1) \<and> tasks (goto me t ph w1) = (tasks w)(me \<mapsto> t\<lparr>phase := ph\<rparr>) \<and>
    trace (goto me t ph w1) = tr"
  using assms by (simp add: same_but_tasks_def world_simps)

lemma phase_step_cases [consumes 1, case_names start init handle receive plain drain disconnect
    take_watched unregister take_watchers signal finish]:
  assumes step: "phase_step env ob me t w = Some w'"
  obtains (start) "phase t = Starting" "w' = start_task env me t w"
  | (init) p where "phase t = Initializing p" "user_step env ob me t Initializing p w = Some w'"
  | (handle) up p where "phase t = Handling up p" "user_step env ob me t (Handling up) p w = Some w'"
  | (receive) s up where "phase t = Receiving s up" "receive_step env me t s up w = Some w'"
  | (plain) t' es where "plain_phases (phase t) (phase t')" "same_but_tasks w w'"
      "tasks w' = (tasks w)(me \<mapsto> t')" "parent_stop t' = parent_stop t"
      "trace w' = es @ trace w" "es \<in> {[], [InitCalled me], [ActorDropped me]}"
  | (drain) "phase t = Draining" "w' = terminate_drain (env_flume env) me t w"
  | (disconnect) drained where "phase t = Disconnecting drained"
      "w' = terminate_disconnect (env_flume env) me t drained w"
  | (take_watched) "phase t = TakingWatched" "w' = goto me t (Unregistering (watched w me)) (put_watched me [] w)"
  | (unregister) other rest where "phase t = Unregistering (other # rest)"
      "w' = terminate_unregister me t other rest w"
  | (take_watchers) "phase t = TakingWatchers" "w' = terminate_take_watchers me t w"
  | (signal) wtc rest where "phase t = Signaling (wtc # rest)"
      "w' = goto me t (Signaling rest) (watcher_send_terminated env me wtc w)"
  | (finish) "phase t = Signaling []" "w' = finish_task (env_watch env) me t w"
proof -
  have same [simp]: "same_but_tasks w w" by (simp add: same_but_tasks_def)
  have pl: thesis if "plain_phases (phase t) ph" "w' = goto me t ph w1" "same_but_tasks w w1"
      "tasks w1 = tasks w" "trace w1 = es @ trace w" "es \<in> {[], [InitCalled me], [ActorDropped me]}" for ph w1 es
    using plain_move [OF that(3,4,5), of me t ph] plain [of "t\<lparr>phase := ph\<rparr>" es] that by simp
  show thesis
  proof (cases "phase t")
    case (Initializing p)
    then show thesis
    proof (cases p)
      case (Ret r)
      with Initializing step show thesis
        by (intro pl [of "case catch_and_log r of Some s \<Rightarrow> Receiving s (obs_now ob) | None \<Rightarrow> Failed None" w "[]"])
           (auto simp: phase_step_eq init_done_def plain_phases_def split: option.splits)
    qed (use Initializing step init in \<open>auto simp: phase_step_eq\<close>)
  next
    case (Handling up p)
    then show thesis
    proof (cases p)
      case (Ret r)
      with Handling step show thesis
        by (intro pl [of "case catch_and_log r of Some (Continue s) \<Rightarrow> Receiving s up | Some Stop \<Rightarrow> Draining
              | None \<Rightarrow> Failed (Some up)" w "[]"])
           (auto simp: phase_step_eq receive_incoming_def plain_phases_def split: option.splits control.splits)
    qed (use Handling step handle in \<open>auto simp: phase_step_eq\<close>)
  next
    case (Failed up)
    with step await_restart_plain [of up t w "env_watch env" "obs_now ob" me] show thesis
      by (auto simp: phase_step_eq intro: plain [of _ "[]"])
  next
    case (RestartStopping d n)
    with step obtain w1 where "stop_children_closed (env_watch env) me n w = Some w1"
      "w' = goto me t (BackingOff d) w1" by (auto simp: phase_step_eq)
    then show thesis
      using stop_children_closed_frame RestartStopping by (intro pl [of "BackingOff d" w1 "[]"])
        (auto simp: plain_phases_def)
  next
    case (AwaitingChildren n)
    with step obtain w1 where "stop_children_closed (env_watch env) me n w = Some w1"
      "w' = goto me t DroppingContext w1" by (auto simp: phase_step_eq)
    then show thesis
      using stop_children_closed_frame AwaitingChildren by (intro pl [of DroppingContext w1 "[]"])
        (auto simp: plain_phases_def)
  next
    case (BackingOff d)
    with step backoff_step_cases [of "obs_slept ob" me t d w w'] show thesis
      using pl [of Draining w "[]"] pl [of "Initializing (init_code env (task_actor t) me)" "log_event (InitCalled me) w" "[InitCalled me]"]
      by (auto simp: phase_step_eq plain_phases_def same_but_tasks_def world_simps)
  next
    case StoppingChildren
    with step show thesis
      by (intro pl [of "AwaitingChildren (generation w me)" "stop_children (env_watch env) me w" "[]"])
         (auto simp: phase_step_eq stop_children_def Let_def plain_phases_def same_but_tasks_def world_simps)
  next
    case DroppingContext
    with step show thesis
      by (intro pl [of DroppingActor "drop_context (env_watch env) me w" "[]"])
         (auto simp: phase_step_eq plain_phases_def same_but_tasks_def drop_context_def world_simps)
  next
    case DroppingActor
    with step show thesis
      by (intro pl [of TakingWatchers "log_event (ActorDropped me) w" "[ActorDropped me]"])
         (auto simp: phase_step_eq plain_phases_def same_but_tasks_def world_simps)
  next
    case (Unregistering ids)
    then show thesis
      using step unregister pl [of StoppingChildren w "[]"]
      by (cases ids) (auto simp: phase_step_eq plain_phases_def)
  next
    case (DroppingQueued ms)
    then show thesis
      using step pl [of TakingWatched w "[]"] by (auto simp: phase_step_eq plain_phases_def)
  next
    case (Signaling ws)
    then show thesis using step signal finish by (cases ws) (auto simp: phase_step_eq)
  qed (use step start receive drain disconnect take_watched take_watchers in
        \<open>auto simp: phase_step_eq take_watched_def\<close>)
qed

lemma start_task_frame [world_simps]:
  "tasks (start_task env me t w) = (tasks w)(me \<mapsto> t\<lparr>phase := Initializing (init_code env (task_actor t) me)\<rparr>)"
  "mailboxes (start_task env me t w) = mailboxes w"
  "watched (start_task env me t w) = (watched w)(me := [])"
  "trace (start_task env me t w) = InitCalled me # trace w"
  "root_watcher (start_task env me t w) = root_watcher w"
  "terminated_tx (start_task env me t w) = terminated_tx w"
  "terminated_sent (start_task env me t w) = terminated_sent w"
  "system_holds (start_task env me t w) = system_holds w"
  "sink_holds (start_task env me t w) = sink_holds w"
  by (simp_all add: start_task_def world_simps Let_def)

lemma finish_task_frame [world_simps]:
  "tasks (finish_task wt me t w) = (tasks w)(me \<mapsto> t\<lparr>phase := Finished\<rparr>)"
  "mailboxes (finish_task wt me t w) = mailboxes w" "watched (finish_task wt me t w) = watched w"
  "trace (finish_task wt me t w) = trace w" "root_watcher (finish_task wt me t w) = root_watcher w"
  "terminated_tx (finish_task wt me t w) = terminated_tx w"
  "terminated_sent (finish_task wt me t w) = terminated_sent w"
  "system_holds (finish_task wt me t w) = system_holds w" "sink_holds (finish_task wt me t w) = sink_holds w"
  by (simp_all add: finish_task_def world_simps)

lemma watcher_send_mailboxes:
  "mailboxes (watcher_send_terminated env me wtc w) =
     (case watcher_sink wtc of
        MailboxSink target \<Rightarrow>
          (mailboxes w)(target := snd (sink_send_terminated (env_flume env) me (mailboxes w target)))
      | RootSink \<Rightarrow> mailboxes w)"
  by (auto simp: watcher_send_terminated_def root_send_terminated_def world_simps split: terminated_sink.splits)

lemma phase_step_mailbox:
  assumes inv: "mailbox_inv connected w" and t: "tasks w me = Some t" and fresh: "tasks w (obs_fresh ob) = None"
    and step: "phase_step env ob me t w = Some w'"
  shows "mailbox_inv connected w'"
  using step
proof (cases rule: phase_step_cases)
  case start
  then show ?thesis
    by (intro mailbox_inv_move [OF inv t, of _ "t\<lparr>phase := Initializing (init_code env (task_actor t) me)\<rparr>"])
       (simp_all add: world_simps)
next
  case (init p)
  then show ?thesis by (intro user_step_mailbox [OF inv t fresh, of Initializing p w']) simp_all
next
  case (handle up p)
  then show ?thesis by (intro user_step_mailbox [OF inv t fresh, of "Handling up" p w']) simp_all
next
  case (receive s up)
  then show ?thesis by (intro receive_step_mailbox [OF inv t])
next
  case (plain t' es)
  then show ?thesis
    by (intro mailbox_inv_move [OF inv t, of _ t']) (auto simp: plain_phases_def same_but_tasks_def)
next
  case drain
  then show ?thesis
    using connected_ops(4) [of "mailboxes w me"] registry_ops(2) [of "mailboxes w me"]
    by (intro mailbox_inv_put [OF inv t, of w' "t\<lparr>phase := Disconnecting (fst (drain_mailbox (env_flume env) (mailboxes w me)))\<rparr>"
          me "snd (drain_mailbox (env_flume env) (mailboxes w me))"])
       (auto simp: terminate_drain_def world_simps split: prod.splits)
next
  case (disconnect drained)
  then show ?thesis
    using mailbox_invD [OF inv t] connected_ops(5) registry_ops(3)
    by (intro mailbox_inv_update [OF inv]) (auto simp: terminate_disconnect_def world_simps split: if_splits)
next
  case take_watched
  then show ?thesis
    by (intro mailbox_inv_move [OF inv t, of _ "t\<lparr>phase := Unregistering (watched w me)\<rparr>"]) (simp_all add: world_simps)
next
  case (unregister other rest)
  then show ?thesis
    by (intro mailbox_inv_put [OF inv t, of _ "t\<lparr>phase := Unregistering rest\<rparr>" other
          "(mailboxes w other)\<lparr>registry := registry_remove me (registry (mailboxes w other))\<rparr>"])
       (simp_all add: terminate_unregister_def world_simps registry_wf_remove)
next
  case take_watchers
  then show ?thesis
    using mailbox_invD [OF inv t]
    by (intro mailbox_inv_update [OF inv])
       (auto simp: terminate_take_watchers_def take_watchers_def registry_take_def registry_wf_def world_simps
         split: if_splits option.splits)
next
  case (signal wtc rest)
  show ?thesis
  proof (cases "watcher_sink wtc")
    case (MailboxSink target)
    with signal show ?thesis
      by (intro mailbox_inv_put [OF inv t, of w' "t\<lparr>phase := Signaling rest\<rparr>" target
            "snd (sink_send_terminated (env_flume env) me (mailboxes w target))"])
         (simp_all add: world_simps watcher_send_mailboxes connected_ops)
  next
    case RootSink
    with signal show ?thesis
      by (intro mailbox_inv_move [OF inv t, of w' "t\<lparr>phase := Signaling rest\<rparr>"])
         (simp_all add: world_simps watcher_send_mailboxes)
  qed
next
  case finish
  then show ?thesis
    by (intro mailbox_inv_move [OF inv t, of _ "t\<lparr>phase := Finished\<rparr>"]) (simp_all add: world_simps)
qed

lemma mailbox_inv_tell:
  assumes inv: "mailbox_inv connected w" and t: "tasks w target = Some t"
  shows "mailbox_inv connected (tell (env_flume env) from_id target m w)"
  by (rule mailbox_inv_put [OF inv t, of _ t target "snd (try_send_message (env_flume env) m (mailboxes w target))"])
     (simp_all add: world_simps connected_ops fun_upd_idem t)

lemma watch_root_frame [world_simps]:
  "tasks (watch_root wt root i w) = tasks w" "watched (watch_root wt root i w) = watched w"
  "trace (watch_root wt root i w) = trace w"
  "mailboxes (watch_root wt root i w) = (mailboxes w)(root :=
     (mailboxes w root)\<lparr>registry := snd (registry_add (watcher_new i RootSink) (registry_of w root))\<rparr>)"
  by (simp_all add: watch_root_def root_send_terminated_def world_simps Let_def split: prod.splits sum.splits)

lemma mailbox_inv_watch_root:
  assumes inv: "mailbox_inv connected w" and t: "tasks w root = Some t"
  shows "mailbox_inv connected (watch_root wt root i w)"
  by (rule mailbox_inv_put [OF inv t, of _ t root "(mailboxes w root)\<lparr>registry :=
        snd (registry_add (watcher_new i RootSink) (registry_of w root))\<rparr>"])
     (simp_all add: world_simps registry_add_None registry_wf_add fun_upd_idem t)

lemma mailbox_inv_init: "mailbox_inv connected (spawn_root env actor config root)"
  using unbounded_new
  by (auto simp: mailbox_inv_def spawn_root_def spawn_def make_mailbox_def registry_default_def
      registry_wf_def world_simps split: if_splits)

lemma sys_reach_mailbox: "sys_reach env actor config root w \<Longrightarrow> mailbox_inv connected w"
proof (induction rule: sys_reach.induct)
  case sys_start
  show ?case by (rule mailbox_inv_init)
next
  case (sys_next w w')
  from sys_next.hyps(2) show ?case
  proof (cases rule: sys_step.cases)
    case (step_task ob me)
    then show ?thesis
      using phase_step_mailbox [OF sys_next.IH] by (auto simp: task_step_def fresh_id_def split: option.splits)
  next
    case (step_tell target m)
    then show ?thesis using mailbox_inv_tell [OF sys_next.IH] by auto
  next
    case (step_watch_root i)
    then show ?thesis
      using mailbox_inv_watch_root [OF sys_next.IH] sys_reach_root [OF sys_next.hyps(1)] by auto
  qed (use sys_next.IH in \<open>auto simp: mailbox_inv_def system_stop_def drop_system_def world_simps Let_def\<close>)
qed

end

section \<open>Watchers\<close>

definition entries :: "watcher_registry \<Rightarrow> (actor_id \<times> watcher) set" where
  "entries r = (case r of None \<Rightarrow> {} | Some ws \<Rightarrow> set ws)"

text \<open>The watchers an actor has taken from its registry and not yet signalled.\<close>

definition pending :: "('c, 'w, 'k, 'm, 's, 'e) world \<Rightarrow> actor_id \<Rightarrow> watcher set" where
  "pending w a = (case tasks w a of
     Some t \<Rightarrow> (case phase t of Signaling ws \<Rightarrow> set ws | _ \<Rightarrow> {}) | None \<Rightarrow> {})"

definition valid_watcher :: "actor_id \<Rightarrow> ('c, 'w, 'k, 'm, 's, 'e) world \<Rightarrow> actor_id \<Rightarrow> watcher \<Rightarrow> bool" where
  "valid_watcher root w a x \<longleftrightarrow>
     x = make_watcher (watcher_id x) \<and> tasks w (watcher_id x) \<noteq> None \<or>
     a = root \<and> root_watcher w = Some (watcher_id x) \<and> watcher_sink x = RootSink"

definition watchers_inv :: "actor_id \<Rightarrow> ('c, 'w, 'k, 'm, 's, 'e) world \<Rightarrow> bool" where
  "watchers_inv root w \<longleftrightarrow>
     (\<forall>a. \<forall>x \<in> snd ` entries (registry_of w a) \<union> pending w a. valid_watcher root w a x) \<and>
     (\<forall>i. root_watcher w = Some i \<longrightarrow> tasks w i = None)"

lemma registry_add_Ok:
  "registry_add x r = (Ok (), r') \<Longrightarrow> registered r' = insert (watcher_id x) (registered r)"
  using registry_add_open [of r _ x] by (cases r) (auto simp: registry_add_closed)

lemma watcher_id_make [simp]: "watcher_id (make_watcher me) = me"
  by (simp add: make_watcher_def watcher_new_def)

lemma registered_entries: "registered r = fst ` entries r"
  by (simp add: registered_def entries_def split: option.splits)

lemma entries_add: "entries (snd (registry_add x r)) \<subseteq> insert (watcher_id x, x) (entries r)"
  by (auto simp: registry_add_def entries_def split: option.splits)

lemma entries_remove: "entries (registry_remove i r) \<subseteq> entries r"
  by (auto simp: registry_remove_def entries_def set_delete_alist split: option.splits)

lemma entries_default [simp]: "entries registry_default = {}"
  by (simp add: entries_def registry_default_def)

lemma entries_take: "set (fst (registry_take r)) = snd ` entries r"
  by (simp add: registry_take_def entries_def split: option.splits)

text \<open>
  How far registries and pending signals can change in one step: new entries are the running
  actor's own, and what is pending comes from the registry.
\<close>

definition watchers_grow ::
  "actor_id \<Rightarrow> ('c, 'w, 'k, 'm, 's, 'e) world \<Rightarrow> ('c, 'w, 'k, 'm, 's, 'e) world \<Rightarrow> bool" where
  "watchers_grow me w w' \<longleftrightarrow>
     (\<forall>a. entries (registry_of w' a) \<subseteq> insert (me, make_watcher me) (entries (registry_of w a))) \<and>
     (\<forall>a. pending w' a \<subseteq> pending w a \<union> snd ` entries (registry_of w a))"

lemma watchers_inv_grow:
  assumes inv: "watchers_inv root w" and grow: "watchers_grow me w w'" and me: "tasks w me \<noteq> None"
    and ts: "\<And>i. tasks w i \<noteq> None \<Longrightarrow> tasks w' i \<noteq> None"
    and new: "\<And>i. root_watcher w = Some i \<Longrightarrow> tasks w' i = None" and rw: "root_watcher w' = root_watcher w"
  shows "watchers_inv root w'"
proof -
  have valid: "valid_watcher root w' a x" if "valid_watcher root w a x" for a x
    using that ts rw by (auto simp: valid_watcher_def)
  have mine: "valid_watcher root w' a (make_watcher me)" for a
    using ts [OF me] by (simp add: valid_watcher_def make_watcher_def watcher_new_def)
  have sub: "snd ` entries (registry_of w' a) \<union> pending w' a \<subseteq>
      insert (make_watcher me) (snd ` entries (registry_of w a) \<union> pending w a)" for a
  proof -
    have e: "entries (registry_of w' a) \<subseteq> insert (me, make_watcher me) (entries (registry_of w a))"
      and p: "pending w' a \<subseteq> pending w a \<union> snd ` entries (registry_of w a)"
      using grow unfolding watchers_grow_def by blast+
    from image_mono [OF e, of snd] p show ?thesis by auto
  qed
  have "valid_watcher root w' a x" if "x \<in> snd ` entries (registry_of w' a) \<union> pending w' a" for a x
  proof -
    from that sub [of a] have "x = make_watcher me \<or> x \<in> snd ` entries (registry_of w a) \<union> pending w a"
      by blast
    with inv valid mine show ?thesis unfolding watchers_inv_def by blast
  qed
  with new rw show ?thesis unfolding watchers_inv_def by simp
qed

lemma watchers_grow_mailbox:
  assumes "tasks w me = Some t" and "tasks w' = (tasks w)(me \<mapsto> t')"
    and "\<And>ws. phase t' = Signaling ws \<Longrightarrow> set ws \<subseteq> pending w me \<union> snd ` entries (registry_of w me)"
    and "\<And>a. entries (registry_of w' a) \<subseteq> insert (me, make_watcher me) (entries (registry_of w a))"
  shows "watchers_grow me w w'"
  using assms by (auto simp: watchers_grow_def pending_def split: phase.splits if_splits)

context actor_runtime
begin

lemma rank_not_signaling: "rank ph \<noteq> 12 \<Longrightarrow> ph \<noteq> Signaling ws"
  by auto

lemma user_step_watchers:
  assumes t: "tasks w me = Some t" and fresh: "tasks w (obs_fresh ob) = None"
    and ph: "\<And>p. rank (ph p) = 1" and step: "user_step env ob me t ph p w = Some w'"
  shows "watchers_grow me w w'"
proof -
  from step obtain p' w1 where api: "api_step env (obs_fresh ob) me p w = Some (p', w1)"
    and w': "w' = goto me t (ph p') w1"
    by (auto simp: user_step_def split: option.splits prod.splits)
  have nosig: "ph p' \<noteq> Signaling ws" for ws using ph [of p'] by auto
  have id: "watcher_id (make_watcher me) = me" by (simp add: make_watcher_def watcher_new_def)
  show ?thesis
  proof (cases p)
    case (Watch other q)
    with api have "watch (env_flume env) me other w = Some w1" by (auto split: if_splits)
    then show ?thesis
      by (cases rule: watch_cases)
         (rule watchers_grow_mailbox [OF t, of _ "t\<lparr>phase := ph p'\<rparr>"];
          use entries_add [of "make_watcher me" "registry_of w other"] in
          \<open>force simp: w' nosig id world_simps split: if_splits\<close>)+
  next
    case (Spawn actor config q)
    with api fresh t show ?thesis
      by (auto simp: watchers_grow_def pending_def w' spawn_with_config_def spawn_def make_mailbox_def
          world_simps Let_def nosig split: if_splits phase.splits)
  qed (use api nosig entries_remove in \<open>fastforce intro!: watchers_grow_mailbox [OF t, of _ "t\<lparr>phase := ph p'\<rparr>"]
        simp: w' unwatch_def world_simps split: if_splits\<close>)+
qed

lemma watcher_send_registry:
  "registry_of (watcher_send_terminated env me wtc w) a = registry_of w a"
  by (simp add: registry_of_def watcher_send_mailboxes registry_send split: terminated_sink.splits)

lemma receive_step_registry:
  assumes "receive_step env me t s up w = Some w'"
  shows "registry_of w' a = registry_of w a"
    and "\<exists>ph. rank ph \<le> 2 \<and> tasks w' = (tasks w)(me \<mapsto> t\<lparr>phase := ph\<rparr>)"
proof -
  show "registry_of w' a = registry_of w a"
    using assms by (cases rule: receive_step_cases) (auto simp: registry_ops world_simps)
  show "\<exists>ph. rank ph \<le> 2 \<and> tasks w' = (tasks w)(me \<mapsto> t\<lparr>phase := ph\<rparr>)"
    using assms
  proof (cases rule: receive_step_cases)
    case (signal other mb ph e)
    then show ?thesis by (intro exI [of _ ph]) (auto simp: world_simps split: if_splits)
  next
    case stop
    then show ?thesis by (intro exI [of _ Draining]) (simp add: world_simps)
  next
    case (message m mb)
    then show ?thesis
      by (intro exI [of _ "Handling up (receive_code env (task_actor t) me (Message m) s)"]) (simp add: world_simps)
  qed
qed

lemma phase_step_watchers:
  assumes t: "tasks w me = Some t" and fresh: "tasks w (obs_fresh ob) = None"
    and step: "phase_step env ob me t w = Some w'"
  shows "watchers_grow me w w'"
  using step
proof (cases rule: phase_step_cases)
  case (init p)
  then show ?thesis by (intro user_step_watchers [OF t fresh, of Initializing p]) simp_all
next
  case (handle up p)
  then show ?thesis by (intro user_step_watchers [OF t fresh, of "Handling up" p]) simp_all
next
  case (receive s up)
  then obtain ph where "rank ph \<le> 2" "tasks w' = (tasks w)(me \<mapsto> t\<lparr>phase := ph\<rparr>)"
    using receive_step_registry(2) by blast
  with receive receive_step_registry(1) show ?thesis
    by (intro watchers_grow_mailbox [OF t, of _ "t\<lparr>phase := ph\<rparr>"]) auto
next
  case (plain t' es)
  then show ?thesis
    by (intro watchers_grow_mailbox [OF t, of _ t'])
       (auto simp: plain_phases_def same_but_tasks_def registry_of_def)
next
  case (signal wtc rest)
  then show ?thesis
    by (intro watchers_grow_mailbox [OF t, of _ "t\<lparr>phase := Signaling rest\<rparr>"])
       (auto simp: world_simps(1-6) goto_frame signal_frame watcher_send_registry [unfolded registry_of_def] pending_def t)
next
  case take_watchers
  then show ?thesis
    using entries_take [of "registry_of w me"]
    by (intro watchers_grow_mailbox [OF t, of _ "t\<lparr>phase := Signaling (fst (registry_take (registry_of w me)))\<rparr>"])
       (auto simp: terminate_take_watchers_def take_watchers_def registry_take_def world_simps entries_def
         split: prod.splits option.splits)
next
  case drain
  then show ?thesis
    using registry_ops(2) [of "mailboxes w me"]
    by (intro watchers_grow_mailbox [OF t, of w'
          "t\<lparr>phase := Disconnecting (fst (drain_mailbox (env_flume env) (mailboxes w me)))\<rparr>"])
       (auto simp: terminate_drain_def world_simps split: prod.splits)
next
  case (unregister other rest)
  then show ?thesis
    using entries_remove [of me "registry_of w other"]
    by (intro watchers_grow_mailbox [OF t, of w' "t\<lparr>phase := Unregistering rest\<rparr>"])
       (auto simp: terminate_unregister_def world_simps)
qed (auto intro!: watchers_grow_mailbox [OF t] simp: terminate_disconnect_def registry_ops world_simps split: if_splits)

definition same_system ::
  "('c, 'w, 'k, 'm, 's, 'e) world \<Rightarrow> ('c, 'w, 'k, 'm, 's, 'e) world \<Rightarrow> bool" where
  "same_system w w' \<longleftrightarrow> root_watcher w' = root_watcher w \<and> terminated_tx w' = terminated_tx w \<and>
     terminated_sent w' = terminated_sent w \<and> system_holds w' = system_holds w \<and> sink_holds w' = sink_holds w"

lemma same_system_goto [simp]: "same_system w (goto me t ph w1) = same_system w w1"
  by (simp add: same_system_def world_simps)

lemma user_step_system:
  assumes "user_step env ob me t ph p w = Some w'"
  shows "same_system w w' \<and> (\<forall>i. tasks w' i \<noteq> None \<longrightarrow> tasks w i \<noteq> None \<or> i = me \<or> i = obs_fresh ob)"
proof -
  from assms obtain p' w1 where api: "api_step env (obs_fresh ob) me p w = Some (p', w1)"
    and w': "w' = goto me t (ph p') w1"
    by (auto simp: user_step_def split: option.splits prod.splits)
  show ?thesis
  proof (cases p)
    case (Watch other q)
    with api have watch: "watch (env_flume env) me other w = Some w1" by (auto split: if_splits)
    then have "same_system w w1" by (cases rule: watch_cases) (simp_all add: same_system_def world_simps)
    with watch_frame(1) [OF watch] show ?thesis by (simp add: w' world_simps)
  qed (use api in \<open>auto simp: w' same_system_def unwatch_def spawn_with_config_def spawn_def Let_def world_simps
        split: if_splits\<close>)
qed

lemma watcher_send_system:
  "root_watcher (watcher_send_terminated env me wtc w) = root_watcher w"
  "system_holds (watcher_send_terminated env me wtc w) = system_holds w"
  by (auto simp: watcher_send_terminated_def root_send_terminated_def drop_sink_def Let_def world_simps
      split: terminated_sink.splits)

lemma phase_step_system:
  assumes "phase_step env ob me t w = Some w'"
  shows "same_system w w' \<or> (\<exists>wtc rest. phase t = Signaling (wtc # rest) \<and> watcher_sink wtc = RootSink)"
    and "root_watcher w' = root_watcher w"
    and "\<forall>i. tasks w' i \<noteq> None \<longrightarrow> tasks w i \<noteq> None \<or> i = me \<or> i = obs_fresh ob"
proof -
  have "(same_system w w' \<or> (\<exists>wtc rest. phase t = Signaling (wtc # rest) \<and> watcher_sink wtc = RootSink)) \<and>
    root_watcher w' = root_watcher w \<and>
    (\<forall>i. tasks w' i \<noteq> None \<longrightarrow> tasks w i \<noteq> None \<or> i = me \<or> i = obs_fresh ob)"
    using assms
  proof (cases rule: phase_step_cases)
    case (init p)
    then show ?thesis using user_step_system by (fastforce simp: same_system_def)
  next
    case (handle up p)
    then show ?thesis using user_step_system by (fastforce simp: same_system_def)
  next
    case (receive s up)
    then have "same_system w w'"
      by (cases rule: receive_step_cases [OF receive(2)]) (auto simp: same_system_def world_simps)
    with receive receive_step_registry(2) show ?thesis by (fastforce simp: same_system_def)
  next
    case (signal wtc rest)
    then show ?thesis
      by (auto simp: same_system_def watcher_send_terminated_def drop_sink_def root_send_terminated_def Let_def
          world_simps split: terminated_sink.splits)
  qed (auto simp: same_system_def same_but_tasks_def terminate_drain_def terminate_disconnect_def
      terminate_unregister_def terminate_take_watchers_def world_simps split: prod.splits)
  then show "same_system w w' \<or> (\<exists>wtc rest. phase t = Signaling (wtc # rest) \<and> watcher_sink wtc = RootSink)"
    "root_watcher w' = root_watcher w"
    "\<forall>i. tasks w' i \<noteq> None \<longrightarrow> tasks w i \<noteq> None \<or> i = me \<or> i = obs_fresh ob" by blast+
qed

lemma watchers_inv_init: "watchers_inv root (spawn_root env actor config root)"
  by (simp add: watchers_inv_def pending_def spawn_root_def spawn_def make_mailbox_def world_simps)

lemma watchers_inv_watch_root:
  assumes inv: "watchers_inv root w" and none: "root_watcher w = None" and fresh: "fresh_id w i"
  shows "watchers_inv root (watch_root wt root i w)"
proof -
  let ?w = "watch_root wt root i w"
  have rw: "root_watcher ?w = Some i"
    by (simp add: watch_root_def root_send_terminated_def drop_sink_def Let_def world_simps
        split: prod.splits sum.splits)
  have pend: "pending ?w a = pending w a" for a by (simp add: pending_def world_simps)
  have "entries (registry_of ?w a) \<subseteq>
      (if a = root then insert (i, watcher_new i RootSink) (entries (registry_of w a)) else entries (registry_of w a))" for a
    using entries_add [of "watcher_new i RootSink" "registry_of w root"]
    by (auto simp: registry_of_def watch_root_frame watcher_new_def)
  moreover have "valid_watcher root ?w a x" if "valid_watcher root w a x" for a x
    using that none by (auto simp: valid_watcher_def world_simps)
  moreover have "valid_watcher root ?w root (watcher_new i RootSink)"
    using rw by (simp add: valid_watcher_def watcher_new_def)
  ultimately have "valid_watcher root ?w a x"
    if "x \<in> snd ` entries (registry_of ?w a) \<union> pending ?w a" for a x
    using that inv unfolding pend watchers_inv_def by (fastforce split: if_splits)
  with rw fresh show ?thesis unfolding watchers_inv_def by (simp add: fresh_id_def world_simps)
qed

lemma watchers_inv_same:
  assumes "watchers_inv root w" and "\<And>a. registry_of w' a = registry_of w a" and "tasks w' = tasks w"
    and "root_watcher w' = root_watcher w"
  shows "watchers_inv root w'"
  using assms by (simp add: watchers_inv_def valid_watcher_def pending_def)

lemma sys_step_watchers:
  assumes step: "sys_step env root w w'" and inv: "watchers_inv root w"
  shows "watchers_inv root w'"
  using step
proof (cases rule: sys_step.cases)
  case (step_task ob me)
  then obtain t where t: "tasks w me = Some t" and ps: "phase_step env ob me t w = Some w'"
    by (auto simp: task_step_def split: option.splits)
  have fresh: "tasks w (obs_fresh ob) = None" "root_watcher w \<noteq> Some (obs_fresh ob)"
    using step_task by (auto simp: fresh_id_def)
  show ?thesis
  proof (rule watchers_inv_grow [OF inv phase_step_watchers [OF t fresh(1) ps]])
    show "tasks w' i \<noteq> None" if "tasks w i \<noteq> None" for i
      using that tree_step_parents [OF sys_step_tree [OF step]] by blast
    show "tasks w' i = None" if "root_watcher w = Some i" for i
      using that phase_step_system(3) [OF ps] inv t fresh by (force simp: watchers_inv_def)
  qed (use t phase_step_system(2) [OF ps] in auto)
next
  case (step_watch_root i)
  then show ?thesis using watchers_inv_watch_root [OF inv] by simp
qed (auto intro!: watchers_inv_same [OF inv] simp: system_stop_def drop_system_def Let_def world_simps)

lemma sys_reach_watchers: "sys_reach env actor config root w \<Longrightarrow> watchers_inv root w"
  by (induction rule: sys_reach.induct) (auto intro: watchers_inv_init sys_step_watchers)

end

section \<open>No signal is lost\<close>

text \<open>
  Where the signal of \<open>b\<close> for its watcher \<open>a\<close> is: \<open>a\<close> is registered, or \<open>b\<close> is about
  to signal it, or the signal is in the mailbox of \<open>a\<close>.
\<close>

definition kept :: "('c \<Rightarrow> 'm incoming list) \<Rightarrow> ('c, 'w, 'k, 'm, 's, 'e) world \<Rightarrow> actor_id \<Rightarrow> actor_id \<Rightarrow> bool" where
  "kept contents w a b \<longleftrightarrow>
     a \<in> registered (registry_of w b) \<or> make_watcher a \<in> pending w b \<or>
     Terminated b \<in> set (contents (item_chan (mailboxes w a)))"

definition watch_inv :: "('c \<Rightarrow> 'm incoming list) \<Rightarrow> ('c, 'w, 'k, 'm, 's, 'e) world \<Rightarrow> bool" where
  "watch_inv contents w \<longleftrightarrow>
     (\<forall>a b. b \<in> set (watched w a) \<longrightarrow> tasks w b \<noteq> None \<and>
        (\<exists>t. tasks w a = Some t \<and> 1 \<le> rank (phase t) \<and> (rank (phase t) \<le> 2 \<longrightarrow> kept contents w a b)))"

lemma watch_invD:
  assumes "watch_inv contents w" and "b \<in> set (watched w a)"
  shows "tasks w b \<noteq> None" and "\<exists>t. tasks w a = Some t \<and> 1 \<le> rank (phase t)"
    and "tasks w a = Some t \<Longrightarrow> rank (phase t) \<le> 2 \<Longrightarrow> kept contents w a b"
  using assms unfolding watch_inv_def by fastforce+

text \<open>
  A step of \<open>me\<close> that watches nothing new keeps the invariant if it keeps every signal of an
  actor whose mailbox is not yet drained.
\<close>

lemma watch_inv_me:
  assumes inv: "watch_inv contents w" and t: "tasks w me = Some t" and ts: "tasks w' = (tasks w)(me \<mapsto> t')"
    and r: "rank (phase t) \<le> rank (phase t')"
    and sub: "\<And>a. set (watched w' a) \<subseteq> set (watched w a)"
    and keep: "\<And>a b. b \<in> set (watched w' a) \<Longrightarrow> (a = me \<Longrightarrow> rank (phase t') \<le> 2) \<Longrightarrow>
      (\<exists>ta. tasks w a = Some ta \<and> rank (phase ta) \<le> 2) \<Longrightarrow> kept contents w a b \<Longrightarrow> kept contents w' a b"
  shows "watch_inv contents w'"
  unfolding watch_inv_def
proof (intro allI impI)
  fix a b
  assume b: "b \<in> set (watched w' a)"
  then have b0: "b \<in> set (watched w a)" using sub by blast
  obtain ta where ta: "tasks w a = Some ta" "1 \<le> rank (phase ta)" using watch_invD(2) [OF inv b0] by blast
  note kw = watch_invD(3) [OF inv b0 ta(1)]
  have "tasks w' b \<noteq> None" using watch_invD(1) [OF inv b0] by (simp add: ts)
  moreover have "\<exists>t1. tasks w' a = Some t1 \<and> 1 \<le> rank (phase t1) \<and>
      (rank (phase t1) \<le> 2 \<longrightarrow> kept contents w' a b)"
    using ta kw keep [OF b] t r by (cases "a = me") (auto simp: ts)
  ultimately show "tasks w' b \<noteq> None \<and>
      (\<exists>t. tasks w' a = Some t \<and> 1 \<le> rank (phase t) \<and> (rank (phase t) \<le> 2 \<longrightarrow> kept contents w' a b))" by blast
qed

lemma kept_mono:
  assumes "kept contents w a b" and "a \<in> registered (registry_of w b) \<Longrightarrow> a \<in> registered (registry_of w' b)"
    and "make_watcher a \<in> pending w b \<Longrightarrow> make_watcher a \<in> pending w' b"
    and "Terminated b \<in> set (contents (item_chan (mailboxes w a))) \<Longrightarrow>
      Terminated b \<in> set (contents (item_chan (mailboxes w' a)))"
  shows "kept contents w' a b"
  using assms by (auto simp: kept_def)

lemma pending_move:
  assumes "tasks w me = Some t" and "rank (phase t) \<noteq> 12" and "tasks w' = (tasks w)(me \<mapsto> t')"
  shows "pending w b \<subseteq> pending w' b"
  using assms by (auto simp: pending_def split: phase.splits)

lemma kept_move:
  assumes "kept contents w a b" and "tasks w me = Some t" and "rank (phase t) \<noteq> 12"
    and "tasks w' = (tasks w)(me \<mapsto> t')"
    and "a \<in> registered (registry_of w b) \<Longrightarrow> a \<in> registered (registry_of w' b)"
    and "Terminated b \<in> set (contents (item_chan (mailboxes w a))) \<Longrightarrow>
      Terminated b \<in> set (contents (item_chan (mailboxes w' a)))"
  shows "kept contents w' a b"
  using assms(5,6) pending_move [OF assms(2-4), of b] by (intro kept_mono [OF assms(1)]) blast+

lemma registered_remove_other: "a \<noteq> me \<Longrightarrow> a \<in> registered r \<Longrightarrow> a \<in> registered (registry_remove me r)"
  by (simp add: registered_remove)

context actor_runtime
begin

lemma contents_ops:
  "set (contents (item_chan mb)) \<subseteq> set (contents (item_chan (snd (try_send_message (env_flume env) m mb))))"
  "set (contents (item_chan mb)) \<subseteq> set (contents (item_chan (snd (sink_send_terminated (env_flume env) i mb))))"
  "contents (item_chan (disconnect_mailbox (env_flume env) mb)) = contents (item_chan mb)"
  using drop_rx by (auto simp: mbx.send_snd mbx.signal_snd disconnect_mailbox_def)

text \<open>What a watch changes: it registers, or enqueues the signal in the actor's own mailbox.\<close>

lemma watch_effect:
  assumes "watch (env_flume env) me other w = Some w1"
  shows "watched w1 = (watched w)(me := List.insert other (watched w me))"
    and "registered (registry_of w b) \<subseteq> registered (registry_of w1 b)"
    and "set (contents (item_chan (mailboxes w a))) \<subseteq> set (contents (item_chan (mailboxes w1 a)))"
    and "me \<in> registered (registry_of w1 other) \<or> Terminated other \<in> set (contents (item_chan (mailboxes w1 me)))"
proof -
  show "watched w1 = (watched w)(me := List.insert other (watched w me))"
    using assms by (cases rule: watch_cases) (simp_all add: world_simps)
  show "registered (registry_of w b) \<subseteq> registered (registry_of w1 b)"
    using assms
    by (cases rule: watch_cases) (use registry_add_Ok in \<open>fastforce simp: world_simps\<close>)+
  show "set (contents (item_chan (mailboxes w a))) \<subseteq> set (contents (item_chan (mailboxes w1 a)))"
    using assms contents_ops(2) [of "mailboxes w me" other]
    by (cases rule: watch_cases) (simp_all add: world_simps)
  show "me \<in> registered (registry_of w1 other) \<or> Terminated other \<in> set (contents (item_chan (mailboxes w1 me)))"
    using assms
  proof (cases rule: watch_cases)
    case (registered r)
    then show ?thesis using registry_add_Ok [OF registered(1)] by (simp add: world_simps)
  next
    case (terminated w2)
    then have "fst (sink_send_terminated (env_flume env) other (mailboxes w me)) = Ok ()"
      by (auto simp: send_terminated_to_def world_simps split: prod.splits sum.splits)
    with terminated mbx.signal_snd(2) [of other "mailboxes w me"] show ?thesis by (simp add: world_simps)
  qed
qed

lemma watch_inv_watch:
  assumes inv: "watch_inv contents w" and t: "tasks w me = Some t" and other: "tasks w other \<noteq> None"
    and ph: "rank (phase t) = 1" "rank ph = 1" and watch: "watch (env_flume env) me other w = Some w1"
  shows "watch_inv contents (goto me t ph w1)"
proof -
  let ?w = "goto me t ph w1"
  have ts: "tasks ?w = (tasks w)(me \<mapsto> t\<lparr>phase := ph\<rparr>)"
    by (simp add: world_simps watch_frame [OF watch])
  note eff = watch_effect [OF watch]
  have new: "kept contents ?w me other" using eff(4) by (auto simp: kept_def world_simps)
  have keep: "kept contents ?w a b" if "kept contents w a b" for a b
    using eff(2,3) ph by (intro kept_move [OF that t _ ts]) (auto simp: world_simps)
  show ?thesis
    unfolding watch_inv_def
  proof (intro allI impI)
    fix a b
    assume "b \<in> set (watched ?w a)"
    then consider "a = me" "b = other" | "b \<in> set (watched w a)"
      by (auto simp: goto_frame eff(1) split: if_splits)
    then show "tasks ?w b \<noteq> None \<and>
      (\<exists>t. tasks ?w a = Some t \<and> 1 \<le> rank (phase t) \<and> (rank (phase t) \<le> 2 \<longrightarrow> kept contents ?w a b))"
    proof cases
      case 1
      with new other show ?thesis by (auto simp: ts ph)
    next
      case 2
      with watch_invD [OF inv 2] keep ph t show ?thesis by (cases "a = me") (auto simp: ts)
    qed
  qed
qed

lemma watch_inv_spawn:
  assumes inv: "watch_inv contents w" and t: "tasks w me = Some t" and i: "tasks w i = None"
    and ph: "rank (phase t) = 1" "rank ph = 1"
  shows "watch_inv contents (goto me t ph (spawn_with_config fl wt me actor config i w))"
    (is "watch_inv contents ?w")
proof -
  have fr: "watched ?w = watched w" "mailboxes ?w = (mailboxes w)(i := make_mailbox fl (config_capacity config))"
    by (simp_all add: spawn_with_config_def spawn_def world_simps Let_def)
  have ts: "tasks ?w j = (if j = me then Some (t\<lparr>phase := ph\<rparr>) else tasks w j)" if "j \<noteq> i" for j
    using that by (simp add: spawn_with_config_def spawn_def world_simps Let_def)
  show ?thesis
    unfolding watch_inv_def
  proof (intro allI impI)
    fix a b
    assume "b \<in> set (watched ?w a)"
    then have b: "b \<in> set (watched w a)" by (simp add: fr)
    then have ne: "a \<noteq> i" "b \<noteq> i" "me \<noteq> i" using watch_invD(1,2) [OF inv b] i t by auto
    have "kept contents w a b \<Longrightarrow> kept contents ?w a b"
      using ne t ph by (erule_tac kept_mono)
        (auto simp: fr registry_of_def pending_def ts split: if_splits phase.splits)
    with watch_invD [OF inv b] ph t show "tasks ?w b \<noteq> None \<and>
      (\<exists>t. tasks ?w a = Some t \<and> 1 \<le> rank (phase t) \<and> (rank (phase t) \<le> 2 \<longrightarrow> kept contents ?w a b))"
      by (cases "a = me") (auto simp: ts ne)
  qed
qed

lemma user_step_watch:
  assumes inv: "watch_inv contents w" and t: "tasks w me = Some t" and fresh: "tasks w (obs_fresh ob) = None"
    and ph: "rank (phase t) = 1" "\<And>p. rank (ph p) = 1" and step: "user_step env ob me t ph p w = Some w'"
  shows "watch_inv contents w'"
proof -
  from step obtain p' w1 where api: "api_step env (obs_fresh ob) me p w = Some (p', w1)"
    and w': "w' = goto me t (ph p') w1"
    by (auto simp: user_step_def split: option.splits prod.splits)
  note me = watch_inv_me [OF inv t, of w' "t\<lparr>phase := ph p'\<rparr>"]
  show ?thesis
  proof (cases p)
    case (Tell target m q)
    with api have w1: "w1 = tell (env_flume env) (Some me) target m w" by (auto split: if_splits)
    have ts: "tasks w' = (tasks w)(me \<mapsto> t\<lparr>phase := ph p'\<rparr>)" by (simp add: w' w1 world_simps)
    show ?thesis
    proof (rule me [OF ts])
      show "kept contents w' a b" if "kept contents w a b" for a b
        using contents_ops(1) [of "mailboxes w target" m]
        by (intro kept_move [OF that t _ ts]) (auto simp: ph w' w1 world_simps split: if_splits)
    qed (simp_all add: w' w1 world_simps ph)
  next
    case (Unwatch other q)
    with api have w1: "w1 = unwatch me other w" by (auto split: if_splits)
    have ts: "tasks w' = (tasks w)(me \<mapsto> t\<lparr>phase := ph p'\<rparr>)" by (simp add: w' w1 world_simps)
    show ?thesis
    proof (rule me [OF ts])
      show "kept contents w' a b" if "b \<in> set (watched w' a)" "kept contents w a b" for a b
        using that(1) by (intro kept_move [OF that(2) t _ ts])
          (auto simp: ph w' w1 world_simps unwatch_def registered_remove split: if_splits)
    qed (auto simp: w' w1 world_simps ph unwatch_def split: if_splits)
  next
    case (Watch other q)
    with api show ?thesis
      unfolding w' by (intro watch_inv_watch [OF inv t, of other]) (auto simp: ph split: if_splits)
  next
    case (Spawn actor config q)
    with api show ?thesis
      using watch_inv_spawn [OF inv t fresh ph(1) ph(2)] by (auto simp: w')
  qed (use api in simp)
qed

lemma receive_step_watch:
  assumes inv: "watch_inv contents w" and t: "tasks w me = Some t" and ph: "phase t = Receiving s up"
    and step: "receive_step env me t s up w = Some w'"
  shows "watch_inv contents w'"
  using step
proof (cases rule: receive_step_cases)
  case stop
  have ts: "tasks w' = (tasks w)(me \<mapsto> t\<lparr>phase := Draining\<rparr>)" by (simp add: stop world_simps)
  show ?thesis
  proof (rule watch_inv_me [OF inv t ts])
    show "kept contents w' a b" if "kept contents w a b" for a b
      by (rule kept_move [OF that t _ ts]) (simp_all add: stop ph world_simps)
  qed (simp_all add: stop ph world_simps)
next
  case (message m mb)
  have ts: "tasks w' = (tasks w)(me \<mapsto> t\<lparr>phase := Handling up (receive_code env (task_actor t) me (Message m) s)\<rparr>)"
    by (simp add: message world_simps)
  show ?thesis
  proof (rule watch_inv_me [OF inv t ts])
    show "kept contents w' a b" if "kept contents w a b" for a b
      using mbx.recv_queue [OF message(1)] registry_ops(1) [OF message(1)]
      by (intro kept_move [OF that t _ ts]) (auto simp: message ph world_simps split: if_splits)
  qed (simp_all add: message ph world_simps)
next
  case (signal other mb ph' e)
  have r: "rank ph' = 1" using signal(3) by (auto split: if_splits)
  have ts: "tasks w' = (tasks w)(me \<mapsto> t\<lparr>phase := ph'\<rparr>)" by (simp add: signal(2) world_simps)
  show ?thesis
  proof (rule watch_inv_me [OF inv t ts])
    show "kept contents w' a b" if "b \<in> set (watched w' a)" "kept contents w a b" for a b
      using that(1) mbx.recv_queue [OF signal(1)] registry_ops(1) [OF signal(1)]
      by (intro kept_move [OF that(2) t _ ts]) (auto simp: signal(2) ph world_simps split: if_splits)
  qed (auto simp: signal(2) ph r world_simps)
qed

text \<open>Taking the watchers moves every registered actor to the pending signals.\<close>

lemma take_watchers_pending:
  assumes wf: "registry_wf (registry_of w me)" and inv: "watchers_inv root w"
    and a: "a \<in> registered (registry_of w me)" "tasks w a \<noteq> None"
  shows "make_watcher a \<in> set (fst (registry_take (registry_of w me)))"
proof -
  from a(1) obtain x where x: "(a, x) \<in> entries (registry_of w me)" by (auto simp: registered_entries)
  with wf have "watcher_id x = a"
    by (auto simp: registry_wf_def entries_def list_all_iff split: option.splits)
  moreover have "valid_watcher root w me x" using inv x unfolding watchers_inv_def by force
  ultimately have "x = make_watcher a"
    using inv a(2) by (auto simp: valid_watcher_def watchers_inv_def)
  with x show ?thesis unfolding entries_take by force
qed

text \<open>A signal reaches the mailbox of every watcher that has not drained it.\<close>

lemma signal_kept:
  assumes mb: "mailbox_inv connected w" and t: "tasks w me = Some t" "phase t = Signaling (wtc # rest)"
    and ta: "tasks w a = Some ta" "rank (phase ta) \<le> 2" and k: "kept contents w a b"
  shows "kept contents (goto me t (Signaling rest) (watcher_send_terminated env me wtc w)) a b"
    (is "kept contents ?w a b")
proof -
  have cont: "set (contents (item_chan (mailboxes w a))) \<subseteq> set (contents (item_chan (mailboxes ?w a)))"
    using contents_ops(2) [of "mailboxes w a" me]
    by (auto simp: goto_frame watcher_send_mailboxes split: terminated_sink.splits)
  have reg: "registry_of ?w b = registry_of w b"
    using watcher_send_registry by (simp add: registry_of_def goto_frame)
  have con: "connected (item_chan (mailboxes w a))" using mailbox_invD(1) [OF mb ta(1)] ta(2) by simp
  show ?thesis
  proof (cases "b = me \<and> wtc = make_watcher a")
    case True
    have "fst (sink_send_terminated (env_flume env) me (mailboxes w a)) = Ok ()"
      using mbx.signal_Ok [OF con, of me] by auto
    with True mbx.signal_snd(2) [of me "mailboxes w a"] show ?thesis
      by (simp add: kept_def goto_frame watcher_send_mailboxes make_watcher_def watcher_new_def)
  next
    case False
    with k cont reg t show ?thesis
      by (auto simp: kept_def pending_def goto_frame signal_frame)
  qed
qed

text \<open>The steps of \<open>me\<close> that leave registries and, but for its own, all mailboxes alone.\<close>

lemma watch_inv_silent:
  assumes inv: "watch_inv contents w" and t: "tasks w me = Some t" and ts: "tasks w' = (tasks w)(me \<mapsto> t')"
    and r: "rank (phase t) \<le> rank (phase t')" "rank (phase t) \<noteq> 12"
    and sub: "\<And>a. set (watched w' a) \<subseteq> set (watched w a)"
    and reg: "\<And>a b. a \<noteq> me \<or> rank (phase t') \<le> 2 \<Longrightarrow> a \<in> registered (registry_of w b) \<Longrightarrow> a \<in> registered (registry_of w' b)"
    and cont: "\<And>a. a \<noteq> me \<or> rank (phase t') \<le> 2 \<Longrightarrow> contents (item_chan (mailboxes w' a)) = contents (item_chan (mailboxes w a))"
  shows "watch_inv contents w'"
proof (rule watch_inv_me [OF inv t ts r(1) sub])
  show "kept contents w' a b" if "a = me \<Longrightarrow> rank (phase t') \<le> 2" "kept contents w a b" for a b
    by (rule kept_move [OF that(2) t r(2) ts]) (use reg cont that(1) in auto)
qed

lemma phase_step_watch:
  assumes inv: "watch_inv contents w" and mb: "mailbox_inv connected w" and wi: "watchers_inv root w"
    and t: "tasks w me = Some t" and fresh: "tasks w (obs_fresh ob) = None"
    and step: "phase_step env ob me t w = Some w'"
  shows "watch_inv contents w'"
  using step
proof (cases rule: phase_step_cases)
  case start
  then show ?thesis
    by (intro watch_inv_silent [OF inv t, of _ "t\<lparr>phase := Initializing (init_code env (task_actor t) me)\<rparr>"])
       (simp_all add: world_simps)
next
  case (init p)
  then show ?thesis by (intro user_step_watch [OF inv t fresh, of Initializing p]) simp_all
next
  case (handle up p)
  then show ?thesis by (intro user_step_watch [OF inv t fresh, of "Handling up" p]) simp_all
next
  case (receive s up)
  then show ?thesis by (intro receive_step_watch [OF inv t])
next
  case (plain t' es)
  then show ?thesis
    by (intro watch_inv_silent [OF inv t, of _ t'])
       (auto simp: plain_phases_def same_but_tasks_def registry_of_def)
next
  case drain
  then show ?thesis
    using registry_ops(2) [of "mailboxes w me"]
    by (intro watch_inv_silent [OF inv t, of _ "t\<lparr>phase := Disconnecting (fst (drain_mailbox (env_flume env) (mailboxes w me)))\<rparr>"])
       (auto simp: terminate_drain_def world_simps split: prod.splits if_splits)
next
  case (disconnect drained)
  then show ?thesis
    by (intro watch_inv_silent [OF inv t, of _ "t\<lparr>phase := DroppingQueued drained\<rparr>"])
       (auto simp: terminate_disconnect_def world_simps registry_ops)
next
  case take_watched
  then show ?thesis
    by (intro watch_inv_silent [OF inv t, of _ "t\<lparr>phase := Unregistering (watched w me)\<rparr>"])
       (auto simp: world_simps)
next
  case (unregister other rest)
  then show ?thesis
    by (intro watch_inv_silent [OF inv t, of _ "t\<lparr>phase := Unregistering rest\<rparr>"])
       (auto simp: terminate_unregister_def world_simps registered_remove)
next
  case take_watchers
  let ?ws = "fst (registry_take (registry_of w me))"
  have ts: "tasks w' = (tasks w)(me \<mapsto> t\<lparr>phase := Signaling ?ws\<rparr>)"
    and mbs: "mailboxes w' = (mailboxes w)(me := (mailboxes w me)\<lparr>registry := snd (registry_take (registry_of w me))\<rparr>)"
    and wd: "watched w' = watched w"
    by (simp_all add: take_watchers terminate_take_watchers_def take_watchers_def world_simps split: prod.splits)
  show ?thesis
  proof (rule watch_inv_me [OF inv t ts])
    show "kept contents w' a b" if "\<exists>ta. tasks w a = Some ta \<and> rank (phase ta) \<le> 2" "kept contents w a b" for a b
      using that take_watchers_pending [OF mailbox_invD(3) [OF mb t] wi, of a] take_watchers(1) t
      by (cases "b = me") (auto simp: kept_def pending_def ts mbs registry_of_def)
  qed (simp_all add: take_watchers(1) wd)
next
  case (signal wtc rest)
  have ts: "tasks w' = (tasks w)(me \<mapsto> t\<lparr>phase := Signaling rest\<rparr>)"
    by (simp add: signal(2) goto_frame signal_frame)
  show ?thesis
    using signal_kept [OF mb t signal(1)]
    by (intro watch_inv_me [OF inv t ts]) (auto simp: signal goto_frame signal_frame)
next
  case finish
  have ts: "tasks w' = (tasks w)(me \<mapsto> t\<lparr>phase := Finished\<rparr>)" by (simp add: finish(2) world_simps)
  show ?thesis
  proof (rule watch_inv_me [OF inv t ts])
    show "kept contents w' a b" if "kept contents w a b" for a b
      using that finish t by (auto simp: kept_def pending_def ts finish_task_frame registry_of_def)
  qed (simp_all add: finish world_simps)
qed

lemma watch_inv_mono:
  assumes "watch_inv contents w" and "tasks w' = tasks w" and "watched w' = watched w"
    and "\<And>b. registered (registry_of w b) \<subseteq> registered (registry_of w' b)"
    and "\<And>a. set (contents (item_chan (mailboxes w a))) \<subseteq> set (contents (item_chan (mailboxes w' a)))"
  shows "watch_inv contents w'"
proof -
  have "kept contents w' a b" if "kept contents w a b" for a b
    using assms(4,5) by (intro kept_mono [OF that]) (auto simp: pending_def assms(2))
  with assms(1) show ?thesis unfolding watch_inv_def assms(2,3) by blast
qed

lemma sys_step_watch:
  assumes "sys_step env root w w'" and inv: "watch_inv contents w" and "mailbox_inv connected w" "watchers_inv root w"
  shows "watch_inv contents w'"
  using assms(1)
proof (cases rule: sys_step.cases)
  case (step_task ob me)
  then show ?thesis
    using phase_step_watch [OF assms(2-4)] by (auto simp: task_step_def fresh_id_def split: option.splits)
next
  case (step_tell target m)
  then show ?thesis
    using contents_ops(1) [of "mailboxes w target" m] by (intro watch_inv_mono [OF inv]) (auto simp: world_simps)
next
  case (step_watch_root i)
  have "registered r \<subseteq> registered (snd (registry_add x r))" for x r
    using registry_add_open [of r _ x] by (cases r) (auto simp: registry_add_closed)
  with step_watch_root show ?thesis
    by (intro watch_inv_mono [OF inv]) (auto simp: world_simps split: if_splits)
qed (auto intro!: watch_inv_mono [OF inv] simp: system_stop_def drop_system_def Let_def world_simps)

lemma sys_reach_watch: "sys_reach env actor config root w \<Longrightarrow> watch_inv contents w"
proof (induction rule: sys_reach.induct)
  case sys_start
  show ?case by (simp add: watch_inv_def spawn_root_def spawn_def world_simps)
next
  case (sys_next w w')
  then show ?case by (blast intro: sys_step_watch sys_reach_mailbox sys_reach_watchers)
qed

end

end
