(* ===== verification/Trace.thy ===== *)
theory Trace
  imports DeathWatch
begin

text \<open>
  What the events of a run say: the trace of every mailbox is what went through it, in order;
  a terminated actor sends nothing behind its signal; and a signal is delivered only to an actor
  that watches at that time. Traces are newest first.
\<close>

section \<open>Reading a trace\<close>

text \<open>What was put into the mailbox of \<open>a\<close>, oldest first, and what was taken out of it.\<close>

fun enqueued :: "actor_id \<Rightarrow> 'm event list \<Rightarrow> 'm incoming list" where
  "enqueued a [] = []"
| "enqueued a (Enqueued _ b i # es) = enqueued a es @ (if a = b then [i] else [])"
| "enqueued a (_ # es) = enqueued a es"

fun taken :: "actor_id \<Rightarrow> 'm event list \<Rightarrow> 'm incoming list" where
  "taken a [] = []"
| "taken a (Delivered b i # es) = taken a es @ (if a = b then [i] else [])"
| "taken a (SignalDropped b c # es) = taken a es @ (if a = b then [Terminated c] else [])"
| "taken a (Discarded b is # es) = taken a es @ (if a = b then is else [])"
| "taken a (_ # es) = taken a es"

text \<open>Whether some actor was sent the signal that \<open>b\<close> has terminated.\<close>

definition signal_sent :: "actor_id \<Rightarrow> 'm event list \<Rightarrow> bool" where
  "signal_sent b es \<longleftrightarrow> (\<exists>x a. Enqueued x a (Terminated b) \<in> set es)"

text \<open>Whether \<open>a\<close> watches \<open>b\<close>: it did so last, and neither unwatched nor got the signal since.\<close>

fun watching :: "actor_id \<Rightarrow> actor_id \<Rightarrow> 'm event list \<Rightarrow> bool" where
  "watching a b [] = False"
| "watching a b (Watched c d # es) = (c = a \<and> d = b \<or> watching a b es)"
| "watching a b (Unwatched c d # es) = (\<not> (c = a \<and> d = b) \<and> watching a b es)"
| "watching a b (Delivered c i # es) = (\<not> (c = a \<and> i = Terminated b) \<and> watching a b es)"
| "watching a b (_ # es) = watching a b es"

section \<open>The mailbox and its trace\<close>

definition queue_inv :: "('c \<Rightarrow> 'm incoming list) \<Rightarrow> ('c, 'w, 'k, 'm, 's, 'e) world \<Rightarrow> bool" where
  "queue_inv contents w \<longleftrightarrow>
     (\<forall>a. enqueued a (trace w) = taken a (trace w) @ (if tasks w a = None then [] else contents (item_chan (mailboxes w a))))"

lemma queue_invD:
  "queue_inv contents w \<Longrightarrow>
     enqueued a (trace w) = taken a (trace w) @ (if tasks w a = None then [] else contents (item_chan (mailboxes w a)))"
  by (simp add: queue_inv_def)

lemma enqueued_append: "enqueued a (es @ fs) = enqueued a fs @ enqueued a es"
  by (induction es rule: enqueued.induct) auto

lemma taken_append: "taken a (es @ fs) = taken a fs @ taken a es"
  by (induction es rule: taken.induct) auto

text \<open>A step that adds \<open>es\<close> to the trace and to each mailbox what they say.\<close>

lemma queue_inv_step:
  assumes inv: "queue_inv contents w" and tr: "trace w' = es @ trace w"
    and old: "\<And>a. tasks w a = None \<Longrightarrow> enqueued a es = [] \<and> taken a es = []"
    and new: "\<And>a. tasks w a = None \<Longrightarrow> tasks w' a \<noteq> None \<Longrightarrow> contents (item_chan (mailboxes w' a)) = []"
    and step: "\<And>a. tasks w a \<noteq> None \<Longrightarrow> tasks w' a \<noteq> None \<and>
      contents (item_chan (mailboxes w a)) @ enqueued a es = taken a es @ contents (item_chan (mailboxes w' a))"
  shows "queue_inv contents w'"
  unfolding queue_inv_def tr enqueued_append taken_append
proof
  fix a
  show "enqueued a (trace w) @ enqueued a es = (taken a (trace w) @ taken a es) @
      (if tasks w' a = None then [] else contents (item_chan (mailboxes w' a)))"
    using queue_invD [OF inv, of a] old [of a] new [of a] step [of a] by (cases "tasks w a") auto
qed

context actor_runtime
begin

lemma watch_trace:
  assumes "watch (env_flume env) me other w = Some w1"
  shows "trace w1 = Watched me other # trace w \<and> mailboxes w1 = (mailboxes w)(other := mailboxes w1 other) \<and>
      item_chan (mailboxes w1 other) = item_chan (mailboxes w other) \<and> registry_of w other \<noteq> None \<or>
    trace w1 = Enqueued None me (Terminated other) # Watched me other # trace w \<and> registry_of w other = None \<and>
      mailboxes w1 = (mailboxes w)(me := mailboxes w1 me) \<and>
      contents (item_chan (mailboxes w1 me)) = contents (item_chan (mailboxes w me)) @ [Terminated other]"
  using assms
proof (cases rule: watch_cases)
  case (registered r)
  then have "registry_of w other \<noteq> None" by (cases "registry_of w other") (simp_all add: registry_add_closed)
  with registered show ?thesis by (simp add: world_simps)
next
  case (terminated w2)
  then have "fst (sink_send_terminated (env_flume env) other (mailboxes w me)) = Ok ()"
    by (auto simp: send_terminated_to_def world_simps split: prod.splits sum.splits)
  with terminated mbx.signal_snd(2) [of other "mailboxes w me"] show ?thesis by (simp add: world_simps)
qed

lemma user_step_queue:
  assumes inv: "queue_inv contents w" and t: "tasks w me = Some t" and fresh: "tasks w (obs_fresh ob) = None"
    and step: "user_step env ob me t ph p w = Some w'"
  shows "queue_inv contents w'"
proof -
  from step obtain p' w1 where api: "api_step env (obs_fresh ob) me p w = Some (p', w1)"
    and w': "w' = goto me t (ph p') w1"
    by (auto simp: user_step_def split: option.splits prod.splits)
  show ?thesis
  proof (cases p)
    case (Tell target m q)
    with api show ?thesis
      using mbx.send_snd(2) [of m "mailboxes w target"]
      by (intro queue_inv_step [OF inv, of _ "[case fst (try_send_message (env_flume env) m (mailboxes w target)) of
            Ok _ \<Rightarrow> Enqueued (Some me) target (Message m) | Err _ \<Rightarrow> DeadLetter target]"])
         (auto simp: w' world_simps t split: if_splits sum.splits)
  next
    case (Unwatch other q)
    with api show ?thesis
      by (intro queue_inv_step [OF inv, of _ "[Unwatched me other]"])
         (auto simp: w' unwatch_def world_simps t split: if_splits)
  next
    case (Watch other q)
    with api have watch: "watch (env_flume env) me other w = Some w1" by (auto split: if_splits)
    note fr = watch_frame [OF watch]
    from watch_trace [OF watch] show ?thesis
    proof (elim disjE conjE)
      assume "trace w1 = Watched me other # trace w" and mb: "mailboxes w1 = (mailboxes w)(other := mailboxes w1 other)"
        "item_chan (mailboxes w1 other) = item_chan (mailboxes w other)"
      moreover have "item_chan (mailboxes w1 a) = item_chan (mailboxes w a)" for a
        using mb by (metis fun_upd_other)
      ultimately show ?thesis
        by (intro queue_inv_step [OF inv, of _ "[Watched me other]"]) (auto simp: w' world_simps fr t split: if_splits)
    next
      assume "trace w1 = Enqueued None me (Terminated other) # Watched me other # trace w"
        and mb: "mailboxes w1 = (mailboxes w)(me := mailboxes w1 me)"
        and c: "contents (item_chan (mailboxes w1 me)) = contents (item_chan (mailboxes w me)) @ [Terminated other]"
      moreover have "mailboxes w1 a = mailboxes w a" if "a \<noteq> me" for a
        using mb that by (metis fun_upd_other)
      ultimately show ?thesis
        by (intro queue_inv_step [OF inv, of _ "[Enqueued None me (Terminated other), Watched me other]"])
           (auto simp: w' world_simps fr t split: if_splits)
    qed
  next
    case (Spawn actor config q)
    with api fresh t unbounded_new show ?thesis
      by (intro queue_inv_step [OF inv, of _ "[]"])
         (auto simp: w' spawn_with_config_def spawn_def make_mailbox_def Let_def world_simps split: if_splits)
  qed (use api in simp)
qed

lemma receive_step_queue:
  assumes inv: "queue_inv contents w" and t: "tasks w me = Some t" and step: "receive_step env me t s up w = Some w'"
  shows "queue_inv contents w'"
  using step
proof (cases rule: receive_step_cases)
  case stop
  then show ?thesis by (intro queue_inv_step [OF inv, of _ "[]"]) (auto simp: world_simps t split: if_splits)
next
  case (message m mb)
  then show ?thesis
    using mbx.recv_queue [OF message(1)]
    by (intro queue_inv_step [OF inv, of _ "[Delivered me (Message m)]"]) (auto simp: world_simps t split: if_splits)
next
  case (signal other mb ph e)
  have "e = Delivered me (Terminated other) \<or> e = SignalDropped me other"
    using signal(3) by (auto split: if_splits)
  then have "taken a [e] = (if a = me then [Terminated other] else [])" "enqueued a [e] = []" for a by auto
  with signal(2) mbx.recv_queue [OF signal(1)] show ?thesis
    by (intro queue_inv_step [OF inv, of _ "[e]"]) (auto simp: world_simps t split: if_splits)
qed

lemma watcher_send_trace:
  "trace (watcher_send_terminated env me wtc w) =
     (case watcher_sink wtc of
        MailboxSink target \<Rightarrow>
          (if connected (item_chan (mailboxes w target)) then [Enqueued None target (Terminated me)] else []) @ trace w
      | RootSink \<Rightarrow> trace w)"
proof (cases "watcher_sink wtc")
  case (MailboxSink target)
  then show ?thesis
    using mbx.signal_Ok [of "mailboxes w target" me] mbx.signal_terminated [of "mailboxes w target" me]
    by (auto simp: watcher_send_terminated_def send_terminated_to_def world_simps split: prod.splits sum.splits)
qed (simp add: watcher_send_terminated_def root_send_terminated_def world_simps)

lemma signal_queue:
  assumes inv: "queue_inv contents w" and t: "tasks w me = Some t"
    and wtc: "\<And>target. watcher_sink wtc = MailboxSink target \<Longrightarrow> tasks w target \<noteq> None"
  shows "queue_inv contents (goto me t ph (watcher_send_terminated env me wtc w))"
proof (cases "watcher_sink wtc")
  case (MailboxSink target)
  with wtc mbx.signal_snd(2) [of me "mailboxes w target"] mbx.signal_Ok [of "mailboxes w target" me]
    mbx.signal_terminated [of "mailboxes w target" me] show ?thesis
    by (intro queue_inv_step [OF inv, of _ "if connected (item_chan (mailboxes w target))
            then [Enqueued None target (Terminated me)] else []"])
       (auto simp: goto_frame signal_frame watcher_send_trace watcher_send_mailboxes t split: if_splits)
next
  case RootSink
  then show ?thesis
    by (intro queue_inv_step [OF inv, of _ "[]"])
       (auto simp: goto_frame signal_frame watcher_send_trace watcher_send_mailboxes t split: if_splits)
qed

lemma drain_contents:
  "drain_mailbox (env_flume env) mb = (xs, mb') \<Longrightarrow> xs = contents (item_chan mb) \<and> contents (item_chan mb') = []"
  using drain [of "item_chan mb"] by (auto simp: drain_mailbox_def split: prod.splits)

lemma phase_step_queue:
  assumes inv: "queue_inv contents w" and wi: "watchers_inv root w" and t: "tasks w me = Some t"
    and fresh: "tasks w (obs_fresh ob) = None" and step: "phase_step env ob me t w = Some w'"
  shows "queue_inv contents w'"
  using step
proof (cases rule: phase_step_cases)
  case start
  then show ?thesis by (intro queue_inv_step [OF inv, of _ "[InitCalled me]"]) (auto simp: world_simps t split: if_splits)
next
  case (plain t' es)
  then have "enqueued a es = []" "taken a es = []" for a by auto
  with plain show ?thesis
    by (intro queue_inv_step [OF inv, of _ es]) (auto simp: same_but_tasks_def t split: if_splits)
next
  case drain
  then show ?thesis
    using drain_contents
    by (intro queue_inv_step [OF inv, of _ "[Discarded me (fst (drain_mailbox (env_flume env) (mailboxes w me)))]"])
       (auto simp: terminate_drain_def world_simps t split: prod.splits if_splits)
next
  case (signal wtc rest)
  have "valid_watcher root w me wtc"
    using wi t signal(1) by (auto simp: watchers_inv_def pending_def)
  with signal show ?thesis
    by (auto intro!: signal_queue [OF inv t] simp: valid_watcher_def make_watcher_def watcher_new_def)
       (metis terminated_sink.distinct(1) terminated_sink.inject watcher.select_convs(2))+
next
  case (init p)
  then show ?thesis by (intro user_step_queue [OF inv t fresh])
next
  case (handle up p)
  then show ?thesis by (intro user_step_queue [OF inv t fresh])
next
  case (receive s up)
  then show ?thesis by (intro receive_step_queue [OF inv t])
qed (auto intro!: queue_inv_step [OF inv, of _ "[]"] simp: terminate_disconnect_def contents_ops
        terminate_unregister_def terminate_take_watchers_def take_watchers_def finish_task_def world_simps t
      split: prod.splits if_splits)

lemma sys_step_queue:
  assumes "sys_step env root w w'" and inv: "queue_inv contents w" and wi: "watchers_inv root w"
  shows "queue_inv contents w'"
  using assms(1)
proof (cases rule: sys_step.cases)
  case (step_task ob me)
  then show ?thesis
    using phase_step_queue [OF inv wi] by (auto simp: task_step_def fresh_id_def split: option.splits)
next
  case (step_tell target m)
  then show ?thesis
    using mbx.send_snd(2) [of m "mailboxes w target"]
    by (intro queue_inv_step [OF inv, of _ "[case fst (try_send_message (env_flume env) m (mailboxes w target)) of
          Ok _ \<Rightarrow> Enqueued None target (Message m) | Err _ \<Rightarrow> DeadLetter target]"])
       (auto simp: world_simps split: if_splits sum.splits)
qed (auto intro!: queue_inv_step [OF inv, of _ "[]"] simp: system_stop_def drop_system_def Let_def world_simps)

lemma sys_reach_queue: "sys_reach env actor config root w \<Longrightarrow> queue_inv contents w"
proof (induction rule: sys_reach.induct)
  case sys_start
  show ?case using unbounded_new by (simp add: queue_inv_def spawn_root_def spawn_def make_mailbox_def world_simps)
next
  case (sys_next w w')
  then show ?case by (blast intro: sys_step_queue sys_reach_watchers)
qed

end

section \<open>Nothing behind the signal\<close>

fun silent_after :: "'m event list \<Rightarrow> bool" where
  "silent_after [] = True"
| "silent_after (Enqueued (Some b) _ _ # es) = (\<not> signal_sent b es \<and> silent_after es)"
| "silent_after (_ # es) = silent_after es"

definition signal_inv :: "('c, 'w, 'k, 'm, 's, 'e) world \<Rightarrow> bool" where
  "signal_inv w \<longleftrightarrow> silent_after (trace w) \<and>
     (\<forall>b. signal_sent b (trace w) \<longrightarrow> (\<exists>t. tasks w b = Some t \<and> 12 \<le> rank (phase t)))"

text \<open>The events of one step: who can send, and for whom a signal can be sent.\<close>

definition step_events :: "('c, 'w, 'k, 'm, 's, 'e) world \<Rightarrow> 'm event list \<Rightarrow> bool" where
  "step_events w es \<longleftrightarrow>
     (\<forall>x a b. Enqueued x a (Terminated b) \<in> set es \<longrightarrow> (\<exists>t. tasks w b = Some t \<and> 12 \<le> rank (phase t))) \<and>
     (\<forall>b a i. Enqueued (Some b) a i \<in> set es \<longrightarrow>
        es = [Enqueued (Some b) a i] \<and> (\<exists>t. tasks w b = Some t \<and> rank (phase t) = 1))"

lemma silent_after_quiet:
  "(\<And>b a i. Enqueued (Some b) a i \<notin> set es) \<Longrightarrow> silent_after (es @ fs) = silent_after fs"
  by (induction es rule: silent_after.induct) auto

lemma silent_after_split:
  "silent_after (xs @ Enqueued x a (Terminated b) # ys) \<Longrightarrow> Enqueued (Some b) c i \<notin> set xs"
  by (induction xs rule: silent_after.induct) (auto simp: signal_sent_def)

lemma signal_inv_step:
  assumes inv: "signal_inv w" and tr: "trace w' = es @ trace w" and es: "step_events w es"
    and ranks: "\<And>i t. tasks w i = Some t \<Longrightarrow> \<exists>t'. tasks w' i = Some t' \<and> rank (phase t) \<le> rank (phase t')"
  shows "signal_inv w'"
proof -
  have "silent_after (es @ trace w)"
  proof (cases "\<exists>b a i. Enqueued (Some b) a i \<in> set es")
    case True
    then obtain b a i t where "es = [Enqueued (Some b) a i]" "tasks w b = Some t" "rank (phase t) = 1"
      using es unfolding step_events_def by metis
    with inv show ?thesis by (auto simp: signal_inv_def)
  next
    case False
    with inv show ?thesis by (simp add: silent_after_quiet signal_inv_def)
  qed
  moreover have "\<exists>t. tasks w' b = Some t \<and> 12 \<le> rank (phase t)" if "signal_sent b (es @ trace w)" for b
  proof -
    have "signal_sent b es \<or> signal_sent b (trace w)" using that by (auto simp: signal_sent_def)
    then obtain t where "tasks w b = Some t" "12 \<le> rank (phase t)"
      using inv es unfolding signal_inv_def step_events_def signal_sent_def by blast
    with ranks show ?thesis by fastforce
  qed
  ultimately show ?thesis by (simp add: signal_inv_def tr)
qed

context actor_runtime
begin

lemma user_step_events:
  assumes mb: "mailbox_inv connected w" and t: "tasks w me = Some t" "rank (phase t) = 1"
    and step: "user_step env ob me t ph p w = Some w'"
  shows "\<exists>es. trace w' = es @ trace w \<and> step_events w es"
proof -
  from step obtain p' w1 where api: "api_step env (obs_fresh ob) me p w = Some (p', w1)"
    and w': "w' = goto me t (ph p') w1"
    by (auto simp: user_step_def split: option.splits prod.splits)
  show ?thesis
  proof (cases p)
    case (Tell target m q)
    with api t show ?thesis
      by (intro exI [of _ "[case fst (try_send_message (env_flume env) m (mailboxes w target)) of
            Ok _ \<Rightarrow> Enqueued (Some me) target (Message m) | Err _ \<Rightarrow> DeadLetter target]"])
         (auto simp: w' world_simps step_events_def split: if_splits sum.splits)
  next
    case (Unwatch other q)
    with api show ?thesis
      by (intro exI [of _ "[Unwatched me other]"])
         (auto simp: w' unwatch_def world_simps step_events_def split: if_splits)
  next
    case (Watch other q)
    with api obtain ot where watch: "watch (env_flume env) me other w = Some w1" and ot: "tasks w other = Some ot"
      by (auto split: if_splits)
    from watch_trace [OF watch] mailbox_invD(2) [OF mb ot] ot show ?thesis
      by (auto simp: w' goto_frame step_events_def intro: exI [of _ "[Watched me other]"]
          exI [of _ "[Enqueued None me (Terminated other), Watched me other]"])
  next
    case (Spawn actor config q)
    with api show ?thesis
      by (intro exI [of _ "[]"])
         (auto simp: w' spawn_with_config_def spawn_def Let_def world_simps step_events_def)
  qed (use api in simp)
qed

lemma phase_step_events:
  assumes mb: "mailbox_inv connected w" and t: "tasks w me = Some t"
    and step: "phase_step env ob me t w = Some w'"
  shows "\<exists>es. trace w' = es @ trace w \<and> step_events w es"
  using step
proof (cases rule: phase_step_cases)
  case (receive s up)
  then show ?thesis
    by (cases rule: receive_step_cases [OF receive(2)])
       (auto simp: world_simps step_events_def split: if_splits)
next
  case (plain t' es)
  then show ?thesis by (intro exI [of _ es]) (auto simp: step_events_def)
next
  case (signal wtc rest)
  with t show ?thesis
    by (cases "watcher_sink wtc") (auto simp: goto_frame watcher_send_trace step_events_def)
qed (use user_step_events [OF mb t] in \<open>auto simp: terminate_drain_def terminate_disconnect_def
      terminate_unregister_def terminate_take_watchers_def world_simps step_events_def split: prod.splits\<close>)

lemma sys_step_events:
  assumes "sys_step env root w w'" and mb: "mailbox_inv connected w"
  shows "\<exists>es. trace w' = es @ trace w \<and> step_events w es"
  using assms(1)
proof (cases rule: sys_step.cases)
  case (step_task ob me)
  then show ?thesis using phase_step_events [OF mb] by (auto simp: task_step_def split: option.splits)
next
  case (step_tell target m)
  then show ?thesis
    by (intro exI [of _ "[case fst (try_send_message (env_flume env) m (mailboxes w target)) of
          Ok _ \<Rightarrow> Enqueued None target (Message m) | Err _ \<Rightarrow> DeadLetter target]"])
       (auto simp: world_simps step_events_def split: sum.splits)
qed (auto simp: world_simps step_events_def system_stop_def drop_system_def Let_def)

lemma sys_reach_signal: "sys_reach env actor config root w \<Longrightarrow> signal_inv w"
proof (induction rule: sys_reach.induct)
  case sys_start
  show ?case by (simp add: signal_inv_def signal_sent_def spawn_root_def spawn_def world_simps)
next
  case (sys_next w w')
  obtain es where "trace w' = es @ trace w" "step_events w es"
    using sys_step_events [OF sys_next.hyps(2) sys_reach_mailbox [OF sys_next.hyps(1)]] by blast
  then show ?case
    using tree_step_parents [OF sys_step_tree [OF sys_next.hyps(2)]]
    by (intro signal_inv_step [OF sys_next.IH]) blast+
qed

end

section \<open>Signals are for those who watch\<close>

fun signals_watched :: "'m event list \<Rightarrow> bool" where
  "signals_watched [] = True"
| "signals_watched (Delivered a (Terminated b) # es) = (watching a b es \<and> signals_watched es)"
| "signals_watched (_ # es) = signals_watched es"

definition watching_inv :: "('c, 'w, 'k, 'm, 's, 'e) world \<Rightarrow> bool" where
  "watching_inv w \<longleftrightarrow> signals_watched (trace w) \<and>
     (\<forall>a b. tasks w a = None \<longrightarrow> \<not> watching a b (trace w) \<and> b \<notin> set (watched w a)) \<and>
     (\<forall>a t b. tasks w a = Some t \<and> rank (phase t) \<le> 5 \<longrightarrow>
        (b \<in> set (watched w a) \<longleftrightarrow> watching a b (trace w)) \<and> (phase t = Starting \<longrightarrow> b \<notin> set (watched w a)))"

lemma signals_watched_split:
  "signals_watched (xs @ Delivered a (Terminated b) # ys) \<Longrightarrow> watching a b ys"
  by (induction xs rule: signals_watched.induct) auto

lemma watching_invD:
  assumes "watching_inv w"
  shows "tasks w a = None \<Longrightarrow> \<not> watching a b (trace w) \<and> b \<notin> set (watched w a)"
    and "tasks w a = Some t \<Longrightarrow> rank (phase t) \<le> 5 \<Longrightarrow>
      (b \<in> set (watched w a) \<longleftrightarrow> watching a b (trace w)) \<and> (phase t = Starting \<longrightarrow> b \<notin> set (watched w a))"
  using assms unfolding watching_inv_def by blast+

text \<open>
  A step of \<open>me\<close>: what it adds to the trace changes only what \<open>me\<close> watches, and in the same
  way as its context.
\<close>

lemma watching_inv_me:
  assumes inv: "watching_inv w" and t: "tasks w me = Some t" and tr: "trace w' = es @ trace w"
    and ts: "\<And>a. a \<noteq> me \<Longrightarrow> tasks w' a = tasks w a \<or> tasks w a = None \<and> (\<exists>c. tasks w' a = Some c \<and> phase c = Starting)"
    and me: "tasks w' me = Some t'" and r: "rank (phase t) \<le> rank (phase t')" "1 \<le> rank (phase t')"
    and others: "\<And>a b. a \<noteq> me \<Longrightarrow> watching a b (es @ trace w) = watching a b (trace w) \<and> watched w' a = watched w a"
    and mine: "\<And>b. rank (phase t') \<le> 5 \<Longrightarrow> (\<And>c. c \<in> set (watched w me) \<longleftrightarrow> watching me c (trace w)) \<Longrightarrow>
      b \<in> set (watched w' me) \<longleftrightarrow> watching me b (es @ trace w)"
    and sig: "signals_watched (trace w) \<Longrightarrow> signals_watched (es @ trace w)"
  shows "watching_inv w'"
proof -
  have "\<not> watching a b (trace w') \<and> b \<notin> set (watched w' a)" if "tasks w' a = None" for a b
    using that me ts [of a] others [of a b] watching_invD(1) [OF inv, of a b] by (cases "a = me") (auto simp: tr)
  moreover have "(b \<in> set (watched w' a) \<longleftrightarrow> watching a b (trace w')) \<and> (phase ta = Starting \<longrightarrow> b \<notin> set (watched w' a))"
    if "tasks w' a = Some ta" "rank (phase ta) \<le> 5" for a ta b
  proof (cases "a = me")
    case True
    have "c \<in> set (watched w me) \<longleftrightarrow> watching me c (trace w)" for c
      using watching_invD(2) [OF inv t] r(1) True that me by simp
    with True that me mine r(2) show ?thesis by (auto simp: tr)
  next
    case False
    from ts [OF False] show ?thesis
    proof
      assume "tasks w' a = tasks w a"
      with that have "tasks w a = Some ta" by simp
      from watching_invD(2) [OF inv this that(2), of b] others [OF False, of b] show ?thesis by (auto simp: tr)
    next
      assume "tasks w a = None \<and> (\<exists>c. tasks w' a = Some c \<and> phase c = Starting)"
      with watching_invD(1) [OF inv, of a b] others [OF False, of b] show ?thesis by (simp add: tr)
    qed
  qed
  moreover have "signals_watched (trace w')" using sig inv by (simp add: tr watching_inv_def)
  ultimately show ?thesis unfolding watching_inv_def by blast
qed

lemma watching_inv_quiet:
  assumes inv: "watching_inv w" and t: "tasks w me = Some t" and tr: "trace w' = es @ trace w"
    and ts: "\<And>a. a \<noteq> me \<Longrightarrow> tasks w' a = tasks w a \<or> tasks w a = None \<and> (\<exists>c. tasks w' a = Some c \<and> phase c = Starting)"
    and me: "tasks w' me = Some t'" and r: "rank (phase t) \<le> rank (phase t')" "1 \<le> rank (phase t')"
    and wd: "watched w' = watched w"
    and quiet: "\<And>a b. watching a b (es @ trace w) = watching a b (trace w)"
    and sig: "signals_watched (es @ trace w) = signals_watched (trace w)"
  shows "watching_inv w'"
  by (rule watching_inv_me [OF inv t tr ts me r]) (simp_all add: wd quiet sig)

context actor_runtime
begin

lemma user_step_watching:
  assumes inv: "watching_inv w" and t: "tasks w me = Some t" and fresh: "tasks w (obs_fresh ob) = None"
    and ph: "rank (phase t) = 1" "\<And>p. rank (ph p) = 1" and step: "user_step env ob me t ph p w = Some w'"
  shows "watching_inv w'"
proof -
  from step obtain p' w1 where api: "api_step env (obs_fresh ob) me p w = Some (p', w1)"
    and w': "w' = goto me t (ph p') w1"
    by (auto simp: user_step_def split: option.splits prod.splits)
  note me = watching_inv_me [OF inv t, of w' _ "t\<lparr>phase := ph p'\<rparr>"]
  show ?thesis
  proof (cases p)
    case (Tell target m q)
    with api have w1: "w1 = tell (env_flume env) (Some me) target m w" by (auto split: if_splits)
    define e where "e = (case fst (try_send_message (env_flume env) m (mailboxes w target)) of
        Ok _ \<Rightarrow> Enqueued (Some me) target (Message m) | Err _ \<Rightarrow> DeadLetter target)"
    then have "e = Enqueued (Some me) target (Message m) \<or> e = DeadLetter target" by (auto split: sum.splits)
    then have "watching a b (e # trace w) = watching a b (trace w)"
      "signals_watched (e # trace w) = signals_watched (trace w)" for a b by auto
    then show ?thesis
      by (intro watching_inv_quiet [OF inv t, of w' "[e]" "t\<lparr>phase := ph p'\<rparr>"])
         (simp_all add: w' w1 world_simps ph e_def)
  next
    case (Unwatch other q)
    with api have w1: "w1 = unwatch me other w" by (auto split: if_splits)
    have wd: "set (watched w' a) = (if a = me then set (watched w me) - {other} else set (watched w a))"
        "a \<noteq> me \<Longrightarrow> watched w' a = watched w a" for a
      by (auto simp: w' w1 unwatch_def world_simps)
    show ?thesis
      by (rule me [of "[Unwatched me other]"]) (auto simp: wd ph w1 unwatch_def w' world_simps)
  next
    case (Watch other q)
    with api have watch: "watch (env_flume env) me other w = Some w1" by (auto split: if_splits)
    note fr = watch_frame [OF watch] watch_effect(1) [OF watch]
    from watch_trace [OF watch] obtain es where "trace w1 = es @ trace w"
      "es = [Watched me other] \<or> es = [Enqueued None me (Terminated other), Watched me other]" by force
    then show ?thesis
      by (intro me [of es]) (auto simp: w' goto_frame fr ph)
  next
    case (Spawn actor config q)
    let ?c = "\<lparr>task_actor = actor, task_config = config, parent_stop = (ActorOwner me, generation w me),
      task_restarts = 0, phase = Starting\<rparr>"
    from Spawn api have w1: "tasks w1 = (tasks w)(obs_fresh ob \<mapsto> ?c)" "trace w1 = trace w" "watched w1 = watched w"
      by (auto simp: spawn_with_config_def spawn_def world_simps Let_def)
    from fresh t show ?thesis by (intro me [of "[]"]) (auto simp: w' w1 ph goto_frame)
  qed (use api in simp)
qed

lemma receive_step_watching:
  assumes inv: "watching_inv w" and t: "tasks w me = Some t" and ph: "phase t = Receiving s up"
    and step: "receive_step env me t s up w = Some w'"
  shows "watching_inv w'"
  using step
proof (cases rule: receive_step_cases)
  case stop
  then show ?thesis
    by (intro watching_inv_me [OF inv t, of _ "[]" "t\<lparr>phase := Draining\<rparr>"]) (auto simp: world_simps ph)
next
  case (message m mb)
  let ?t = "t\<lparr>phase := Handling up (receive_code env (task_actor t) me (Message m) s)\<rparr>"
  from message show ?thesis
    by (intro watching_inv_me [OF inv t, of _ "[Delivered me (Message m)]" ?t]) (auto simp: world_simps ph)
next
  case (signal other mb ph' e)
  have same: "c \<in> set (watched w me) \<longleftrightarrow> watching me c (trace w)" for c
    using watching_invD(2) [OF inv t] ph by simp
  have r: "rank ph' = 1" using signal(3) by (auto split: if_splits)
  show ?thesis
    by (rule watching_inv_me [OF inv t, of _ "[e]" "t\<lparr>phase := ph'\<rparr>"])
       (use signal(2,3) same [of other] in \<open>auto simp: world_simps ph r split: if_splits\<close>)
qed

lemma phase_step_watching:
  assumes inv: "watching_inv w" and t: "tasks w me = Some t" and fresh: "tasks w (obs_fresh ob) = None"
    and step: "phase_step env ob me t w = Some w'"
  shows "watching_inv w'"
  using step
proof (cases rule: phase_step_cases)
  case start
  have "\<not> watching me b (trace w)" for b
    using watching_invD(2) [OF inv t, of b] start by auto
  with start show ?thesis
    by (intro watching_inv_me [OF inv t, of _ "[InitCalled me]" "t\<lparr>phase := Initializing (init_code env (task_actor t) me)\<rparr>"])
       (auto simp: world_simps)
next
  case (init p)
  then show ?thesis by (intro user_step_watching [OF inv t fresh, of Initializing p]) simp_all
next
  case (handle up p)
  then show ?thesis by (intro user_step_watching [OF inv t fresh, of "Handling up" p]) simp_all
next
  case (receive s up)
  then show ?thesis by (intro receive_step_watching [OF inv t])
next
  case (plain t' es)
  then have "watching a b (es @ trace w) = watching a b (trace w)"
    "signals_watched (es @ trace w) = signals_watched (trace w)" for a b by auto
  with plain show ?thesis
    by (intro watching_inv_quiet [OF inv t, of _ es t']) (auto simp: plain_phases_def same_but_tasks_def)
next
  case drain
  let ?xs = "fst (drain_mailbox (env_flume env) (mailboxes w me))"
  from drain show ?thesis
    by (intro watching_inv_me [OF inv t, of _ "[Discarded me ?xs]" "t\<lparr>phase := Disconnecting ?xs\<rparr>"])
       (auto simp: terminate_drain_def world_simps split: prod.splits)
next
  case (signal wtc rest)
  let ?es = "case watcher_sink wtc of
        MailboxSink target \<Rightarrow>
          if connected (item_chan (mailboxes w target)) then [Enqueued None target (Terminated me)] else []
      | RootSink \<Rightarrow> []"
  have "watching a b (?es @ trace w) = watching a b (trace w)"
    "signals_watched (?es @ trace w) = signals_watched (trace w)" for a b
    by (auto split: terminated_sink.splits)
  with signal show ?thesis
    by (intro watching_inv_quiet [OF inv t, of _ ?es "t\<lparr>phase := Signaling rest\<rparr>"])
       (auto simp: goto_frame signal_frame watcher_send_trace split: terminated_sink.splits)
next
  case (disconnect drained)
  then show ?thesis
    by (intro watching_inv_me [OF inv t, of _ "[]" "t\<lparr>phase := DroppingQueued drained\<rparr>"])
       (auto simp: terminate_disconnect_def world_simps)
next
  case take_watched
  then show ?thesis
    by (intro watching_inv_me [OF inv t, of _ "[]" "t\<lparr>phase := Unregistering (watched w me)\<rparr>"]) (auto simp: world_simps)
next
  case (unregister other rest)
  then show ?thesis
    by (intro watching_inv_me [OF inv t, of _ "[]" "t\<lparr>phase := Unregistering rest\<rparr>"])
       (auto simp: terminate_unregister_def world_simps)
next
  case take_watchers
  then show ?thesis
    by (intro watching_inv_me [OF inv t, of _ "[]" "t\<lparr>phase := Signaling (fst (take_watchers (mailboxes w me)))\<rparr>"])
       (auto simp: terminate_take_watchers_def world_simps split: prod.splits)
next
  case finish
  then show ?thesis
    by (intro watching_inv_me [OF inv t, of _ "[]" "t\<lparr>phase := Finished\<rparr>"]) (auto simp: world_simps)
qed

lemma watching_inv_same:
  assumes "watching_inv w" and "tasks w' = tasks w" and "watched w' = watched w" and "trace w' = es @ trace w"
    and "\<And>a b. watching a b (es @ trace w) = watching a b (trace w)"
    and "signals_watched (es @ trace w) = signals_watched (trace w)"
  shows "watching_inv w'"
  using assms(1) unfolding watching_inv_def assms(2-6) .

lemma sys_step_watching:
  assumes "sys_step env root w w'" and inv: "watching_inv w"
  shows "watching_inv w'"
  using assms(1)
proof (cases rule: sys_step.cases)
  case (step_task ob me)
  then show ?thesis
    using phase_step_watching [OF inv] by (auto simp: task_step_def fresh_id_def split: option.splits)
next
  case (step_tell target m)
  then show ?thesis
    by (intro watching_inv_same [OF inv, of _ "[case fst (try_send_message (env_flume env) m (mailboxes w target)) of
          Ok _ \<Rightarrow> Enqueued None target (Message m) | Err _ \<Rightarrow> DeadLetter target]"])
       (auto simp: world_simps split: sum.splits)
qed (auto intro!: watching_inv_same [OF inv, of _ "[]"] simp: system_stop_def drop_system_def Let_def world_simps)

lemma sys_reach_watching: "sys_reach env actor config root w \<Longrightarrow> watching_inv w"
proof (induction rule: sys_reach.induct)
  case sys_start
  show ?case by (simp add: watching_inv_def spawn_root_def spawn_def world_simps)
qed (blast intro: sys_step_watching)

end

end
