(* ===== verification/Shutdown.thy ===== *)
theory Shutdown
  imports Trace
begin

text \<open>
  The end of a system: the actor system watches its root through a sink in the root's registry,
  which also keeps the system's stop channel open. The invariant follows that sink from
  \<^verbatim>\<open>watch_root\<close> to the signal that resolves \<^verbatim>\<open>terminated\<close>.
\<close>

definition sink_waits :: "actor_id \<Rightarrow> ('c, 'w, 'k, 'm, 's, 'e) world \<Rightarrow> actor_id \<Rightarrow> bool" where
  "sink_waits root w i \<longleftrightarrow>
     (i, watcher_new i RootSink) \<in> entries (registry_of w root) \<or> watcher_new i RootSink \<in> pending w root"

definition root_inv :: "('w \<Rightarrow> bool) \<Rightarrow> actor_id \<Rightarrow> ('c, 'w, 'k, 'm, 's, 'e) world \<Rightarrow> bool" where
  "root_inv sender_gone root w \<longleftrightarrow>
     (case root_watcher w of
        None \<Rightarrow> \<not> terminated_sent w \<and> system_holds w \<and> \<not> sender_gone (stops w (SystemOwner, 0))
      | Some i \<Rightarrow>
          terminated_sent w \<and> (\<exists>t. tasks w root = Some t \<and> 12 \<le> rank (phase t)) \<and>
            (system_holds w \<longrightarrow> \<not> sender_gone (stops w (SystemOwner, 0))) \<or>
          \<not> terminated_sent w \<and> terminated_tx w \<and> sink_holds w \<and> sink_waits root w i \<and>
            \<not> sender_gone (stops w (SystemOwner, 0)))"

lemma entries_add_mono: "entries r \<subseteq> entries (snd (registry_add x r))"
  by (auto simp: registry_add_def entries_def split: option.splits)

lemma entries_remove_other: "(i, x) \<in> entries r \<Longrightarrow> i \<noteq> me \<Longrightarrow> (i, x) \<in> entries (registry_remove me r)"
  by (auto simp: registry_remove_def entries_def set_delete_alist split: option.splits)

context actor_runtime
begin

text \<open>The entry of somebody who is not an actor stays until the watchers are taken.\<close>

lemma user_step_entries:
  assumes e: "(i, x) \<in> entries (registry_of w a)" and ne: "i \<noteq> me" "a \<noteq> obs_fresh ob"
    and step: "user_step env ob me t ph p w = Some w'"
  shows "(i, x) \<in> entries (registry_of w' a)"
proof -
  from step obtain p' w1 where api: "api_step env (obs_fresh ob) me p w = Some (p', w1)"
    and w': "w' = goto me t (ph p') w1"
    by (auto simp: user_step_def split: option.splits prod.splits)
  show ?thesis
  proof (cases p)
    case (Watch other q)
    with api have "watch (env_flume env) me other w = Some w1" by (auto split: if_splits)
    then show ?thesis
    proof (cases rule: watch_cases)
      case (registered r)
      then show ?thesis
        using e entries_add_mono [of "registry_of w other" "make_watcher me"] by (auto simp: w' world_simps)
    next
      case (terminated w2)
      then show ?thesis using e by (auto simp: w' world_simps)
    qed
  next
    case (Unwatch other q)
    with api e ne show ?thesis
      by (auto simp: w' unwatch_def world_simps entries_remove_other split: if_splits)
  qed (use api e ne in \<open>auto simp: w' spawn_with_config_def spawn_def Let_def world_simps split: if_splits\<close>)
qed

lemma phase_step_entries:
  assumes e: "(i, x) \<in> entries (registry_of w a)" and ne: "i \<noteq> me" "a \<noteq> obs_fresh ob"
    and step: "phase_step env ob me t w = Some w'"
  shows "(i, x) \<in> entries (registry_of w' a) \<or> a = me \<and> x \<in> pending w' me"
  using step
proof (cases rule: phase_step_cases)
  case (init p)
  then show ?thesis using user_step_entries [OF e ne] by blast
next
  case (handle up p)
  then show ?thesis using user_step_entries [OF e ne] by blast
next
  case (receive s up)
  then show ?thesis using receive_step_registry(1) e by metis
next
  case (plain t' es)
  then show ?thesis using e by (simp add: same_but_tasks_def registry_of_def)
next
  case (signal wtc rest)
  then show ?thesis using e watcher_send_registry by (simp add: registry_of_def goto_frame)
next
  case (unregister other rest)
  then show ?thesis
    using e ne by (auto simp: terminate_unregister_def world_simps entries_remove_other)
next
  case take_watchers
  then show ?thesis
    using e entries_take [of "registry_of w me"]
    by (auto simp: terminate_take_watchers_def take_watchers_def pending_def world_simps split: prod.splits)
       (force simp: entries_def)+
qed (use e registry_ops in \<open>auto simp: terminate_drain_def terminate_disconnect_def world_simps
      drain_mailbox_def disconnect_mailbox_def split: prod.splits if_splits\<close>)

text \<open>The system's stop sender goes only with the sink and the system.\<close>

lemma user_step_sender:
  assumes "user_step env ob me t ph p w = Some w'"
  shows "stops w' (SystemOwner, 0) = stops w (SystemOwner, 0)"
proof -
  from assms obtain p' w1 where api: "api_step env (obs_fresh ob) me p w = Some (p', w1)"
    and w': "w' = goto me t (ph p') w1"
    by (auto simp: user_step_def split: option.splits prod.splits)
  show ?thesis
  proof (cases p)
    case (Watch other q)
    with api have "watch (env_flume env) me other w = Some w1" by (auto split: if_splits)
    from watch_frame(2) [OF this] show ?thesis by (simp add: w' goto_frame)
  qed (use api in \<open>auto simp: w' spawn_with_config_def spawn_def Let_def world_simps split: if_splits\<close>)
qed

lemma phase_step_sender:
  assumes inv: "tree_inv receivers w" and t: "tasks w me = Some t" and step: "phase_step env ob me t w = Some w'"
    and ns: "\<And>wtc rest. phase t = Signaling (wtc # rest) \<Longrightarrow> watcher_sink wtc \<noteq> RootSink"
  shows "sender_gone (stops w' (SystemOwner, 0)) = sender_gone (stops w (SystemOwner, 0)) \<and>
    signalled (stops w' (SystemOwner, 0)) = signalled (stops w (SystemOwner, 0))"
  using step
proof (cases rule: phase_step_cases)
  case start
  then show ?thesis
    using stop.clone_rx by (auto simp: start_task_def Let_def world_simps)
next
  case (receive s up)
  then show ?thesis by (cases rule: receive_step_cases [OF receive(2)]) (simp_all add: world_simps)
next
  case (signal wtc rest)
  with ns show ?thesis
    by (auto simp: goto_frame watcher_send_terminated_def send_terminated_to_frame split: terminated_sink.splits)
next
  case finish
  let ?c = "stops w (parent_stop t)"
  have "2 \<le> receivers ?c" using receivers_parent [OF inv t] finish by (simp add: holds_def)
  with stop.drop_rx [of ?c] stop.drop_rx [of "wt_drop_rx (env_watch env) ?c"] finish show ?thesis
    by (simp add: finish_task_def world_simps)
next
  case (init p)
  then show ?thesis using user_step_sender [OF init(2)] by simp
next
  case (handle up p)
  then show ?thesis using user_step_sender [OF handle(2)] by simp
qed (use ns in \<open>auto simp: same_but_tasks_def terminate_drain_def terminate_disconnect_def
      terminate_unregister_def terminate_take_watchers_def world_simps split: prod.splits\<close>)

text \<open>A step changes no other task, and of the pending signals only the one it sends.\<close>

lemma user_step_others:
  assumes "user_step env ob me t ph p w = Some w'" and "a \<noteq> me" and "a \<noteq> obs_fresh ob"
  shows "tasks w' a = tasks w a"
proof -
  from assms obtain p' w1 where api: "api_step env (obs_fresh ob) me p w = Some (p', w1)"
    and w': "w' = goto me t (ph p') w1"
    by (auto simp: user_step_def split: option.splits prod.splits)
  show ?thesis
  proof (cases p)
    case (Watch other q)
    with api have "watch (env_flume env) me other w = Some w1" by (auto split: if_splits)
    from watch_frame(1) [OF this] assms(2) show ?thesis by (simp add: w' goto_frame)
  qed (use api assms(2,3) in \<open>auto simp: w' spawn_with_config_def spawn_def Let_def world_simps split: if_splits\<close>)
qed

lemma phase_step_others:
  assumes step: "phase_step env ob me t w = Some w'" and ne: "a \<noteq> me" "a \<noteq> obs_fresh ob"
  shows "tasks w' a = tasks w a"
  using step
proof (cases rule: phase_step_cases)
  case (init p)
  then show ?thesis using user_step_others ne by blast
next
  case (handle up p)
  then show ?thesis using user_step_others ne by blast
next
  case (receive s up)
  then show ?thesis using receive_step_registry(2) ne by fastforce
qed (use ne in \<open>auto simp: terminate_drain_def terminate_disconnect_def terminate_unregister_def
      terminate_take_watchers_def world_simps split: prod.splits\<close>)

lemma phase_step_pending:
  assumes x: "x \<in> pending w a" and t: "tasks w me = Some t" and fresh: "tasks w (obs_fresh ob) = None"
    and step: "phase_step env ob me t w = Some w'"
  shows "x \<in> pending w' a \<or> (\<exists>rest. phase t = Signaling (x # rest))"
proof (cases "a = me")
  case True
  with x t obtain y rest where ws: "phase t = Signaling (y # rest)" "x \<in> insert y (set rest)"
    by (auto simp: pending_def split: phase.splits) (metis list.set_cases list.set_intros(1) list.set_intros(2))
  with step have "w' = goto me t (Signaling rest) (watcher_send_terminated env me y w)"
    by (simp add: phase_step_eq)
  with ws True show ?thesis by (auto simp: pending_def goto_frame)
next
  case False
  have "a \<noteq> obs_fresh ob" using x fresh by (auto simp: pending_def)
  with phase_step_others [OF step False] x show ?thesis by (simp add: pending_def)
qed

lemma sink_waits_step:
  assumes w: "sink_waits root w i" and i: "tasks w i = None" and t: "tasks w me = Some t"
    and root: "tasks w root \<noteq> None" and fresh: "tasks w (obs_fresh ob) = None"
    and step: "phase_step env ob me t w = Some w'"
    and ns: "\<And>wtc rest. phase t = Signaling (wtc # rest) \<Longrightarrow> watcher_sink wtc \<noteq> RootSink"
  shows "sink_waits root w' i"
proof (cases "(i, watcher_new i RootSink) \<in> entries (registry_of w root)")
  case True
  have "i \<noteq> me" "root \<noteq> obs_fresh ob" using i t root fresh by auto
  from phase_step_entries [OF True this step] show ?thesis by (auto simp: sink_waits_def)
next
  case False
  with w have "watcher_new i RootSink \<in> pending w root" by (simp add: sink_waits_def)
  from phase_step_pending [OF this t fresh step] ns show ?thesis
    by (auto simp: sink_waits_def watcher_new_def)
qed

lemma phase_step_root_inv:
  assumes inv: "root_inv sender_gone root w" and tree: "tree_inv receivers w" and wi: "watchers_inv root w"
    and t: "tasks w me = Some t" and root: "tasks w root = Some tr" and fresh: "tasks w (obs_fresh ob) = None"
    and step: "phase_step env ob me t w = Some w'"
    and ranks: "\<exists>t'. tasks w' root = Some t' \<and> rank (phase tr) \<le> rank (phase t')"
  shows "root_inv sender_gone root w'"
proof (cases "\<exists>wtc rest. phase t = Signaling (wtc # rest) \<and> watcher_sink wtc = RootSink")
  case True
  then obtain wtc rest where wtc: "phase t = Signaling (wtc # rest)" "watcher_sink wtc = RootSink" by blast
  have "valid_watcher root w me wtc" using wi t wtc(1) by (auto simp: watchers_inv_def pending_def)
  with wtc(2) have me: "me = root" "root_watcher w = Some (watcher_id wtc)"
    by (auto simp: valid_watcher_def make_watcher_def watcher_new_def)
      (metis terminated_sink.distinct(1) watcher.select_convs(2))+
  from step wtc have w': "w' = goto me t (Signaling rest) (drop_sink (env_watch env) (snd (root_send_terminated w)))"
    by (simp add: phase_step_eq watcher_send_terminated_def)
  then show ?thesis
    using inv me t
    by (auto simp: root_inv_def world_simps drop_sink_def root_send_terminated_def Let_def)
next
  case False
  then have ns: "\<And>wtc rest. phase t = Signaling (wtc # rest) \<Longrightarrow> watcher_sink wtc \<noteq> RootSink" by blast
  have sys: "same_system w w'" using phase_step_system(1) [OF step] False by blast
  note sender = phase_step_sender [OF tree t step ns]
  have waits: "sink_waits root w' i" if "root_watcher w = Some i" "sink_waits root w i" for i
    using sink_waits_step [OF that(2) _ t _ fresh step ns] wi root that(1) by (simp add: watchers_inv_def)
  have same: "root_watcher w' = root_watcher w" "terminated_sent w' = terminated_sent w" "system_holds w' = system_holds w"
    "terminated_tx w' = terminated_tx w" "sink_holds w' = sink_holds w"
    using sys by (simp_all add: same_system_def)
  show ?thesis
  proof (cases "root_watcher w")
    case None
    with inv sender show ?thesis by (simp add: root_inv_def same)
  next
    case (Some i)
    obtain t' where "tasks w' root = Some t'" "rank (phase tr) \<le> rank (phase t')" using ranks by blast
    with inv sender waits [OF Some] root Some show ?thesis by (auto simp: root_inv_def same)
  qed
qed

lemma watch_root_inv:
  assumes inv: "root_inv sender_gone root w" and mb: "mailbox_inv connected w" and wi: "watchers_inv root w"
    and root: "tasks w root = Some tr" and none: "root_watcher w = None" and fresh: "fresh_id w i"
  shows "root_inv sender_gone root (watch_root (env_watch env) root i w)"
proof (cases "registry_of w root")
  case None
  then have "12 \<le> rank (phase tr)" using mailbox_invD(2) [OF mb root] by simp
  with None inv none root show ?thesis
    by (simp add: root_inv_def watch_root_def registry_add_closed root_send_terminated_def drop_sink_def world_simps)
next
  case (Some ws)
  have "map_of ws i = None"
  proof (rule ccontr)
    assume "map_of ws i \<noteq> None"
    then obtain x where x: "(i, x) \<in> set ws" by (meson map_of_SomeD not_None_eq)
    then have "watcher_id x = i"
      using mailbox_invD(3) [OF mb root] Some by (auto simp: registry_wf_def list_all_iff)
    moreover have "valid_watcher root w root x"
      using wi x Some unfolding watchers_inv_def entries_def by force
    ultimately show False using fresh by (auto simp: valid_watcher_def fresh_id_def)
  qed
  with Some inv none show ?thesis
    by (simp add: root_inv_def watch_root_def registry_add_def sink_waits_def entries_def watcher_new_def world_simps)
qed

lemma sys_step_root:
  assumes step: "sys_step env root w w'" and inv: "root_inv sender_gone root w" and tree: "tree_inv receivers w"
    and mb: "mailbox_inv connected w" and wi: "watchers_inv root w" and root: "tasks w root = Some tr"
  shows "root_inv sender_gone root w'"
  using step
proof (cases rule: sys_step.cases)
  case (step_task ob me)
  then show ?thesis
    using phase_step_root_inv [OF inv tree wi _ root] tree_step_parents [OF sys_step_tree [OF step] root]
    by (auto simp: task_step_def fresh_id_def split: option.splits)
next
  case (step_tell target m)
  have "registry_of w' root = registry_of w root" using step_tell by (simp add: world_simps)
  with step_tell inv show ?thesis
    by (auto simp: root_inv_def sink_waits_def pending_def tell_frame split: option.splits)
next
  case (step_watch_root i)
  then show ?thesis using watch_root_inv [OF inv mb wi root] by simp
next
  case step_stop
  then show ?thesis
    using inv stop.send_replace
    by (simp add: root_inv_def sink_waits_def pending_def system_stop_def world_simps cong: option.case_cong)
next
  case step_drop
  then show ?thesis
    using inv by (auto simp: root_inv_def sink_waits_def pending_def drop_system_def Let_def world_simps
        cong: option.case_cong split: option.splits)
qed

lemma sys_reach_root_inv: "sys_reach env actor config root w \<Longrightarrow> root_inv sender_gone root w"
proof (induction rule: sys_reach.induct)
  case sys_start
  show ?case using stop.channel_new by (simp add: root_inv_def spawn_root_def spawn_def world_simps)
next
  case (sys_next w w')
  obtain tr where "tasks w root = Some tr" using sys_reach_root [OF sys_next.hyps(1)] by blast
  then show ?case
    using sys_next by (blast intro: sys_step_root sys_reach_tree sys_reach_mailbox sys_reach_watchers)
qed

section \<open>What holds of every reachable state\<close>

lemma terminated_all_gone:
  assumes reach: "sys_reach env actor config root w" and rw: "root_watcher w \<noteq> None"
    and res: "system_terminated w = Some r"
  shows "r = Ok () \<and> (\<forall>i. tasks w i \<noteq> None \<and> i \<noteq> root \<longrightarrow> is_finished w i) \<and>
    (\<exists>t. tasks w root = Some t \<and> 12 \<le> rank (phase t))"
proof -
  have sent: "terminated_sent w" and root: "\<exists>t. tasks w root = Some t \<and> 12 \<le> rank (phase t)"
    using sys_reach_root_inv [OF reach] rw res
    by (auto simp: root_inv_def system_terminated_def split: option.splits if_splits)
  then obtain tr where tr: "tasks w root = Some tr" "12 \<le> rank (phase tr)" by blast
  have "is_finished w i" if "tasks w i \<noteq> None" "i \<noteq> root" for i
    using sys_reach_descendant [OF reach that(1)] that(2) tr
      descendants_finished [OF _ sys_reach_tree [OF reach] tr(1)] by simp
  with sent root res show ?thesis by (simp add: system_terminated_def)
qed

lemma drop_does_not_stop:
  assumes reach: "sys_reach env actor config root w" and t: "tasks w root = Some t" "rank (phase t) < 12"
    and "\<not> signalled (stops w (SystemOwner, 0))"
  shows "wt_changed (env_watch env) (stops w (SystemOwner, 0)) = None \<and>
    \<not> parent_stopping (wt_has_changed (env_watch env) (stops w (SystemOwner, 0)))"
proof -
  have "\<not> sender_gone (stops w (SystemOwner, 0))"
    using sys_reach_root_inv [OF reach] t by (auto simp: root_inv_def split: option.splits)
  with assms(4) have "wt_has_changed (env_watch env) (stops w (SystemOwner, 0)) = Ok False"
    and "wt_changed (env_watch env) (stops w (SystemOwner, 0)) = None"
    by (simp_all add: stop.has_changed stop.changed_None)
  then show ?thesis by (simp add: parent_stopping_def)
qed

lemma watched_terminated_signalled:
  assumes reach: "sys_reach env actor config root w" and a: "tasks w a = Some ta" "rank (phase ta) \<le> 2"
    and b: "b \<in> set (watched w a)" "is_finished w b"
  shows "Terminated b \<in> set (contents (item_chan (mailboxes w a)))"
proof -
  obtain tb where tb: "tasks w b = Some tb" "phase tb = Finished" using b(2) by (auto simp: is_finished_def)
  then have "registry_of w b = None" "pending w b = {}"
    using mailbox_invD(2) [OF sys_reach_mailbox [OF reach] tb(1)] by (simp_all add: pending_def)
  with watch_invD(3) [OF sys_reach_watch [OF reach] b(1) a] show ?thesis
    by (simp add: kept_def registered_entries entries_def)
qed

lemma own_mailbox_accepts:
  assumes reach: "sys_reach env actor config root w" and t: "tasks w me = Some t" "rank (phase t) \<le> 3"
  shows "\<exists>mb. sink_send_terminated (env_flume env) other (mailboxes w me) = (Ok (), mb)"
  using mailbox_invD(1) [OF sys_reach_mailbox [OF reach] t(1)] t(2)
    mbx.signal_Ok [of "mailboxes w me" other] by auto

lemma watch_accepts:
  assumes reach: "sys_reach env actor config root w" and t: "tasks w me = Some t" "rank (phase t) = 1"
  shows "watch (env_flume env) me other w \<noteq> None"
proof -
  obtain mb where "sink_send_terminated (env_flume env) other (mailboxes w me) = (Ok (), mb)"
    using own_mailbox_accepts [OF reach t(1)] t(2) by auto
  then have "fst (send_terminated_to (env_flume env) other me w') = Ok ()"
    if "item_chan (mailboxes w' me) = item_chan (mailboxes w me)" for w' :: "('c, 'w, 'k, 'm, 's, 'e) world"
    using that by (auto simp: send_terminated_to_def sink_send_terminated_def try_send_uncounted_def split: option.splits)
  then have "fst (send_terminated_to (env_flume env) other me (log_event e (put_watched me ids (put_registry other r w)))) = Ok ()"
    for e ids r by (simp add: world_simps)
  then show ?thesis
    by (simp add: watch_def Let_def prod.case_eq_if split: sum.splits)
qed

lemma watched_kept:
  assumes reach: "sys_reach env actor config root w" and a: "tasks w a = Some ta" "rank (phase ta) \<le> 2"
    and b: "b \<in> set (watched w a)"
  shows "kept contents w a b"
  by (rule watch_invD(3) [OF sys_reach_watch [OF reach] b a])

end

end
