(* ===== verification/Guarantees.thy ===== *)
theory Guarantees
  imports Shutdown
begin

text \<open>
  The guarantees of a running actor system, for every interleaving of its tasks, and an
  executable run of a small system that reaches the states they speak of.
\<close>

section \<open>Runs\<close>

text \<open>A schedule: which task runs next, or what code outside of actors does.\<close>

datatype 'm action =
    DoTask obs actor_id
  | DoTell actor_id 'm
  | DoWatchRoot actor_id
  | DoStop
  | DoDrop

fun sys_act ::
  "('c, 'w, 'k, 'm, 's, 'e) env \<Rightarrow> actor_id \<Rightarrow> 'm action \<Rightarrow> ('c, 'w, 'k, 'm, 's, 'e) world
     \<Rightarrow> ('c, 'w, 'k, 'm, 's, 'e) world option" where
  "sys_act env root (DoTask ob me) w = (if fresh_id w (obs_fresh ob) then task_step env ob me w else None)"
| "sys_act env root (DoTell target m) w =
     (if tasks w target = None then None else Some (tell (env_flume env) None target m w))"
| "sys_act env root (DoWatchRoot i) w =
     (if root_watcher w = None \<and> fresh_id w i then Some (watch_root (env_watch env) root i w) else None)"
| "sys_act env root DoStop w =
     (if root_watcher w \<noteq> None \<and> system_holds w then Some (system_stop (env_watch env) w) else None)"
| "sys_act env root DoDrop w =
     (if root_watcher w \<noteq> None \<and> system_holds w then Some (drop_system (env_watch env) w) else None)"

fun sys_run ::
  "('c, 'w, 'k, 'm, 's, 'e) env \<Rightarrow> actor_id \<Rightarrow> 'm action list \<Rightarrow> ('c, 'w, 'k, 'm, 's, 'e) world
     \<Rightarrow> ('c, 'w, 'k, 'm, 's, 'e) world option" where
  "sys_run env root [] w = Some w"
| "sys_run env root (a # as) w =
     (case sys_act env root a w of None \<Rightarrow> None | Some w' \<Rightarrow> sys_run env root as w')"

lemma sys_act_step: "sys_act env root a w = Some w' \<Longrightarrow> sys_step env root w w'"
  by (cases a) (auto intro: sys_step.intros split: if_splits)

lemma sys_run_reach:
  "sys_reach env actor config root w \<Longrightarrow> sys_run env root as w = Some w' \<Longrightarrow>
     sys_reach env actor config root w'"
proof (induction as arbitrary: w)
  case (Cons a as)
  then obtain w1 where "sys_act env root a w = Some w1" "sys_run env root as w1 = Some w'"
    by (auto split: option.splits)
  with Cons show ?case using sys_reach.sys_next [OF Cons.prems(1) sys_act_step] by blast
qed simp

section \<open>A small system\<close>

text \<open>
  A parent that spawns a child, watches it and tells it to stop; the child stops on its first
  message. A flaky actor spawns a child and fails on its first message. The channels are the list
  and the counter.
\<close>

datatype demo = Parent | Child | Flaky

definition list_env ::
  "('k \<Rightarrow> actor_id \<Rightarrow> ('k, 'm, ('s, 'e) call) prog)
     \<Rightarrow> ('k \<Rightarrow> actor_id \<Rightarrow> 'm incoming \<Rightarrow> 's \<Rightarrow> ('k, 'm, ('s control, 'e) call) prog)
     \<Rightarrow> ('m incoming list_channel, watch_state, 'k, 'm, 's, 'e) env" where
  "list_env ic rc = \<lparr>env_flume = list_flume, env_watch = counting_watch, init_code = ic, receive_code = rc\<rparr>"

interpretation list_rt: actor_runtime "list_env ic rc" items rx_alive some_tx ws_receivers ws_sent ws_sender_gone
  for ic rc
proof -
  show "actor_runtime (list_env ic rc) items rx_alive some_tx ws_receivers ws_sent ws_sender_gone"
    unfolding actor_runtime_def list_env_def
    using list_box.mailbox_channel_axioms count_watch.watch_channel_axioms by simp
qed


definition demo_init :: "demo \<Rightarrow> actor_id \<Rightarrow> (demo, nat, (nat, unit) call) prog" where
  "demo_init k me =
     (case k of
        Parent \<Rightarrow> Spawn Child actor_config_default (\<lambda>c. Watch c (Tell c 7 (Ret (Return 0))))
      | Child \<Rightarrow> Ret (Return 0)
      | Flaky \<Rightarrow> Spawn Child actor_config_default (\<lambda>c. Ret (Return 0)))"

definition demo_receive ::
  "demo \<Rightarrow> actor_id \<Rightarrow> nat incoming \<Rightarrow> nat \<Rightarrow> (demo, nat, (nat control, unit) call) prog" where
  "demo_receive k me i s =
     (case (k, i) of
        (Child, Message _) \<Rightarrow> Ret (Return Stop)
      | (Flaky, Message _) \<Rightarrow> Ret (Fail ())
      | _ \<Rightarrow> Ret (Return (Continue (s + 1))))"

type_synonym demo_world = "(nat incoming list_channel, watch_state, demo, nat, nat, unit) world"

definition demo_start :: demo_world where
  "demo_start = spawn_root (list_env demo_init demo_receive) Parent actor_config_default (ActorId 1)"

definition run_with :: "actor_id \<Rightarrow> actor_id \<Rightarrow> 'm action" where
  "run_with i me = DoTask \<lparr>obs_now = 0, obs_slept = None, obs_fresh = i\<rparr> me"

text \<open>
  The parent initializes, then the child runs until it has finished: the parent is receiving and
  has a signal in its mailbox. Then it takes the signal, the system is stopped, and the parent
  terminates.
\<close>

definition child_gone :: "nat action list" where
  "child_gone =
     DoWatchRoot (ActorId 3) # replicate 2 (run_with (ActorId 2) (ActorId 1)) @
     replicate 3 (run_with (ActorId 9) (ActorId 1)) @ replicate 16 (run_with (ActorId 9) (ActorId 2))"

definition all_gone :: "nat action list" where
  "all_gone = child_gone @ replicate 2 (run_with (ActorId 9) (ActorId 1)) @ DoStop #
     replicate 13 (run_with (ActorId 9) (ActorId 1))"

definition demo_run :: "nat action list \<Rightarrow> demo_world option" where
  "demo_run as = sys_run (list_env demo_init demo_receive) (ActorId 1) as demo_start"

lemma demo_reach:
  "demo_run as = Some w \<Longrightarrow> sys_reach (list_env demo_init demo_receive) Parent actor_config_default (ActorId 1) w"
  unfolding demo_run_def demo_start_def by (rule sys_run_reach [OF sys_reach.sys_start])

definition after_child :: demo_world where
  "after_child = the (demo_run child_gone)"

definition after_all :: demo_world where
  "after_all = the (demo_run all_gone)"

text \<open>What the properties need to know of the state a run ends in, read off in one evaluation.\<close>

definition view :: "demo_world \<Rightarrow> (nat \<times> gen) option list \<times> actor_id list \<times> actor_id option \<times>
    (unit, system_error) result option \<times> bool \<times> bool" where
  "view w =
     (map (\<lambda>i. map_option (\<lambda>t. (rank (phase t), parent_stop t)) (tasks w i)) [ActorId 1, ActorId 2],
      watched w (ActorId 1), root_watcher w, system_terminated w, system_holds w,
      ws_sent (stops w (SystemOwner, 0)))"

lemma after_child_eval:
  "map_option (\<lambda>w. (view w, trace w)) (demo_run child_gone) =
     Some (([Some (1, (SystemOwner, 0)), Some (13, (ActorOwner (ActorId 1), 0))], [ActorId 2], Some (ActorId 3),
            None, True, False),
       [Enqueued None (ActorId 1) (Terminated (ActorId 2)), ActorDropped (ActorId 2), Discarded (ActorId 2) [],
        Delivered (ActorId 2) (Message 7), InitCalled (ActorId 2),
        Enqueued (Some (ActorId 1)) (ActorId 2) (Message 7), Watched (ActorId 1) (ActorId 2), InitCalled (ActorId 1)])"
  by code_simp

lemma after_all_eval:
  "map_option (\<lambda>w. (view w, take 3 (trace w), drop 3 (trace w))) (demo_run all_gone) =
     Some (([Some (13, (SystemOwner, 0)), Some (13, (ActorOwner (ActorId 1), 0))], [], Some (ActorId 3),
            Some (Ok ()), True, True),
       [ActorDropped (ActorId 1), Discarded (ActorId 1) [], Delivered (ActorId 1) (Terminated (ActorId 2))],
       [Enqueued None (ActorId 1) (Terminated (ActorId 2)), ActorDropped (ActorId 2), Discarded (ActorId 2) [],
        Delivered (ActorId 2) (Message 7), InitCalled (ActorId 2),
        Enqueued (Some (ActorId 1)) (ActorId 2) (Message 7), Watched (ActorId 1) (ActorId 2), InitCalled (ActorId 1)])"
  by code_simp

lemma after_child_facts:
  "demo_run child_gone \<noteq> None"
  "map_option (\<lambda>t. rank (phase t)) (tasks after_child (ActorId 1)) = Some 1"
  "map_option (\<lambda>t. rank (phase t)) (tasks after_child (ActorId 2)) = Some 13"
  "watched after_child (ActorId 1) = [ActorId 2]"
  "trace after_child =
     [Enqueued None (ActorId 1) (Terminated (ActorId 2)), ActorDropped (ActorId 2), Discarded (ActorId 2) [],
      Delivered (ActorId 2) (Message 7), InitCalled (ActorId 2),
      Enqueued (Some (ActorId 1)) (ActorId 2) (Message 7), Watched (ActorId 1) (ActorId 2), InitCalled (ActorId 1)]"
  using after_child_eval by (auto simp: after_child_def view_def)

lemma after_all_facts:
  "demo_run all_gone \<noteq> None"
  "map_option (\<lambda>t. rank (phase t)) (tasks after_all (ActorId 1)) = Some 13"
  "map_option (\<lambda>t. parent_stop t) (tasks after_all (ActorId 2)) = Some (ActorOwner (ActorId 1), 0)"
  "root_watcher after_all = Some (ActorId 3)"
  "system_terminated after_all = Some (Ok ())"
  "trace after_all =
     [ActorDropped (ActorId 1), Discarded (ActorId 1) [], Delivered (ActorId 1) (Terminated (ActorId 2))] @
     trace after_child"
proof -
  obtain w where w: "demo_run all_gone = Some w" using after_all_eval by auto
  have "trace w = take 3 (trace w) @ drop 3 (trace w)" by simp
  with w after_all_eval show "demo_run all_gone \<noteq> None"
    "map_option (\<lambda>t. rank (phase t)) (tasks after_all (ActorId 1)) = Some 13"
    "map_option (\<lambda>t. parent_stop t) (tasks after_all (ActorId 2)) = Some (ActorOwner (ActorId 1), 0)"
    "root_watcher after_all = Some (ActorId 3)"
    "system_terminated after_all = Some (Ok ())"
    "trace after_all =
      [ActorDropped (ActorId 1), Discarded (ActorId 1) [], Delivered (ActorId 1) (Terminated (ActorId 2))] @
      trace after_child"
    by (auto simp: after_all_def view_def after_child_facts(5))
qed

lemma after_child_reach:
  "sys_reach (list_env demo_init demo_receive) Parent actor_config_default (ActorId 1) after_child"
  using demo_reach [of child_gone] after_child_facts(1) by (auto simp: after_child_def)

lemma after_all_reach:
  "sys_reach (list_env demo_init demo_receive) Parent actor_config_default (ActorId 1) after_all"
  using demo_reach [of all_gone] after_all_facts(1) by (auto simp: after_all_def)

section \<open>Properties\<close>

text \<open>
  C1: death watch is race-free. While an actor watches another and has not begun to terminate,
  the signal cannot be lost: the watcher is registered, or the other actor is about to signal it,
  or the signal is in the watcher's mailbox; once the other actor's task has ended, it is there.
\<close>

theorem death_watch_signal:
  assumes "actor_runtime env contents connected tx_alive receivers signalled sender_gone"
    and "sys_reach env actor config root w" and "tasks w a = Some ta" and "rank (phase ta) \<le> 2"
    and "b \<in> set (watched w a)"
  shows "(a \<in> registered (registry_of w b) \<or> make_watcher a \<in> pending w b \<or>
      Terminated b \<in> set (contents (item_chan (mailboxes w a)))) \<and>
    (is_finished w b \<longrightarrow> Terminated b \<in> set (contents (item_chan (mailboxes w a))))"
  using actor_runtime.watched_kept [OF assms] actor_runtime.watched_terminated_signalled [OF assms]
  unfolding kept_def by blast

theorem death_watch_signal_witness:
  "Terminated (ActorId 2) \<in> set (items (item_chan (mailboxes after_child (ActorId 1))))"
proof -
  obtain t1 where t1: "tasks after_child (ActorId 1) = Some t1" "rank (phase t1) \<le> 2"
    using after_child_facts(2) by auto
  obtain t2 where t2: "tasks after_child (ActorId 2) = Some t2" "phase t2 = Finished"
    using after_child_facts(3) by fastforce
  have "ActorId 2 \<in> set (watched after_child (ActorId 1))" by (simp add: after_child_facts(4))
  from death_watch_signal [OF list_rt.actor_runtime_axioms after_child_reach t1 this] t2 show ?thesis
    by (auto simp: is_finished_def)
qed

text \<open>
  C9: nothing comes behind the signal: once any actor was sent the signal that an actor has
  terminated, that actor enqueues no message anywhere anymore. With the FIFO mailboxes, whoever
  receives the signal has seen all messages of that actor it will ever see.
\<close>

theorem no_message_behind_signal:
  assumes "actor_runtime env contents connected tx_alive receivers signalled sender_gone"
    and "sys_reach env actor config root w" and "trace w = later @ Enqueued x a (Terminated b) # earlier"
  shows "Enqueued (Some b) c i \<notin> set later"
  using actor_runtime.sys_reach_signal [OF assms(1,2)] silent_after_split [of later x a b earlier c i]
  by (simp add: signal_inv_def assms(3))

theorem no_message_behind_signal_witness:
  "Enqueued (Some (ActorId 2)) (ActorId 1) (Message (8::nat)) \<notin>
     set [ActorDropped (ActorId 1), Discarded (ActorId 1) [], Delivered (ActorId 1) (Terminated (ActorId 2))]"
  by (rule no_message_behind_signal [OF list_rt.actor_runtime_axioms after_all_reach])
     (simp add: after_all_facts(6) after_child_facts(5))

text \<open>
  C10: every mailbox of a running system is a FIFO that neither loses nor makes up anything: what
  was enqueued in it is what was taken from it (delivered, dropped as an unwatched signal, or
  discarded at termination), followed by what it still holds, in the same order.
\<close>

theorem mailbox_history:
  assumes "actor_runtime env contents connected tx_alive receivers signalled sender_gone"
    and "sys_reach env actor config root w" and "tasks w a \<noteq> None"
  shows "enqueued a (trace w) = taken a (trace w) @ contents (item_chan (mailboxes w a))"
  using queue_invD [OF actor_runtime.sys_reach_queue [OF assms(1,2)], of a] assms(3) by simp

theorem mailbox_history_witness:
  "enqueued (ActorId 1) (trace after_child) = items (item_chan (mailboxes after_child (ActorId 1)))"
proof -
  have "tasks after_child (ActorId 1) \<noteq> None" using after_child_facts(2) by auto
  from mailbox_history [OF list_rt.actor_runtime_axioms after_child_reach this] show ?thesis
    by (simp add: after_child_facts(5))
qed

text \<open>
  C29: an actor receives a terminated signal only while it watches: at the time of the delivery it
  had watched the other actor and since then neither unwatched it nor received its signal. So
  unwatching also suppresses a signal that is already enqueued, and a watch yields one signal.
\<close>

theorem signal_only_while_watching:
  assumes "actor_runtime env contents connected tx_alive receivers signalled sender_gone"
    and "sys_reach env actor config root w"
    and "trace w = later @ Delivered a (Terminated b) # earlier"
  shows "watching a b earlier"
  using actor_runtime.sys_reach_watching [OF assms(1,2)] signals_watched_split [of later a b earlier]
  by (simp add: watching_inv_def assms(3))

theorem signal_only_while_watching_witness: "watching (ActorId 1) (ActorId 2) (trace after_child)"
  by (rule signal_only_while_watching [OF list_rt.actor_runtime_axioms after_all_reach,
        of "[ActorDropped (ActorId 1), Discarded (ActorId 1) []]"])
     (simp add: after_all_facts(6))

text \<open>
  C2: actors terminate bottom-up: when an actor has left \<^verbatim>\<open>stop_children\<close> of its termination,
  hence before it is dropped and its watchers are signalled, the tasks of all its descendants have
  ended.
\<close>

theorem parent_outlives_descendants:
  assumes "actor_runtime env contents connected tx_alive receivers signalled sender_gone"
    and "sys_reach env actor config root w" and "tasks w a = Some ta" and "9 \<le> rank (phase ta)"
    and "descendant w a c"
  shows "is_finished w c"
  by (rule actor_runtime.descendants_finished [OF assms(1,5) actor_runtime.sys_reach_tree [OF assms(1,2)] assms(3,4)])

theorem parent_outlives_descendants_witness: "is_finished after_all (ActorId 2)"
proof -
  obtain t1 where t1: "tasks after_all (ActorId 1) = Some t1" "9 \<le> rank (phase t1)"
    using after_all_facts(2) by auto
  obtain t2 where t2: "tasks after_all (ActorId 2) = Some t2" "parent_stop t2 = (ActorOwner (ActorId 1), 0)"
    using after_all_facts(3) by auto
  show ?thesis
    by (rule parent_outlives_descendants [OF list_rt.actor_runtime_axioms after_all_reach t1 child [OF t2]])
qed

text \<open>
  C6: \<^verbatim>\<open>ActorSystem::terminated\<close> tells the truth: it never fails, and when it resolves, the tasks
  of all descendants of the root have ended and the root is past everything but signalling.
\<close>

theorem system_terminated_all_gone:
  assumes "actor_runtime env contents connected tx_alive receivers signalled sender_gone"
    and "sys_reach env actor config root w" and "root_watcher w \<noteq> None" and "system_terminated w = Some r"
  shows "r = Ok () \<and> (\<forall>i. tasks w i \<noteq> None \<and> i \<noteq> root \<longrightarrow> is_finished w i) \<and>
    (\<exists>t. tasks w root = Some t \<and> 12 \<le> rank (phase t))"
  by (rule actor_runtime.terminated_all_gone [OF assms])

theorem system_terminated_all_gone_witness: "is_finished after_all (ActorId 2)"
proof -
  have "tasks after_all (ActorId 2) \<noteq> None" using after_all_facts(3) by auto
  with system_terminated_all_gone [OF list_rt.actor_runtime_axioms after_all_reach _ after_all_facts(5)]
  show ?thesis by (simp add: after_all_facts(4))
qed

text \<open>
  dropping the \<^verbatim>\<open>ActorSystem\<close> stops nothing: as long as nobody called \<^verbatim>\<open>stop\<close>, the root sees
  no stop request until it is itself signalling its watchers, whether or not the system handle
  still exists.
\<close>

lemma drop_system_keeps_running:
  assumes "actor_runtime env contents connected tx_alive receivers signalled sender_gone"
    and "sys_reach env actor config root w" and "tasks w root = Some t" and "rank (phase t) < 12"
    and "\<not> signalled (stops w (SystemOwner, 0))"
  shows "wt_changed (env_watch env) (stops w (SystemOwner, 0)) = None \<and>
    \<not> parent_stopping (wt_has_changed (env_watch env) (stops w (SystemOwner, 0)))"
  by (rule actor_runtime.drop_does_not_stop [OF assms])

definition after_drop :: demo_world where
  "after_drop = the (demo_run (child_gone @ [DoDrop]))"

lemma after_drop_facts:
  "demo_run (child_gone @ [DoDrop]) \<noteq> None"
  "map_option (\<lambda>t. rank (phase t)) (tasks after_drop (ActorId 1)) = Some 1"
  "\<not> ws_sent (stops after_drop (SystemOwner, 0))" "\<not> system_holds after_drop"
proof -
  have "map_option view (demo_run (child_gone @ [DoDrop])) =
      Some ([Some (1, (SystemOwner, 0)), Some (13, (ActorOwner (ActorId 1), 0))], [ActorId 2], Some (ActorId 3),
            None, False, False)"
    by code_simp
  then show "demo_run (child_gone @ [DoDrop]) \<noteq> None"
    "map_option (\<lambda>t. rank (phase t)) (tasks after_drop (ActorId 1)) = Some 1"
    "\<not> ws_sent (stops after_drop (SystemOwner, 0))" "\<not> system_holds after_drop"
    by (auto simp: after_drop_def view_def)
qed

text \<open>
  a stop wins over the mailbox: an actor whose parent has requested it to stop leaves at the
  next poll, whatever is queued; nothing is taken from its mailbox and nothing delivered.
\<close>

lemma stop_preempts_mailbox:
  assumes "actor_runtime env contents connected tx_alive receivers signalled sender_gone"
    and "tasks w me = Some t" and "phase t = Receiving s up"
    and "signalled (stops w (parent_stop t)) \<or> sender_gone (stops w (parent_stop t))"
  shows "task_step env ob me w = Some (goto me t Draining w)"
proof -
  have "wt_changed (env_watch env) (stops w (parent_stop t)) = Some ()"
    using watch_channel.changed [of "env_watch env" receivers signalled sender_gone]
      actor_runtime.axioms(2) [OF assms(1)] assms(4) by blast
  with assms(2,3) show ?thesis
    by (simp add: task_step_def phase_step_eq receive_step_def next_incoming_def)
qed

text \<open>
  \<^verbatim>\<open>watch\<close> never panics in user code, although it expects the actor's own mailbox to accept
  the signal of an actor that has already terminated.
\<close>

lemma watch_never_panics:
  assumes "actor_runtime env contents connected tx_alive receivers signalled sender_gone"
    and "sys_reach env actor config root w" and "tasks w me = Some t" and "rank (phase t) = 1"
  shows "watch (env_flume env) me other w \<noteq> None"
  by (rule actor_runtime.watch_accepts [OF assms])








end
