(* ===== verification/Progress.thy ===== *)
theory Progress
  imports Guarantees
begin

text \<open>
  Progress of a shutdown: a stop is never lost on its way down the tree, so as long as an actor of
  a stopped system is left, the task of some actor can go on, without any message arriving and any
  sleep ending; and a terminating actor whose children are gone ends by running on its own.
\<close>

section \<open>The signal goes down the tree\<close>

text \<open>The generation of children that an actor awaits has been signalled.\<close>

definition awaited_signalled :: "('w \<Rightarrow> bool) \<Rightarrow> ('c, 'w, 'k, 'm, 's, 'e) world \<Rightarrow> bool" where
  "awaited_signalled signalled w \<longleftrightarrow>
     (\<forall>a t n. tasks w a = Some t \<and> awaits (phase t) n \<longrightarrow> signalled (stops w (ActorOwner a, n)))"

text \<open>Actors can be numbered so that a child has a greater number than its parent.\<close>

definition layered :: "('c, 'w, 'k, 'm, 's, 'e) world \<Rightarrow> (actor_id \<Rightarrow> nat) \<Rightarrow> bool" where
  "layered w d \<longleftrightarrow> (\<forall>i t a n. tasks w i = Some t \<and> parent_stop t = (ActorOwner a, n) \<longrightarrow> d a < d i)"

lemma awaited_signalledD:
  "awaited_signalled signalled w \<Longrightarrow> tasks w a = Some t \<Longrightarrow> awaits (phase t) n \<Longrightarrow>
     signalled (stops w (ActorOwner a, n))"
  by (auto simp: awaited_signalled_def)

lemma layeredD: "layered w d \<Longrightarrow> tasks w i = Some t \<Longrightarrow> parent_stop t = (ActorOwner a, n) \<Longrightarrow> d a < d i"
  by (auto simp: layered_def)

lemma layered_same: "layered w d \<Longrightarrow> tasks w' = tasks w \<Longrightarrow> layered w' d"
  by (simp add: layered_def)

lemma layered_update:
  assumes "layered w d" and "tasks w me = Some t" and "tasks w' = (tasks w)(me \<mapsto> t')"
    and "parent_stop t' = parent_stop t"
  shows "layered w' d"
  unfolding layered_def using assms layeredD [OF assms(1)] by (metis map_upd_Some_unfold)

lemma quiet_not_awaits: "quiet_phases p q \<Longrightarrow> \<not> awaits q n"
  by (simp add: quiet_phases_def)

context actor_runtime
begin

text \<open>One change of a task: others keep awaiting what they awaited.\<close>

lemma awaited_signalled_update:
  assumes "awaited_signalled signalled w" and "\<And>i t n. tasks w' i = Some t \<Longrightarrow> i \<noteq> me \<Longrightarrow>
      awaits (phase t) n \<Longrightarrow> tasks w i = Some t"
    and "\<And>a n. a \<noteq> me \<Longrightarrow> signalled (stops w (ActorOwner a, n)) \<Longrightarrow> signalled (stops w' (ActorOwner a, n))"
    and "\<And>t n. tasks w' me = Some t \<Longrightarrow> awaits (phase t) n \<Longrightarrow> signalled (stops w' (ActorOwner me, n))"
  shows "awaited_signalled signalled w'"
  using assms unfolding awaited_signalled_def by metis

lemma awaited_signalled_step:
  assumes step: "tree_step (env_watch env) receivers w w'" and inv: "tree_inv receivers w"
    and ok: "awaited_signalled signalled w"
  shows "awaited_signalled signalled w'"
  using step
proof (cases rule: tree_step.cases)
  case tree_same
  with ok show ?thesis by (simp add: awaited_signalled_def)
next
  case (tree_quiet me t t')
  with ok show ?thesis
    by (intro awaited_signalled_update [of w w' me]) (auto simp: quiet_not_awaits)
next
  case (tree_start me t t')
  with ok show ?thesis
    by (intro awaited_signalled_update [of w w' me]) (auto simp: Let_def stop.clone_rx)
next
  case (tree_spawn me t i t' c)
  with ok show ?thesis
    by (intro awaited_signalled_update [of w w' me]) (auto simp: quiet_not_awaits split: if_splits)
next
  case (tree_stop me t t')
  let ?g = "(ActorOwner me, generation w me)"
  have "receivers (stops w ?g) = held ?g (tasks w) + own (phase t) (generation w me) (generation w me)"
    using inv tree_stop by (intro counts_okD) (auto simp: tree_inv_def)
  then have "0 < receivers (stops w ?g)" using tree_stop by (simp add: own_def)
  then have signalled: "signalled (stops w' ?g)"
    using tree_stop stop.send [of "stops w ?g"] stop.drop_rx [of "wt_send (env_watch env) (stops w ?g)"]
    by (simp add: Let_def)
  have only: "n = generation w me" if "awaits (phase t') n" for n
    using that tree_stop by (cases "phase t'") auto
  have others: "stops w' (ActorOwner a, n) = stops w (ActorOwner a, n)" if "a \<noteq> me" for a n
    using tree_stop that by (simp add: Let_def)
  have ts: "tasks w' = (tasks w)(me \<mapsto> t')" using tree_stop by simp
  show ?thesis
  proof (rule awaited_signalled_update [OF ok])
    show "signalled (stops w' (ActorOwner me, n))" if "tasks w' me = Some t2" "awaits (phase t2) n" for t2 n
      using that ts signalled only by auto
  qed (simp_all add: ts others)
next
  case (tree_closed me t n t')
  with ok show ?thesis by (intro awaited_signalled_update [of w w' me]) auto
next
  case (tree_context me t t')
  with ok show ?thesis
    by (intro awaited_signalled_update [of w w' me]) (auto dest: awaits_rank)
next
  case (tree_finish me t t')
  let ?c = "stops w (parent_stop t)"
  have "2 \<le> receivers ?c"
    using receivers_parent [OF inv, of me t] tree_finish weight_rank [of "phase t"] by (simp add: holds_def)
  then have "signalled (wt_drop_rx (env_watch env) (wt_drop_rx (env_watch env) ?c)) = signalled ?c"
    using stop.drop_rx [of ?c] stop.drop_rx [of "wt_drop_rx (env_watch env) ?c"] by simp
  with ok tree_finish show ?thesis
    by (intro awaited_signalled_update [of w w' me]) auto
qed

lemma sys_reach_awaited: "sys_reach env actor config root w \<Longrightarrow> awaited_signalled signalled w"
proof (induction rule: sys_reach.induct)
  case sys_start
  show ?case by (auto simp: awaited_signalled_def spawn_root_def spawn_def world_simps)
next
  case (sys_next w w')
  then show ?case using awaited_signalled_step [OF sys_step_tree] sys_reach_tree by blast
qed

lemma layered_step:
  assumes "tree_step (env_watch env) receivers w w'" and "tree_inv receivers w" and "layered w d"
  shows "\<exists>d'. layered w' d'"
  using assms(1)
proof (cases rule: tree_step.cases)
  case (tree_spawn me t i t' c)
  have "a \<noteq> i" if "tasks w j = Some tj" "parent_stop tj = (ActorOwner a, n)" for j tj a n
    using assms(2) children_okD [of w j tj a n] that tree_spawn by (auto simp: tree_inv_def)
  note parent = this
  have me: "me \<noteq> i" and ts: "tasks w' = (tasks w)(i \<mapsto> c, me \<mapsto> t')" using tree_spawn by auto
  have "layered w' (d(i := Suc (d me)))"
    unfolding layered_def
  proof (intro allI impI, elim conjE)
    fix j tj a n
    assume j: "tasks w' j = Some tj" and p: "parent_stop tj = (ActorOwner a, n)"
    show "(d(i := Suc (d me))) a < (d(i := Suc (d me))) j"
    proof (cases "j = i")
      case True
      with j p me ts tree_spawn show ?thesis by simp
    next
      case False
      then obtain tj' where tj': "tasks w j = Some tj'" "parent_stop tj' = (ActorOwner a, n)"
        using j p ts tree_spawn by (cases "j = me") auto
      with assms(3) have "d a < d j" by (auto simp: layered_def)
      with False parent [OF tj'] show ?thesis by simp
    qed
  qed
  then show ?thesis by blast
qed (use assms(3) layered_update in \<open>blast intro: layered_same\<close>)+

lemma sys_reach_layered: "sys_reach env actor config root w \<Longrightarrow> \<exists>d. layered w d"
proof (induction rule: sys_reach.induct)
  case sys_start
  show ?case by (auto simp: layered_def spawn_root_def spawn_def world_simps split: if_splits)
next
  case (sys_next w w')
  then show ?case using layered_step [OF sys_step_tree] sys_reach_tree by blast
qed

end

section \<open>A stopped system is never stuck\<close>

text \<open>The actor that the next API call of a task's user code names.\<close>

fun named_by :: "('k, 'm, 'r) prog \<Rightarrow> actor_id option" where
  "named_by (Tell target _ _) = Some target"
| "named_by (Watch other _) = Some other"
| "named_by (Unwatch other _) = Some other"
| "named_by _ = None"

fun names :: "('k, 'm, 's, 'e) phase \<Rightarrow> actor_id option" where
  "names (Initializing p) = named_by p"
| "names (Handling _ p) = named_by p"
| "names _ = None"

text \<open>References cannot be made up: user code calls methods of actors that have been spawned.\<close>

definition refs_known :: "('c, 'w, 'k, 'm, 's, 'e) world \<Rightarrow> bool" where
  "refs_known w \<longleftrightarrow>
     (\<forall>i t target. tasks w i = Some t \<and> names (phase t) = Some target \<longrightarrow> tasks w target \<noteq> None)"

context actor_runtime
begin

lemma api_step_possible:
  assumes reach: "sys_reach env actor config root w" and t: "tasks w me = Some t" "rank (phase t) = 1"
    and known: "\<And>target. named_by p = Some target \<Longrightarrow> tasks w target \<noteq> None" and call: "\<And>r. p \<noteq> Ret r"
  shows "api_step env fresh me p w \<noteq> None"
  using known call watch_accepts [OF reach t] by (cases p) auto

text \<open>
  The task of an actor whose parent has stopped it is pending only in \<^verbatim>\<open>stop_children\<close>, while
  children of the awaited generation are left.
\<close>

lemma pending_awaits:
  assumes reach: "sys_reach env actor config root w" and t: "tasks w me = Some t" "phase t \<noteq> Finished"
    and stopped: "signalled (stops w (parent_stop t))"
    and known: "\<And>target. names (phase t) = Some target \<Longrightarrow> tasks w target \<noteq> None"
    and stuck: "task_step env ob me w = None"
  shows "\<exists>n. awaits (phase t) n \<and> receivers (stops w (ActorOwner me, n)) \<noteq> 0"
proof -
  have changed: "wt_changed (env_watch env) (stops w (parent_stop t)) = Some ()"
    using stop.changed stopped by simp
  have probe: "parent_stopping (wt_has_changed (env_watch env) (stops w (parent_stop t)))"
    using stop.has_changed [of "stops w (parent_stop t)"] stopped by (auto simp: parent_stopping_def split: sum.splits)
  have step: "phase_step env ob me t w = None" using stuck t(1) by (simp add: task_step_def)
  show ?thesis
  proof (cases "phase t")
    case (Initializing p)
    with step known api_step_possible [OF reach t(1), of p] show ?thesis
      by (auto simp: phase_step_eq user_step_def split: prog.splits option.splits)
  next
    case (Handling up p)
    with step known api_step_possible [OF reach t(1), of p] show ?thesis
      by (auto simp: phase_step_eq user_step_def split: prog.splits option.splits)
  next
    case (Receiving s up)
    with step changed show ?thesis by (simp add: phase_step_eq receive_step_def next_incoming_def)
  next
    case (BackingOff delay)
    with step changed probe show ?thesis
      by (auto simp: phase_step_eq backoff_step_def Let_def await_backoff_def
          split: option.splits interrupted.splits if_splits)
  next
    case (RestartStopping delay n)
    with step show ?thesis
      by (auto simp: phase_step_eq stop_children_closed_def stop.closed_None split: option.splits)
  next
    case (AwaitingChildren n)
    with step show ?thesis
      by (auto simp: phase_step_eq stop_children_closed_def stop.closed_None split: option.splits)
  qed (use step t(2) in \<open>auto simp: phase_step_eq take_watched_def split: list.splits\<close>)
qed

lemma awaited_child:
  assumes inv: "tree_inv receivers w" and t: "tasks w me = Some t" "awaits (phase t) n"
    and "receivers (stops w (ActorOwner me, n)) \<noteq> 0"
  shows "\<exists>i c. tasks w i = Some c \<and> parent_stop c = (ActorOwner me, n) \<and> phase c \<noteq> Finished"
proof -
  have gen: "generation w me = Suc n" using inv t awaited_okD by (auto simp: tree_inv_def)
  have "receivers (stops w (ActorOwner me, n)) = held (ActorOwner me, n) (tasks w) + own (phase t) (Suc n) n"
    using inv t awaits_rank [OF t(2)] gen counts_okD [of receivers w me t n] by (auto simp: tree_inv_def)
  then have "held (ActorOwner me, n) (tasks w) \<noteq> 0" using assms(4) by (simp add: own_def)
  then obtain i where "i \<in> dom (tasks w)" "holds (ActorOwner me, n) (the (tasks w i)) \<noteq> 0"
    unfolding held_def by (meson sum.not_neutral_contains_not_neutral)
  then show ?thesis by (force simp: holds_def split: if_splits)
qed

lemma sys_reach_root_parent:
  "sys_reach env actor config root w \<Longrightarrow> \<exists>t. tasks w root = Some t \<and> parent_stop t = (SystemOwner, 0)"
proof (induction rule: sys_reach.induct)
  case (sys_next w w')
  then show ?case using tree_step_parents [OF sys_step_tree] by fastforce
qed (simp add: spawn_root_def spawn_def world_simps)

text \<open>If any actor is left then the root is, and the system has stopped it.\<close>

lemma root_signalled:
  assumes reach: "sys_reach env actor config root w" and "signalled (stops w (SystemOwner, 0))"
    and left: "tasks w j = Some tj" "phase tj \<noteq> Finished"
  shows "\<exists>t. tasks w root = Some t \<and> phase t \<noteq> Finished \<and> signalled (stops w (parent_stop t))"
proof -
  obtain t where t: "tasks w root = Some t" "parent_stop t = (SystemOwner, 0)"
    using sys_reach_root_parent [OF reach] by blast
  have "phase t \<noteq> Finished"
  proof
    assume "phase t = Finished"
    then have "is_finished w j"
      using sys_reach_descendant [OF reach, of j] left t(1)
        descendants_finished [OF _ sys_reach_tree [OF reach] t(1)] by (fastforce simp: is_finished_def)
    with left show False by (simp add: is_finished_def)
  qed
  with t assms(2) show ?thesis by auto
qed

lemma stopped_not_stuck:
  assumes reach: "sys_reach env actor config root w" and stopped: "signalled (stops w (SystemOwner, 0))"
    and known: "refs_known w"
    and left: "tasks w j = Some tj" "phase tj \<noteq> Finished"
  shows "\<exists>me t. tasks w me = Some t \<and> phase t \<noteq> Finished \<and> signalled (stops w (parent_stop t)) \<and>
    (\<forall>ob. task_step env ob me w \<noteq> None)"
proof -
  note inv = sys_reach_tree [OF reach]
  obtain d where d: "layered w d" using sys_reach_layered [OF reach] by blast
  define X where "X = {me. \<exists>t. tasks w me = Some t \<and> phase t \<noteq> Finished \<and> signalled (stops w (parent_stop t))}"
  have "finite X" using inv by (auto simp: X_def tree_inv_def intro: rev_finite_subset [of "dom (tasks w)"])
  moreover have "X \<noteq> {}"
    using root_signalled [OF reach stopped left] unfolding X_def by blast
  ultimately have "Max (d ` X) \<in> d ` X" by (intro Max_in) auto
  then obtain me where me: "me \<in> X" "d me = Max (d ` X)" by (metis imageE)
  then obtain t where t: "tasks w me = Some t" "phase t \<noteq> Finished" "signalled (stops w (parent_stop t))"
    unfolding X_def by auto
  have "task_step env ob me w \<noteq> None" for ob
  proof
    assume "task_step env ob me w = None"
    then obtain n where n: "awaits (phase t) n" "receivers (stops w (ActorOwner me, n)) \<noteq> 0"
      using pending_awaits [OF reach t(1,2,3) _ \<open>task_step env ob me w = None\<close>] known t(1)
      unfolding refs_known_def by blast
    from awaited_child [OF inv t(1) n] obtain i c where
      c: "tasks w i = Some c" "parent_stop c = (ActorOwner me, n)" "phase c \<noteq> Finished" by blast
    then have "i \<in> X" using awaited_signalledD [OF sys_reach_awaited [OF reach] t(1) n(1)]
      unfolding X_def by auto
    with \<open>finite X\<close> have "d i \<le> d me" by (simp add: me(2))
    with layeredD [OF d c(1,2)] show False by simp
  qed
  with t show ?thesis by blast
qed

end

section \<open>Termination of an actor completes\<close>

text \<open>The task of one actor, polled a number of times in a row.\<close>

fun run_alone ::
  "('c, 'w, 'k, 'm, 's, 'e) env \<Rightarrow> obs \<Rightarrow> actor_id \<Rightarrow> nat \<Rightarrow> ('c, 'w, 'k, 'm, 's, 'e) world
     \<Rightarrow> ('c, 'w, 'k, 'm, 's, 'e) world option" where
  "run_alone env ob me 0 w = Some w"
| "run_alone env ob me (Suc n) w =
     (case task_step env ob me w of None \<Rightarrow> None | Some w' \<Rightarrow> run_alone env ob me n w')"

definition ends_alone ::
  "('c, 'w, 'k, 'm, 's, 'e) env \<Rightarrow> obs \<Rightarrow> actor_id \<Rightarrow> ('c, 'w, 'k, 'm, 's, 'e) world \<Rightarrow> bool" where
  "ends_alone env ob me w \<longleftrightarrow>
     (\<exists>n w'. run_alone env ob me n w = Some w' \<and> is_finished w' me \<and> (\<forall>i. i \<noteq> me \<longrightarrow> tasks w' i = tasks w i))"

lemma ends_alone_step:
  assumes "task_step env ob me w = Some w1" and "\<And>i. i \<noteq> me \<Longrightarrow> tasks w1 i = tasks w i" and "ends_alone env ob me w1"
  shows "ends_alone env ob me w"
proof -
  from assms(3) obtain n w' where "run_alone env ob me n w1 = Some w'" "is_finished w' me"
      "\<forall>i. i \<noteq> me \<longrightarrow> tasks w' i = tasks w1 i"
    by (auto simp: ends_alone_def)
  with assms(1,2) have "run_alone env ob me (Suc n) w = Some w' \<and> is_finished w' me \<and>
      (\<forall>i. i \<noteq> me \<longrightarrow> tasks w' i = tasks w i)" by simp
  then show ?thesis unfolding ends_alone_def by blast
qed

lemma held_finished:
  "(\<And>i t. ts i = Some t \<Longrightarrow> parent_stop t = g \<Longrightarrow> phase t = Finished) \<Longrightarrow> held g ts = 0"
  unfolding held_def holds_def by (intro sum.neutral) auto

context actor_runtime
begin

text \<open>From the last phase backwards; each but the loops is one step.\<close>

lemma ends_signaling:
  "tasks w me = Some t \<Longrightarrow> phase t = Signaling ws \<Longrightarrow> ends_alone env ob me w"
proof (induction ws arbitrary: w t)
  case Nil
  let ?w = "finish_task (env_watch env) me t w"
  have "task_step env ob me w = Some ?w" using Nil by (simp add: task_step_def phase_step_eq)
  moreover have "is_finished ?w me" "i \<noteq> me \<Longrightarrow> tasks ?w i = tasks w i" for i
    by (simp_all add: finish_task_def world_simps is_finished_def)
  ultimately show ?case
    unfolding ends_alone_def by (intro exI [of _ 1] exI [of _ ?w]) simp
next
  case (Cons x ws)
  let ?w = "goto me t (Signaling ws) (watcher_send_terminated env me x w)"
  have "task_step env ob me w = Some ?w" using Cons.prems by (simp add: task_step_def phase_step_eq)
  then show ?case
    by (rule ends_alone_step) (auto simp: world_simps intro: Cons.IH [of _ "t\<lparr>phase := Signaling ws\<rparr>"])
qed

lemma ends_after_children:
  assumes "tasks w me = Some t" and "phase t \<in> {DroppingContext, DroppingActor, TakingWatchers}"
  shows "ends_alone env ob me w"
proof -
  have taking: "ends_alone env ob me w" if "tasks w me = Some t" "phase t = TakingWatchers" for w t
    using that
    by (intro ends_alone_step [of env ob me w "terminate_take_watchers me t w"])
      (auto simp: task_step_def phase_step_eq terminate_take_watchers_def world_simps split: prod.splits
        intro: ends_signaling)
  have dropping: "ends_alone env ob me w" if "tasks w me = Some t" "phase t = DroppingActor" for w t
    using that
    by (intro ends_alone_step [of env ob me w "goto me t TakingWatchers (log_event (ActorDropped me) w)"])
      (auto simp: task_step_def phase_step_eq world_simps intro: taking)
  have "ends_alone env ob me w" if "phase t = DroppingContext"
    using assms(1) that
    by (intro ends_alone_step [of env ob me w "goto me t DroppingActor (drop_context (env_watch env) me w)"])
      (auto simp: task_step_def phase_step_eq world_simps drop_context_def intro: dropping)
  with assms taking dropping show ?thesis by blast
qed

lemma ends_awaiting:
  assumes "tasks w me = Some t" and "phase t = AwaitingChildren n"
    and "receivers (stops w (ActorOwner me, n)) = 0"
  shows "ends_alone env ob me w"
proof -
  have "wt_closed (env_watch env) (stops w (ActorOwner me, n)) = Some ()" using assms(3) stop.closed by simp
  with assms(1,2) have "task_step env ob me w =
      Some (goto me t DroppingContext (update_stop (ActorOwner me, n) (wt_drop_tx (env_watch env)) w))"
    by (simp add: task_step_def phase_step_eq stop_children_closed_def)
  then show ?thesis
    by (rule ends_alone_step) (auto simp: world_simps intro: ends_after_children)
qed

lemma ends_stopping:
  assumes "tasks w me = Some t" and "phase t = StoppingChildren"
    and "receivers (stops w (ActorOwner me, generation w me)) = 1"
  shows "ends_alone env ob me w"
proof -
  let ?c = "stops w (ActorOwner me, generation w me)"
  have "receivers (wt_drop_rx (env_watch env) (wt_send (env_watch env) ?c)) = 0"
    using assms(3) stop.send [of ?c] stop.drop_rx [of "wt_send (env_watch env) ?c"] by simp
  then show ?thesis
    using assms(1,2)
    by (intro ends_alone_step [of env ob me w
          "goto me t (AwaitingChildren (generation w me)) (stop_children (env_watch env) me w)"])
      (auto simp: task_step_def phase_step_eq world_simps stop_children_def Let_def intro: ends_awaiting)
qed

lemma ends_unregistering:
  "tasks w me = Some t \<Longrightarrow> phase t = Unregistering ids \<Longrightarrow>
     receivers (stops w (ActorOwner me, generation w me)) = 1 \<Longrightarrow> ends_alone env ob me w"
proof (induction ids arbitrary: w t)
  case Nil
  then show ?case
    by (intro ends_alone_step [of env ob me w "goto me t StoppingChildren w"])
      (auto simp: task_step_def phase_step_eq world_simps intro: ends_stopping)
next
  case (Cons other ids)
  then show ?case
    by (intro ends_alone_step [of env ob me w "terminate_unregister me t other ids w"])
      (auto simp: task_step_def phase_step_eq world_simps terminate_unregister_def
        intro: Cons.IH [of _ "t\<lparr>phase := Unregistering ids\<rparr>"])
qed

lemma ends_draining:
  assumes "tasks w me = Some t" and "2 \<le> rank (phase t)" "rank (phase t) \<le> 7"
    and "receivers (stops w (ActorOwner me, generation w me)) = 1"
  shows "ends_alone env ob me w"
proof -
  note steps = task_step_def phase_step_eq world_simps
  have watched: "ends_alone env ob me w" if "tasks w me = Some t" "phase t = TakingWatched"
    "receivers (stops w (ActorOwner me, generation w me)) = 1" for w t
    using that
    by (intro ends_alone_step [of env ob me w "goto me t (Unregistering (watched w me)) (put_watched me [] w)"])
      (auto simp: steps take_watched_def intro: ends_unregistering)
  have queued: "ends_alone env ob me w" if "tasks w me = Some t" "phase t = DroppingQueued q"
    "receivers (stops w (ActorOwner me, generation w me)) = 1" for w t q
    using that
    by (intro ends_alone_step [of env ob me w "goto me t TakingWatched w"]) (auto simp: steps intro: watched)
  have disconnecting: "ends_alone env ob me w" if "tasks w me = Some t" "phase t = Disconnecting q"
    "receivers (stops w (ActorOwner me, generation w me)) = 1" for w t q
    using that
    by (intro ends_alone_step [of env ob me w "terminate_disconnect (env_flume env) me t q w"])
      (auto simp: steps terminate_disconnect_def intro: queued)
  have draining: "ends_alone env ob me w" if "tasks w me = Some t" "phase t = Draining"
    "receivers (stops w (ActorOwner me, generation w me)) = 1" for w t
    using that
    by (intro ends_alone_step [of env ob me w "terminate_drain (env_flume env) me t w"])
      (auto simp: steps terminate_drain_def split: prod.splits intro: disconnecting)
  show ?thesis
    using assms watched queued disconnecting draining ends_unregistering ends_stopping
    by (cases "phase t") simp_all
qed

text \<open>Once an actor terminates and its children are gone, it needs nobody else to end.\<close>

lemma terminating_ends:
  assumes inv: "tree_inv receivers w" and t: "tasks w me = Some t" "2 \<le> rank (phase t)"
    and gone: "\<And>i c n. tasks w i = Some c \<Longrightarrow> parent_stop c = (ActorOwner me, n) \<Longrightarrow> phase c = Finished"
  shows "ends_alone env ob me w"
proof -
  have count: "receivers (stops w (ActorOwner me, n)) = own (phase t) (generation w me) n" if "n \<le> generation w me" for n
    using inv t counts_okD [of receivers w me t n] that held_finished [of "tasks w" "(ActorOwner me, n)"] gone
    by (auto simp: tree_inv_def)
  consider "rank (phase t) \<le> 7" | (awaiting) n where "phase t = AwaitingChildren n"
    | "phase t \<in> {DroppingContext, DroppingActor, TakingWatchers}" | ws where "phase t = Signaling ws" | "phase t = Finished"
    by (cases "phase t") auto
  then show ?thesis
  proof cases
    case 1
    then show ?thesis using count [of "generation w me"] t by (intro ends_draining) (auto simp: own_def)
  next
    case awaiting
    then have "generation w me = Suc n" using inv t awaited_okD [of w me t n] by (auto simp: tree_inv_def)
    with count [of n] awaiting t show ?thesis by (intro ends_awaiting) (auto simp: own_def)
  next
    case 5
    with t show ?thesis unfolding ends_alone_def by (intro exI [of _ 0]) (auto simp: is_finished_def)
  qed (use t ends_after_children ends_signaling in blast)+
qed

end

section \<open>A stopped idle system terminates\<close>

text \<open>
  A task is out of user code and not about to enter it: it receives, is being restarted, or
  terminates. What is left to do for it until it has ended, once its parent has stopped it, given
  the number of its watchers and of the actors it watches.
\<close>

fun idle_phase :: "('k, 'm, 's, 'e) phase \<Rightarrow> bool" where
  "idle_phase Starting = False"
| "idle_phase (Initializing _) = False"
| "idle_phase (Handling _ _) = False"
| "idle_phase _ = True"

fun to_do :: "nat \<Rightarrow> nat \<Rightarrow> ('k, 'm, 's, 'e) phase \<Rightarrow> nat" where
  "to_do r k Finished = 0"
| "to_do r k (Signaling ws) = 1 + length ws"
| "to_do r k TakingWatchers = 2 + r"
| "to_do r k DroppingActor = 3 + r"
| "to_do r k DroppingContext = 4 + r"
| "to_do r k (AwaitingChildren _) = 5 + r"
| "to_do r k StoppingChildren = 6 + r"
| "to_do r k (Unregistering ids) = 7 + r + length ids"
| "to_do r k TakingWatched = 8 + r + k"
| "to_do r k (DroppingQueued _) = 9 + r + k"
| "to_do r k (Disconnecting _) = 10 + r + k"
| "to_do r k Draining = 11 + r + k"
| "to_do r k (RestartStopping _ _) = 13 + r + k"
| "to_do r k _ = 12 + r + k"

definition watcher_count :: "watcher_registry \<Rightarrow> nat" where
  "watcher_count r = (case r of None \<Rightarrow> 0 | Some ws \<Rightarrow> length ws)"

definition work_left :: "('c, 'w, 'k, 'm, 's, 'e) world \<Rightarrow> actor_id \<Rightarrow> nat" where
  "work_left w i =
     (case tasks w i of None \<Rightarrow> 0
      | Some t \<Rightarrow> to_do (watcher_count (registry_of w i)) (length (watched w i)) (phase t))"

definition idle :: "('c, 'w, 'k, 'm, 's, 'e) world \<Rightarrow> bool" where
  "idle w \<longleftrightarrow> (\<forall>i t. tasks w i = Some t \<longrightarrow> idle_phase (phase t))"

lemma idle_names: "idle_phase p \<Longrightarrow> names p = None"
  by (cases p) simp_all

lemma idle_refs_known: "idle w \<Longrightarrow> refs_known w"
  by (auto simp: idle_def refs_known_def idle_names)

lemma to_do_mono: "r \<le> r' \<Longrightarrow> to_do r k p \<le> to_do r' k p"
  by (cases p) auto

lemma watcher_count_remove: "watcher_count (registry_remove i r) \<le> watcher_count r"
  by (auto simp: watcher_count_def registry_remove_def length_delete_le split: option.splits)

lemma watcher_count_take: "length (fst (registry_take r)) = watcher_count r"
  by (auto simp: watcher_count_def registry_take_def split: option.splits)

context actor_runtime
begin

text \<open>A step of a stopped idle task leaves less to do, to itself and to nobody more.\<close>

definition lightens ::
  "actor_id \<Rightarrow> ('k, 'm, 's, 'e) task \<Rightarrow> ('c, 'w, 'k, 'm, 's, 'e) world \<Rightarrow> ('c, 'w, 'k, 'm, 's, 'e) world \<Rightarrow> bool" where
  "lightens me t w w' \<longleftrightarrow>
     (\<exists>t'. tasks w' = (tasks w)(me \<mapsto> t') \<and> idle_phase (phase t') \<and>
        to_do (watcher_count (registry_of w' me)) (length (watched w' me)) (phase t') <
        to_do (watcher_count (registry_of w me)) (length (watched w me)) (phase t)) \<and>
     (\<forall>i. i \<noteq> me \<longrightarrow> watched w' i = watched w i \<and>
        watcher_count (registry_of w' i) \<le> watcher_count (registry_of w i)) \<and>
     root_watcher w' = root_watcher w"

lemma lightens_goto:
  assumes "tasks w1 = tasks w" and "idle_phase ph"
    and "to_do (watcher_count (registry_of w1 me)) (length (watched w1 me)) ph <
        to_do (watcher_count (registry_of w me)) (length (watched w me)) (phase t)"
    and "\<And>i. i \<noteq> me \<Longrightarrow> watched w1 i = watched w i \<and>
        watcher_count (registry_of w1 i) \<le> watcher_count (registry_of w i)"
    and "root_watcher w1 = root_watcher w"
  shows "lightens me t w (goto me t' ph w1)"
  using assms unfolding lightens_def by (auto simp: world_simps)

lemma stopped_step_lightens:
  assumes t: "tasks w me = Some t" "idle_phase (phase t)" and stopped: "signalled (stops w (parent_stop t))"
    and step: "task_step env ob me w = Some w'"
  shows "lightens me t w w'"
proof -
  have changed: "wt_changed (env_watch env) (stops w (parent_stop t)) = Some ()"
    using stop.changed stopped by simp
  have probe: "parent_stopping (wt_has_changed (env_watch env) (stops w (parent_stop t)))"
    using stop.has_changed [of "stops w (parent_stop t)"] stopped by (auto simp: parent_stopping_def split: sum.splits)
  have run: "phase_step env ob me t w = Some w'" using step t(1) by (simp add: task_step_def)
  show ?thesis
  proof (cases "phase t")
    case (Receiving s up)
    with run changed have "w' = goto me t Draining w"
      by (simp add: phase_step_eq receive_step_def next_incoming_def)
    with Receiving show ?thesis by (auto intro!: lightens_goto)
  next
    case (Failed up)
    with run probe have "\<exists>n. w' = goto me (t\<lparr>task_restarts := n\<rparr>) Draining w"
      by (auto simp: phase_step_eq await_restart_def split: prod.splits restart.splits)
    with Failed show ?thesis by (auto intro!: lightens_goto)
  next
    case (BackingOff delay)
    with run changed probe have "w' = goto me t Draining w"
      by (auto simp: phase_step_eq backoff_step_def Let_def await_backoff_def
          split: option.splits interrupted.splits if_splits)
    with BackingOff show ?thesis by (auto intro!: lightens_goto)
  next
    case (Signaling ws)
    show ?thesis
    proof (cases ws)
      case Nil
      with Signaling run show ?thesis
        by (auto simp: phase_step_eq finish_task_def update_stop_def registry_of_def intro!: lightens_goto)
    next
      case (Cons x rest)
      with Signaling run have "w' = goto me t (Signaling rest) (watcher_send_terminated env me x w)"
        by (simp add: phase_step_eq)
      with Signaling Cons show ?thesis
        by (auto simp: signal_frame watcher_send_registry watcher_send_system intro!: lightens_goto)
    qed
  next
    case (Unregistering ids)
    with run show ?thesis
      by (cases ids) (auto simp: phase_step_eq terminate_unregister_def world_simps watcher_count_remove
          le_imp_less_Suc intro!: lightens_goto)
  next
    case TakingWatchers
    with run show ?thesis
      by (auto simp: phase_step_eq terminate_take_watchers_def take_watchers_def world_simps
          watcher_count_take [symmetric] split: prod.splits intro!: lightens_goto)
  qed (use t run in \<open>auto simp: phase_step_eq take_watched_def terminate_drain_def terminate_disconnect_def
      stop_children_closed_def drop_context_def world_simps drain_mailbox_def disconnect_mailbox_def
      split: prod.splits option.splits intro!: lightens_goto\<close>)
qed

lemma lightens_idle: "lightens me t w w' \<Longrightarrow> idle w \<Longrightarrow> idle w'"
  by (auto simp: lightens_def idle_def split: if_splits)

lemma lightens_work:
  assumes "lightens me t w w'" and "tasks w me = Some t" and "finite (dom (tasks w))"
  shows "sum (work_left w') (dom (tasks w')) < sum (work_left w) (dom (tasks w))"
proof -
  from assms(1,2) have dom: "dom (tasks w') = dom (tasks w)"
    by (auto simp: lightens_def split: if_splits)
  have "work_left w' i \<le> work_left w i" if "i \<noteq> me" for i
    using assms(1) that by (auto simp: lightens_def work_left_def intro!: to_do_mono split: option.splits)
  moreover have less: "work_left w' me < work_left w me"
    using assms(1,2) by (auto simp: lightens_def work_left_def)
  ultimately have "\<forall>i \<in> dom (tasks w). work_left w' i \<le> work_left w i"
    using less_imp_le by metis
  moreover have "\<exists>i \<in> dom (tasks w). work_left w' i < work_left w i" using less assms(2) by auto
  ultimately show ?thesis unfolding dom by (intro sum_strict_mono_ex1 assms(3))
qed

text \<open>The stop of the system stays signalled, also when the sink of the root is dropped.\<close>

lemma system_stop_stays:
  assumes inv: "tree_inv receivers w" and t: "tasks w me = Some t" and step: "phase_step env ob me t w = Some w'"
    and stopped: "signalled (stops w (SystemOwner, 0))"
  shows "signalled (stops w' (SystemOwner, 0))"
proof (cases "\<exists>x rest. phase t = Signaling (x # rest) \<and> watcher_sink x = RootSink")
  case True
  then obtain rest where "w' = goto me t (Signaling rest) (drop_sink (env_watch env) (snd (root_send_terminated w)))"
    using step by (auto simp: phase_step_eq watcher_send_terminated_def)
  then show ?thesis
    using stopped stop.drop_tx [of "stops w (SystemOwner, 0)"]
    by (simp add: goto_frame root_send_terminated_def drop_sink_def Let_def update_stop_def)
next
  case False
  with phase_step_sender [OF inv t step] stopped show ?thesis by blast
qed

lemma idle_completes:
  assumes "sys_reach env actor config root w" and "signalled (stops w (SystemOwner, 0))" and "idle w"
    and "fresh_id w (obs_fresh ob)"
  shows "\<exists>as w'. set as \<subseteq> range (DoTask ob) \<and> sys_run env root as w = Some w' \<and>
    (\<forall>i. tasks w i \<noteq> None \<longrightarrow> is_finished w' i) \<and> root_watcher w' = root_watcher w"
  using assms
proof (induction "sum (work_left w) (dom (tasks w))" arbitrary: w rule: less_induct)
  case less
  show ?case
  proof (cases "\<forall>i t. tasks w i = Some t \<longrightarrow> phase t = Finished")
    case True
    then show ?thesis by (intro exI [of _ "[]"] exI [of _ w]) (auto simp: is_finished_def)
  next
    case False
    then obtain j tj where left: "tasks w j = Some tj" "phase tj \<noteq> Finished" by blast
    have known: "refs_known w" using less.prems(3) by (rule idle_refs_known)
    from stopped_not_stuck [OF less.prems(1,2) known left] obtain me t where
      t: "tasks w me = Some t" "signalled (stops w (parent_stop t))" and go: "\<forall>ob. task_step env ob me w \<noteq> None"
      by blast
    obtain w1 where step: "task_step env ob me w = Some w1"
      using go [rule_format, of ob] by (cases "task_step env ob me w") simp_all
    have run: "sys_act env root (DoTask ob me) w = Some w1" using step less.prems(4) by simp
    have light: "lightens me t w w1"
      using stopped_step_lightens [OF t(1) _ t(2) step] less.prems(3) t(1) by (auto simp: idle_def)
    note inv = sys_reach_tree [OF less.prems(1)]
    have reach1: "sys_reach env actor config root w1"
      using sys_reach.sys_next [OF less.prems(1) sys_act_step [OF run]] .
    have "signalled (stops w1 (SystemOwner, 0))"
      using system_stop_stays [OF inv t(1)] step t(1) less.prems(2) by (simp add: task_step_def)
    moreover have "fresh_id w1 (obs_fresh ob)"
      using light t(1) less.prems(4) by (auto simp: lightens_def fresh_id_def)
    ultimately obtain as w' where "set as \<subseteq> range (DoTask ob)" "sys_run env root as w1 = Some w'"
        "\<forall>i. tasks w1 i \<noteq> None \<longrightarrow> is_finished w' i" "root_watcher w' = root_watcher w1"
      using less.hyps [OF lightens_work [OF light t(1)] reach1 _ lightens_idle [OF light less.prems(3)]] inv
      by (auto simp: tree_inv_def)
    moreover have "root_watcher w1 = root_watcher w" "\<forall>i. tasks w i \<noteq> None \<longrightarrow> tasks w1 i \<noteq> None"
      using light by (auto simp: lightens_def)
    ultimately show ?thesis
      using run by (intro exI [of _ "DoTask ob me # as"] exI [of _ w']) auto
  qed
qed

text \<open>When the root has ended, the actor system that watches it has been told.\<close>

lemma root_gone_terminated:
  assumes reach: "sys_reach env actor config root w" and "is_finished w root" and "root_watcher w \<noteq> None"
  shows "system_terminated w = Some (Ok ())"
proof -
  obtain t where t: "tasks w root = Some t" "phase t = Finished" using assms(2) by (auto simp: is_finished_def)
  then have "registry_of w root = None" "pending w root = {}"
    using mailbox_invD(2) [OF sys_reach_mailbox [OF reach] t(1)] by (simp_all add: pending_def)
  then have "\<not> sink_waits root w i" for i by (simp add: sink_waits_def entries_def)
  with sys_reach_root_inv [OF reach] assms(3) show ?thesis
    by (auto simp: root_inv_def system_terminated_def split: option.splits)
qed

end

section \<open>A run to witness\<close>

text \<open>A run spawns at most the actors whose IDs its schedule offers.\<close>

lemma sys_run_tasks:
  assumes "actor_runtime env contents connected tx_alive receivers signalled sender_gone"
    and "sys_run env root as w = Some w'" and "tasks w' i \<noteq> None"
  shows "tasks w i \<noteq> None \<or> (\<exists>ob me. DoTask ob me \<in> set as \<and> i = obs_fresh ob)"
  using assms(2)
proof (induction as arbitrary: w)
  case Nil
  with assms(3) show ?case by simp
next
  case (Cons a as)
  then obtain w1 where act: "sys_act env root a w = Some w1" and rest: "sys_run env root as w1 = Some w'"
    by (auto split: option.splits)
  have "tasks w1 i \<noteq> None \<Longrightarrow> tasks w i \<noteq> None \<or> (\<exists>ob me. a = DoTask ob me \<and> i = obs_fresh ob)"
  proof (cases a)
    case (DoTask ob me)
    with act obtain t where "tasks w me = Some t" "phase_step env ob me t w = Some w1"
      by (auto simp: task_step_def split: if_splits option.splits)
    with actor_runtime.phase_step_others [OF assms(1), of ob me t w w1 i] DoTask
    show "tasks w1 i \<noteq> None \<Longrightarrow> tasks w i \<noteq> None \<or> (\<exists>ob me. a = DoTask ob me \<and> i = obs_fresh ob)"
      by (cases "i = me \<or> i = obs_fresh ob") auto
  qed (use act actor_runtime.watch_root_frame [OF assms(1)] in
      \<open>auto simp: world_simps system_stop_def drop_system_def Let_def split: if_splits\<close>)
  with Cons.IH [OF rest] show ?case by auto
qed

text \<open>Parent and child are up and receive; the parent has watched the child and sent it a message.\<close>

definition up_and_stopped :: "nat action list" where
  "up_and_stopped =
     DoWatchRoot (ActorId 3) # replicate 2 (run_with (ActorId 2) (ActorId 1)) @
     replicate 3 (run_with (ActorId 9) (ActorId 1)) @ replicate 2 (run_with (ActorId 9) (ActorId 2)) @ [DoStop]"

definition after_stop :: demo_world where
  "after_stop = the (demo_run up_and_stopped)"

lemma after_stop_eval:
  "map_option (\<lambda>w. (map (\<lambda>i. map_option (\<lambda>t. (rank (phase t), idle_phase (phase t))) (tasks w i))
        [ActorId 1, ActorId 2, ActorId 9], root_watcher w, ws_sent (stops w (SystemOwner, 0))))
     (demo_run up_and_stopped) =
   Some ([Some (1, True), Some (1, True), None], Some (ActorId 3), True)"
  by code_simp

lemma after_stop_run: "demo_run up_and_stopped = Some after_stop"
  using after_stop_eval by (auto simp: after_stop_def)

lemma after_stop_reach:
  "sys_reach (list_env demo_init demo_receive) Parent actor_config_default (ActorId 1) after_stop"
  by (rule demo_reach [OF after_stop_run])

lemma after_stop_facts:
  "map_option (\<lambda>t. (rank (phase t), idle_phase (phase t))) (tasks after_stop (ActorId 1)) = Some (1, True)"
  "map_option (\<lambda>t. (rank (phase t), idle_phase (phase t))) (tasks after_stop (ActorId 2)) = Some (1, True)"
  "tasks after_stop (ActorId 9) = None"
  "root_watcher after_stop = Some (ActorId 3)"
  "ws_sent (stops after_stop (SystemOwner, 0))"
  using after_stop_eval by (simp_all add: after_stop_run)

lemma demo_run_tasks:
  assumes "demo_run as = Some w" and "tasks w i \<noteq> None"
  shows "i = ActorId 1 \<or> (\<exists>ob me. DoTask ob me \<in> set as \<and> i = obs_fresh ob)"
proof -
  have run: "sys_run (list_env demo_init demo_receive) (ActorId 1) as demo_start = Some w"
    using assms(1) by (simp add: demo_run_def)
  have "tasks demo_start i \<noteq> None \<Longrightarrow> i = ActorId 1"
    by (simp add: demo_start_def spawn_root_def spawn_def split: if_splits)
  with sys_run_tasks [OF list_rt.actor_runtime_axioms run assms(2)] show ?thesis by blast
qed

lemma after_stop_tasks: "tasks after_stop i \<noteq> None \<Longrightarrow> i = ActorId 1 \<or> i = ActorId 2"
  using demo_run_tasks [OF after_stop_run, of i] after_stop_facts(3)
  by (auto simp: up_and_stopped_def run_with_def)

lemma after_stop_idle: "idle after_stop"
  unfolding idle_def
proof (intro allI impI)
  fix i t
  assume "tasks after_stop i = Some t"
  with after_stop_tasks [of i] after_stop_facts(1,2) show "idle_phase (phase t)" by auto
qed

section \<open>Properties\<close>

text \<open>
  C8: a shutdown is never stuck. Once the actor system has been stopped and as long as an actor is
  left, in whatever state user code has put the system, some unfinished actor's task can go on:
  without any message, and without the end of any sleep. The stop has reached it, so it does not
  wait for its mailbox or its backoff, and it does not wait for children either.
\<close>

theorem shutdown_never_stuck:
  assumes "actor_runtime env contents connected tx_alive receivers signalled sender_gone"
    and "sys_reach env actor config root w" and "signalled (stops w (SystemOwner, 0))" and "refs_known w"
    and "tasks w j = Some tj" and "phase tj \<noteq> Finished"
  shows "\<exists>me t. tasks w me = Some t \<and> phase t \<noteq> Finished \<and> (\<forall>ob. task_step env ob me w \<noteq> None)"
  using actor_runtime.stopped_not_stuck [OF assms] by blast

theorem shutdown_never_stuck_witness:
  "\<exists>me t. tasks after_stop me = Some t \<and> phase t \<noteq> Finished \<and>
     (\<forall>ob. task_step (list_env demo_init demo_receive) ob me after_stop \<noteq> None)"
proof -
  obtain t where t: "tasks after_stop (ActorId 2) = Some t" "phase t \<noteq> Finished"
    using after_stop_facts(2) by force
  show ?thesis
    by (rule shutdown_never_stuck [OF list_rt.actor_runtime_axioms after_stop_reach after_stop_facts(5)
          idle_refs_known [OF after_stop_idle] t])
qed

text \<open>
  C7: a stopped system terminates. If no actor is in user code when the actor system is stopped,
  then running the tasks the stop has reached is enough: after finitely many steps of the tasks
  alone every actor has ended and \<^verbatim>\<open>ActorSystem::terminated\<close> resolves.
\<close>

theorem stopped_system_terminates:
  assumes "actor_runtime env contents connected tx_alive receivers signalled sender_gone"
    and "sys_reach env actor config root w" and "signalled (stops w (SystemOwner, 0))" and "idle w"
    and "fresh_id w (obs_fresh ob)" and "root_watcher w \<noteq> None"
  shows "\<exists>as w'. set as \<subseteq> range (DoTask ob) \<and> sys_run env root as w = Some w' \<and>
    (\<forall>i. tasks w i \<noteq> None \<longrightarrow> is_finished w' i) \<and> system_terminated w' = Some (Ok ())"
proof -
  obtain as w' where run: "set as \<subseteq> range (DoTask ob)" "sys_run env root as w = Some w'"
      "\<forall>i. tasks w i \<noteq> None \<longrightarrow> is_finished w' i" "root_watcher w' = root_watcher w"
    using actor_runtime.idle_completes [OF assms(1-5)] by blast
  have "is_finished w' root" using run(3) actor_runtime.sys_reach_root [OF assms(1,2)] by simp
  with actor_runtime.root_gone_terminated [OF assms(1) sys_run_reach [OF assms(2) run(2)]] run assms(6)
  show ?thesis by metis
qed

theorem stopped_system_terminates_witness:
  "\<exists>as w'. sys_run (list_env demo_init demo_receive) (ActorId 1) as after_stop = Some w' \<and>
     is_finished w' (ActorId 2) \<and> system_terminated w' = Some (Ok ())"
proof -
  have "fresh_id after_stop (obs_fresh \<lparr>obs_now = 0, obs_slept = None, obs_fresh = ActorId 9\<rparr>)"
    "root_watcher after_stop \<noteq> None" "tasks after_stop (ActorId 2) \<noteq> None"
    using after_stop_facts by (auto simp: fresh_id_def)
  with stopped_system_terminates [OF list_rt.actor_runtime_axioms after_stop_reach after_stop_facts(5)
      after_stop_idle] show ?thesis by blast
qed

text \<open>
  C19: \<^verbatim>\<open>terminate\<close> completes: an actor that has left its run loop and whose children have ended
  ends after finitely many polls of its own task, whatever the others do and whatever time it is;
  no other task is changed by it.
\<close>

theorem terminate_completes:
  assumes "actor_runtime env contents connected tx_alive receivers signalled sender_gone"
    and "sys_reach env actor config root w" and "tasks w me = Some t" and "2 \<le> rank (phase t)"
    and "\<forall>i c n. tasks w i = Some c \<and> parent_stop c = (ActorOwner me, n) \<longrightarrow> phase c = Finished"
  shows "\<exists>n w'. run_alone env ob me n w = Some w' \<and> is_finished w' me \<and>
    (\<forall>i. i \<noteq> me \<longrightarrow> tasks w' i = tasks w i)"
  using actor_runtime.terminating_ends [OF assms(1) actor_runtime.sys_reach_tree [OF assms(1,2)] assms(3,4)] assms(5)
  by (simp add: ends_alone_def)

text \<open>The child has taken its message, stops, and has no children.\<close>

definition child_stops :: "nat action list" where
  "child_stops =
     DoWatchRoot (ActorId 3) # replicate 2 (run_with (ActorId 2) (ActorId 1)) @
     replicate 3 (run_with (ActorId 9) (ActorId 1)) @ replicate 4 (run_with (ActorId 9) (ActorId 2))"

lemma child_stops_eval:
  "map_option (\<lambda>w. map (\<lambda>i. map_option (\<lambda>t. (rank (phase t), parent_stop t)) (tasks w i))
        [ActorId 1, ActorId 2, ActorId 9]) (demo_run child_stops) =
   Some [Some (1, (SystemOwner, 0)), Some (2, (ActorOwner (ActorId 1), 0)), None]"
  by code_simp

theorem terminate_completes_witness:
  "\<exists>w n w'. demo_run child_stops = Some w \<and>
     run_alone (list_env demo_init demo_receive) \<lparr>obs_now = 0, obs_slept = None, obs_fresh = ActorId 9\<rparr> (ActorId 2) n w
       = Some w' \<and> is_finished w' (ActorId 2)"
proof -
  obtain w t where w: "demo_run child_stops = Some w" and t: "tasks w (ActorId 2) = Some t" "2 \<le> rank (phase t)"
    and facts: "map_option parent_stop (tasks w (ActorId 1)) = Some (SystemOwner, 0)"
      "map_option parent_stop (tasks w (ActorId 2)) = Some (ActorOwner (ActorId 1), 0)" "tasks w (ActorId 9) = None"
    using child_stops_eval by auto
  have "parent_stop c \<noteq> (ActorOwner (ActorId 2), n)" if "tasks w i = Some c" for i c n
    using that demo_run_tasks [OF w, of i] facts by (auto simp: child_stops_def run_with_def)
  then have "\<forall>i c n. tasks w i = Some c \<and> parent_stop c = (ActorOwner (ActorId 2), n) \<longrightarrow> phase c = Finished"
    by blast
  from terminate_completes [OF list_rt.actor_runtime_axioms demo_reach [OF w] t this] w show ?thesis by blast
qed

end
