(* ===== verification/Behaviour.thy ===== *)
theory Behaviour
  imports Progress
begin

text \<open>
  What one actor does, apart from all others: \<open>behaves\<close> is the automaton of an actor's code, run
  by the run loop on some incoming messages, with its sends, watches and children. Every actor of a
  running system behaves so, and what it sees of the others is what the trace of the system says.
  The theories on examples prove what their actors do one by one and put it together with the
  guarantees of the mailboxes and of death watch.
\<close>

section \<open>Local histories\<close>

fun acts :: "actor_id \<Rightarrow> 'm event \<Rightarrow> bool" where
  "acts a (Enqueued x _ _) = (x = Some a)"
| "acts a (Watched b _) = (b = a)"
| "acts a (Unwatched b _) = (b = a)"
| "acts a (InitCalled b) = (b = a)"
| "acts a (Delivered b _) = (b = a)"
| "acts a _ = False"

definition local_history :: "actor_id \<Rightarrow> 'm event list \<Rightarrow> 'm event list" where
  "local_history a es = filter (acts a) es"

lemma local_history_simps [simp]:
  "local_history a [] = []"
  "local_history a (e # es) = (if acts a e then e # local_history a es else local_history a es)"
  "local_history a (es @ fs) = local_history a es @ local_history a fs"
  by (simp_all add: local_history_def)

text \<open>
  The state of the automaton: the local history, newest first; the messages it failed to send; its
  children with what they were spawned from; whether its parent made it stop; the number of times
  it stopped its children; and the phase of its task.
\<close>

type_synonym 'k kid = "actor_id \<times> 'k \<times> actor_config"

inductive calls ::
  "actor_id \<Rightarrow> ('k, 'm, 'r) prog \<Rightarrow> 'm event list \<Rightarrow> (actor_id \<times> 'm) list \<Rightarrow> 'k kid list \<Rightarrow> ('k, 'm, 'r) prog \<Rightarrow> bool"
  for me where
  call_tell: "calls me (Tell target m p) [Enqueued (Some me) target (Message m)] [] [] p"
| call_lost: "calls me (Tell target m p) [] [(target, m)] [] p"
| call_watch: "calls me (Watch other p) [Watched me other] [] [] p"
| call_unwatch: "calls me (Unwatch other p) [Unwatched me other] [] [] p"
| call_spawn: "calls me (Spawn actor config p) [] [] [(i, actor, config)] (p i)"

text \<open>The incarnations in a local history, and whether their number lets supervision give up.\<close>

fun inits :: "'m event list \<Rightarrow> nat" where
  "inits [] = 0"
| "inits (InitCalled _ # es) = Suc (inits es)"
| "inits (_ # es) = inits es"

definition exhausted :: "actor_config \<Rightarrow> nat \<Rightarrow> bool" where
  "exhausted cfg n \<longleftrightarrow>
     (case config_strategy cfg of StopStrategy \<Rightarrow> True | Restart policy \<Rightarrow> unat (max_restarts policy) < n)"

inductive behaves ::
  "('c, 'w, 'k, 'm, 's, 'e) env \<Rightarrow> 'k \<Rightarrow> actor_config \<Rightarrow> actor_id \<Rightarrow> 'm event list \<Rightarrow> (actor_id \<times> 'm) list
     \<Rightarrow> 'k kid list \<Rightarrow> bool \<Rightarrow> nat \<Rightarrow> ('k, 'm, 's, 'e) phase \<Rightarrow> bool"
  for env k cfg me where
  starting: "behaves env k cfg me [] [] [] False g Starting"
| started: "behaves env k cfg me [InitCalled me] [] [] False 0 (Initializing (init_code env k me))"
| initializing: "behaves env k cfg me (es @ h) (ls @ l) (ks @ kids) st g (Initializing p')"
    if "behaves env k cfg me h l kids st g (Initializing p)" and "calls me p es ls ks p'"
| handling: "behaves env k cfg me (es @ h) (ls @ l) (ks @ kids) st g (Handling up p')"
    if "behaves env k cfg me h l kids st g (Handling up p)" and "calls me p es ls ks p'"
| init_ok: "behaves env k cfg me h l kids st g (Receiving s now)"
    if "behaves env k cfg me h l kids st g (Initializing (Ret r))" and "catch_and_log r = Some s"
| init_failed: "behaves env k cfg me h l kids st g (Failed None)"
    if "behaves env k cfg me h l kids st g (Initializing (Ret r))" and "catch_and_log r = None"
| receiving: "behaves env k cfg me (Delivered me i # h) l kids st g (Handling up (receive_code env k me i s))"
    if "behaves env k cfg me h l kids st g (Receiving s up)"
| stopped: "behaves env k cfg me h l kids True g Draining"
    if "behaves env k cfg me h l kids st g (Receiving s up)"
| continues: "behaves env k cfg me h l kids st g (Receiving s up)"
    if "behaves env k cfg me h l kids st g (Handling up (Ret r))" and "catch_and_log r = Some (Continue s)"
| stops_itself: "behaves env k cfg me h l kids st g Draining"
    if "behaves env k cfg me h l kids st g (Handling up (Ret r))" and "catch_and_log r = Some Stop"
| fails: "behaves env k cfg me h l kids st g (Failed (Some up))"
    if "behaves env k cfg me h l kids st g (Handling up (Ret r))" and "catch_and_log r = None"
| given_up: "behaves env k cfg me h l kids (stp \<or> st) g Draining"
    if "behaves env k cfg me h l kids st g (Failed up)" and "stp \<or> exhausted cfg (inits h)"
| restarting: "behaves env k cfg me h l kids st (Suc g) (RestartStopping d g)"
    if "behaves env k cfg me h l kids st g (Failed up)" and "config_strategy cfg \<noteq> StopStrategy"
| backing_off: "behaves env k cfg me h l kids st g (BackingOff d)"
    if "behaves env k cfg me h l kids st g (RestartStopping d n)"
| restarted: "behaves env k cfg me (InitCalled me # h) l kids st g (Initializing (init_code env k me))"
    if "behaves env k cfg me h l kids st g (BackingOff d)"
| interrupted: "behaves env k cfg me h l kids True g Draining"
    if "behaves env k cfg me h l kids st g (BackingOff d)"
| closing: "behaves env k cfg me h l kids st g' q"
    if "behaves env k cfg me h l kids st g p" and "2 \<le> rank p" and "rank p \<le> rank q" and "rank q \<le> 7 \<longrightarrow> g' = g"

section \<open>Every actor of a system behaves\<close>

text \<open>
  Whether a stop of the children spawned under a channel is over or under way: the system's is not
  of concern here.
\<close>

definition abandoned :: "('c, 'w, 'k, 'm, 's, 'e) world \<Rightarrow> gen \<Rightarrow> bool" where
  "abandoned w c \<longleftrightarrow>
     (case c of (SystemOwner, _) \<Rightarrow> True
      | (ActorOwner p, n) \<Rightarrow> n < generation w p)"

definition kids_ok :: "('c, 'w, 'k, 'm, 's, 'e) world \<Rightarrow> actor_id \<Rightarrow> 'k kid list \<Rightarrow> bool" where
  "kids_ok w a kids \<longleftrightarrow> distinct (map fst kids) \<and>
     (\<forall>c k cfg. (c, k, cfg) \<in> set kids \<longrightarrow>
        (\<exists>t n. tasks w c = Some t \<and> task_actor t = k \<and> task_config t = cfg \<and> parent_stop t = (ActorOwner a, n))) \<and>
     (\<forall>c t n. tasks w c = Some t \<and> parent_stop t = (ActorOwner a, n) \<longrightarrow> c \<in> fst ` set kids)"

text \<open>The restarts that are counted have happened; one may be under way.\<close>

definition restart_ok :: "('k, 'm, 's, 'e) task \<Rightarrow> nat \<Rightarrow> bool" where
  "restart_ok t n \<longleftrightarrow>
     (case phase t of
        Starting \<Rightarrow> task_restarts t = 0
      | RestartStopping _ _ \<Rightarrow> unat (task_restarts t) \<le> n
      | BackingOff _ \<Rightarrow> unat (task_restarts t) \<le> n
      | _ \<Rightarrow> rank (phase t) = 1 \<longrightarrow> unat (task_restarts t) < n)"

definition lives :: "('c, 'w, 'k, 'm, 's, 'e) env \<Rightarrow> ('c, 'w, 'k, 'm, 's, 'e) world \<Rightarrow> actor_id
    \<Rightarrow> ('k, 'm, 's, 'e) task \<Rightarrow> (actor_id \<times> 'm) list \<Rightarrow> 'k kid list \<Rightarrow> bool \<Rightarrow> bool" where
  "lives env w a t l kids st \<longleftrightarrow>
     behaves env (task_actor t) (task_config t) a (local_history a (trace w)) l kids st (generation w a) (phase t) \<and>
     (\<forall>(x, m) \<in> set l. DeadLetter x \<in> set (trace w)) \<and> kids_ok w a kids \<and> (st \<longrightarrow> abandoned w (parent_stop t)) \<and>
     restart_ok t (inits (local_history a (trace w)))"

definition all_live :: "('c, 'w, 'k, 'm, 's, 'e) env \<Rightarrow> ('c, 'w, 'k, 'm, 's, 'e) world \<Rightarrow> bool" where
  "all_live env w \<longleftrightarrow>
     (\<forall>a t. tasks w a = Some t \<longrightarrow> (\<exists>l kids st. lives env w a t l kids st)) \<and>
     (\<forall>a. tasks w a = None \<longrightarrow> local_history a (trace w) = [])"

text \<open>An actor has not stopped the children of its current generation.\<close>

definition current_open :: "('w \<Rightarrow> bool) \<Rightarrow> ('w \<Rightarrow> bool) \<Rightarrow> ('c, 'w, 'k, 'm, 's, 'e) world \<Rightarrow> bool" where
  "current_open signalled sender_gone w \<longleftrightarrow>
     (\<forall>a t. tasks w a = Some t \<and> 1 \<le> rank (phase t) \<and> rank (phase t) \<le> 9 \<longrightarrow>
        \<not> signalled (stops w (ActorOwner a, generation w a)) \<and>
        \<not> sender_gone (stops w (ActorOwner a, generation w a)))"

text \<open>
  What a step of the task of \<open>me\<close> is to its automaton: the events it logs, the messages it lost, the
  child it spawned, and whether the parent made it stop.
\<close>

definition same_actor :: "('k, 'm, 's, 'e) task \<Rightarrow> ('k, 'm, 's, 'e) task \<Rightarrow> bool" where
  "same_actor t t' \<longleftrightarrow>
     task_actor t' = task_actor t \<and> task_config t' = task_config t \<and> parent_stop t' = parent_stop t"

definition spawns ::
  "actor_id \<Rightarrow> ('c, 'w, 'k, 'm, 's, 'e) world \<Rightarrow> ('k, 'm, 's, 'e) task \<Rightarrow> 'k kid list
     \<Rightarrow> ('c, 'w, 'k, 'm, 's, 'e) world \<Rightarrow> bool" where
  "spawns me w t' ks w' \<longleftrightarrow>
     ks = [] \<and> tasks w' = (tasks w)(me \<mapsto> t') \<or>
     (\<exists>i c. ks = [(i, task_actor c, task_config c)] \<and> tasks w i = None \<and> i \<noteq> me \<and> phase c = Starting \<and> task_restarts c = 0 \<and>
        (\<exists>n. parent_stop c = (ActorOwner me, n)) \<and> tasks w' = (tasks w)(i \<mapsto> c, me \<mapsto> t'))"

definition moves ::
  "('c, 'w, 'k, 'm, 's, 'e) env \<Rightarrow> actor_id \<Rightarrow> ('k, 'm, 's, 'e) task \<Rightarrow> ('c, 'w, 'k, 'm, 's, 'e) world
     \<Rightarrow> ('c, 'w, 'k, 'm, 's, 'e) world \<Rightarrow> bool" where
  "moves env me t w w' \<longleftrightarrow>
     (\<exists>t' es ls ks stp. same_actor t t' \<and> spawns me w t' ks w' \<and> trace w' = es @ trace w \<and>
        (\<forall>a e. a \<noteq> me \<longrightarrow> e \<in> set es \<longrightarrow> \<not> acts a e) \<and> (\<forall>(x, m) \<in> set ls. DeadLetter x \<in> set es) \<and>
        (\<forall>a. a \<noteq> me \<longrightarrow> generation w' a = generation w a) \<and> (stp \<longrightarrow> abandoned w (parent_stop t)) \<and>
        (restart_ok t (inits (local_history me (trace w))) \<longrightarrow>
           restart_ok t' (inits (local_history me es) + inits (local_history me (trace w))) \<and>
           (\<forall>l kids st. behaves env (task_actor t) (task_config t) me (local_history me (trace w)) l kids st (generation w me) (phase t) \<longrightarrow>
              behaves env (task_actor t) (task_config t) me (local_history me es @ local_history me (trace w)) (ls @ l) (ks @ kids)
                (stp \<or> st) (generation w' me) (phase t'))))"

lemma inits_append [simp]: "inits (es @ fs) = inits es + inits fs"
  by (induction es rule: inits.induct) simp_all

lemma restart_ok_late: "2 \<le> rank (phase t) \<Longrightarrow> restart_ok t n"
  by (cases "phase t") (simp_all add: restart_ok_def)

lemma rank_late:
  "2 \<le> rank ph \<Longrightarrow> ph \<noteq> Starting \<and> (\<forall>p. ph \<noteq> Initializing p) \<and> (\<forall>s up. ph \<noteq> Receiving s up) \<and> (\<forall>up p. ph \<noteq> Handling up p) \<and>
     (\<forall>up. ph \<noteq> Failed up) \<and> (\<forall>d n. ph \<noteq> RestartStopping d n) \<and> (\<forall>d. ph \<noteq> BackingOff d)"
  by (cases ph) simp_all

lemma behaves_Starting:
  "behaves env k cfg me h l kids st g Starting \<Longrightarrow> h = [] \<and> l = [] \<and> kids = [] \<and> \<not> st"
  by (auto elim: behaves.cases)

lemma kids_ok_move:
  assumes ok: "kids_ok w a kids" and sp: "spawns me w t' ks w'" and t: "tasks w me = Some t" "same_actor t t'"
  shows "kids_ok w' a ((if a = me then ks else []) @ kids)"
proof -
  have keep: "\<exists>t2. tasks w' c = Some t2 \<and> same_actor t1 t2" if "tasks w c = Some t1" for c t1
    using that sp t by (auto simp: spawns_def same_actor_def)
  have old: "\<exists>t n. tasks w' c = Some t \<and> task_actor t = k \<and> task_config t = cfg \<and> parent_stop t = (ActorOwner a, n)"
    if "(c, k, cfg) \<in> set kids" for c k cfg
    using ok that keep unfolding kids_ok_def same_actor_def by metis
  have known: "c \<in> fst ` set ((if a = me then ks else []) @ kids)"
    if "tasks w' c = Some t2" "parent_stop t2 = (ActorOwner a, n)" for c t2 n
  proof -
    have "tasks w c = Some t1 \<Longrightarrow> parent_stop t1 = (ActorOwner a, n) \<Longrightarrow> c \<in> fst ` set kids" for t1
      using ok by (auto simp: kids_ok_def)
    with that sp t show ?thesis by (auto simp: spawns_def same_actor_def split: if_splits)
  qed
  have "fst x \<notin> fst ` set kids" if "x \<in> set ks" for x
  proof
    assume "fst x \<in> fst ` set kids"
    then obtain k cfg where "(fst x, k, cfg) \<in> set kids" by force
    then have "tasks w (fst x) \<noteq> None" using ok unfolding kids_ok_def by blast
    with sp that show False by (auto simp: spawns_def)
  qed
  moreover have "distinct (map fst ks)" using sp by (auto simp: spawns_def)
  ultimately have "distinct (map fst ((if a = me then ks else []) @ kids))"
    using ok by (auto simp: kids_ok_def)
  moreover have "\<exists>t n. tasks w' c = Some t \<and> task_actor t = k \<and> task_config t = cfg \<and> parent_stop t = (ActorOwner me, n)"
    if "(c, k, cfg) \<in> set ks" for c k cfg
    using sp that by (auto simp: spawns_def)
  ultimately show ?thesis
    using old known unfolding kids_ok_def by (auto split: if_splits)
qed

lemma next_restart_count:
  assumes "next_restart strategy up now r = (After d, n)"
  shows "unat n \<le> Suc (unat r)"
proof -
  have "unat (q + 1) \<le> Suc (unat q)" for q :: u32
    unfolding unat_word_ariths using mod_less_eq_dividend [of "unat q + unat (1 :: u32)"] by simp
  with assms show ?thesis
    by (auto simp: next_restart_def Let_def split: supervision_strategy.splits option.splits if_splits)
qed

context actor_runtime
begin

lemma current_openD:
  "current_open signalled sender_gone w \<Longrightarrow> tasks w a = Some t \<Longrightarrow> 1 \<le> rank (phase t) \<Longrightarrow> rank (phase t) \<le> 9 \<Longrightarrow>
     \<not> signalled (stops w (ActorOwner a, generation w a)) \<and> \<not> sender_gone (stops w (ActorOwner a, generation w a))"
  by (auto simp: current_open_def)

lemma current_open_update:
  assumes ok: "current_open signalled sender_gone w"
    and ts: "\<And>a t. tasks w' a = Some t \<Longrightarrow> a \<noteq> me \<Longrightarrow> 1 \<le> rank (phase t) \<Longrightarrow> tasks w a = Some t"
    and gen: "\<And>a. a \<noteq> me \<Longrightarrow> generation w' a = generation w a"
    and same: "\<And>a n. a \<noteq> me \<Longrightarrow> signalled (stops w' (ActorOwner a, n)) = signalled (stops w (ActorOwner a, n)) \<and>
      sender_gone (stops w' (ActorOwner a, n)) = sender_gone (stops w (ActorOwner a, n))"
    and me: "\<And>t. tasks w' me = Some t \<Longrightarrow> rank (phase t) \<le> 9 \<Longrightarrow>
      \<not> signalled (stops w' (ActorOwner me, generation w' me)) \<and> \<not> sender_gone (stops w' (ActorOwner me, generation w' me))"
  shows "current_open signalled sender_gone w'"
  unfolding current_open_def
proof (intro allI impI)
  fix a t
  assume "tasks w' a = Some t \<and> 1 \<le> rank (phase t) \<and> rank (phase t) \<le> 9"
  then show "\<not> signalled (stops w' (ActorOwner a, generation w' a)) \<and> \<not> sender_gone (stops w' (ActorOwner a, generation w' a))"
    using ts [of a t] gen [of a] same [of a] me [of t] current_openD [OF ok, of a t] by (cases "a = me") auto
qed

lemma current_open_step:
  assumes step: "tree_step (env_watch env) receivers w w'" and inv: "tree_inv receivers w"
    and ok: "current_open signalled sender_gone w"
  shows "current_open signalled sender_gone w'"
  using step
proof (cases rule: tree_step.cases)
  case tree_same
  with ok show ?thesis by (simp add: current_open_def)
next
  case (tree_quiet me t t')
  note facts = tree_quiet current_openD [OF ok tree_quiet(1)]
  show ?thesis
    by (rule current_open_update [OF ok, of w' me]) (use facts in \<open>auto simp: quiet_phases_def\<close>)
next
  case (tree_start me t t')
  have ne: "parent_stop t \<noteq> (ActorOwner me, 0)"
    using inv children_okD [of w me t me 0] tree_start by (auto simp: tree_inv_def child_ok_def)
  have mine: "stops w' (ActorOwner me, 0) = wt_channel (env_watch env)"
    using tree_start ne by (auto simp: Let_def)
  have clone: "signalled (stops w' (ActorOwner a, n)) = signalled (stops w (ActorOwner a, n)) \<and>
      sender_gone (stops w' (ActorOwner a, n)) = sender_gone (stops w (ActorOwner a, n))" if "a \<noteq> me" for a n
    using tree_start that stop.clone_rx by (auto simp: Let_def)
  have ts: "tasks w' = (tasks w)(me \<mapsto> t')" and gen: "generation w' = (generation w)(me := 0)"
    using tree_start by simp_all
  show ?thesis
    by (rule current_open_update [OF ok, of w' me]) (use clone mine stop.channel_new in \<open>simp_all add: ts gen\<close>)
next
  case (tree_spawn me t i t' c)
  have clone: "signalled (stops w' (ActorOwner a, n)) = signalled (stops w (ActorOwner a, n)) \<and>
      sender_gone (stops w' (ActorOwner a, n)) = sender_gone (stops w (ActorOwner a, n))" for a n
    using tree_spawn stop.clone_rx by auto
  have ts: "tasks w' = (tasks w)(i \<mapsto> c, me \<mapsto> t')" and gen: "generation w' = generation w"
    and c: "phase c = Starting" using tree_spawn by simp_all
  have "\<not> signalled (stops w (ActorOwner me, generation w me)) \<and> \<not> sender_gone (stops w (ActorOwner me, generation w me))"
    using tree_spawn by (intro current_openD [OF ok tree_spawn(1)]) (auto simp: quiet_phases_def)
  then show ?thesis
    by (intro current_open_update [OF ok, of w' me]) (auto simp: ts gen clone c split: if_splits)
next
  case (tree_stop me t t')
  have mine: "stops w' (ActorOwner me, Suc (generation w me)) = wt_channel (env_watch env)"
    and others: "a \<noteq> me \<Longrightarrow> stops w' (ActorOwner a, n) = stops w (ActorOwner a, n)" for a n
    using tree_stop by (auto simp: Let_def)
  have ts: "tasks w' = (tasks w)(me \<mapsto> t')" and gen: "generation w' = (generation w)(me := Suc (generation w me))"
    using tree_stop by simp_all
  show ?thesis
    by (rule current_open_update [OF ok, of w' me]) (use mine others stop.channel_new in \<open>simp_all add: ts gen\<close>)
next
  case (tree_closed me t n t')
  have "generation w me = Suc n" using inv awaited_okD [of w me t n] tree_closed by (auto simp: tree_inv_def)
  moreover have "1 \<le> rank (phase t) \<and> rank (phase t) \<le> 9" using tree_closed by auto
  ultimately show ?thesis
    using current_openD [OF ok tree_closed(1)] tree_closed
    by (intro current_open_update [OF ok, of w' me]) auto
next
  case (tree_context me t t')
  then show ?thesis by (intro current_open_update [OF ok, of w' me]) auto
next
  case (tree_finish me t t')
  let ?c = "stops w (parent_stop t)"
  have "2 \<le> receivers ?c"
    using receivers_parent [OF inv, of me t] tree_finish weight_rank [of "phase t"] by (simp add: holds_def)
  then have drop: "signalled (wt_drop_rx (env_watch env) (wt_drop_rx (env_watch env) ?c)) = signalled ?c \<and>
      sender_gone (wt_drop_rx (env_watch env) (wt_drop_rx (env_watch env) ?c)) = sender_gone ?c"
    using stop.drop_rx [of ?c] stop.drop_rx [of "wt_drop_rx (env_watch env) ?c"] by simp
  have same: "signalled (stops w' (ActorOwner a, n)) = signalled (stops w (ActorOwner a, n)) \<and>
    sender_gone (stops w' (ActorOwner a, n)) = sender_gone (stops w (ActorOwner a, n))" for a n
    using tree_finish drop by (cases "parent_stop t = (ActorOwner a, n)") auto
  have ts: "tasks w' = (tasks w)(me \<mapsto> t')" "phase t' = Finished" and gen: "generation w' = generation w"
    using tree_finish by simp_all
  show ?thesis
    by (rule current_open_update [OF ok, of w' me]) (simp_all add: ts gen same)
qed

lemma sys_reach_current: "sys_reach env actor config root w \<Longrightarrow> current_open signalled sender_gone w"
proof (induction rule: sys_reach.induct)
  case sys_start
  show ?case by (auto simp: current_open_def spawn_root_def spawn_def world_simps)
next
  case (sys_next w w')
  then show ?case using current_open_step [OF sys_step_tree] sys_reach_tree by blast
qed

lemma abandoned_step:
  assumes step: "tree_step (env_watch env) receivers w w'" and inv: "tree_inv receivers w"
    and t: "tasks w a = Some t" and "abandoned w (parent_stop t)"
  shows "abandoned w' (parent_stop t)"
proof (cases "parent_stop t")
  case (Pair ow n)
  show ?thesis
  proof (cases ow)
    case SystemOwner
    with Pair show ?thesis by (simp add: abandoned_def)
  next
    case (ActorOwner p)
    with Pair inv t obtain tp where tp: "tasks w p = Some tp" "1 \<le> rank (phase tp)"
      using children_okD [of w a t p n] by (auto simp: tree_inv_def child_ok_def)
    have "generation w p \<le> generation w' p"
      using step tp by (cases rule: tree_step.cases) auto
    then show ?thesis using assms(4) tp Pair ActorOwner by (auto simp: abandoned_def)
  qed
qed

lemma moves_mine:
  assumes old: "lives env w me t l kids st" and inv: "tree_inv receivers w" and t: "tasks w me = Some t"
    and moves: "moves env me t w w'" and tree: "tree_step (env_watch env) receivers w w'"
  shows "\<exists>t' es ls ks stp. tasks w' me = Some t' \<and> trace w' = es @ trace w \<and> (\<forall>(x, m) \<in> set ls. DeadLetter x \<in> set es) \<and>
    lives env w' me t' (ls @ l) (ks @ kids) (stp \<or> st)"
proof -
  from moves obtain t' es ls ks stp where same: "same_actor t t'" and sp: "spawns me w t' ks w'"
    and tr: "trace w' = es @ trace w" and lost: "\<forall>(x, m) \<in> set ls. DeadLetter x \<in> set es"
    and stp: "stp \<longrightarrow> abandoned w (parent_stop t)"
    and beh: "restart_ok t (inits (local_history me (trace w))) \<longrightarrow>
           restart_ok t' (inits (local_history me es) + inits (local_history me (trace w))) \<and>
           (\<forall>l kids st. behaves env (task_actor t) (task_config t) me (local_history me (trace w)) l kids st (generation w me) (phase t) \<longrightarrow>
              behaves env (task_actor t) (task_config t) me (local_history me es @ local_history me (trace w)) (ls @ l) (ks @ kids)
                (stp \<or> st) (generation w' me) (phase t'))"
    unfolding moves_def by blast
  have "tasks w' me = Some t'" using sp by (auto simp: spawns_def)
  moreover have "lives env w' me t' (ls @ l) (ks @ kids) (stp \<or> st)"
    using old beh kids_ok_move [OF _ sp t same, of me kids] lost stp abandoned_step [OF tree inv t] same
    by (auto simp: lives_def tr same_actor_def)
  ultimately show ?thesis using tr lost by blast
qed

lemma moves_others:
  assumes old: "lives env w a ta l kids st" and inv: "tree_inv receivers w" and t: "tasks w me = Some t" and ta: "tasks w a = Some ta"
    and moves: "moves env me t w w'" and tree: "tree_step (env_watch env) receivers w w'" and a: "a \<noteq> me"
  shows "tasks w' a = Some ta \<and> lives env w' a ta l kids st"
proof -
  from moves obtain t' es ks where same: "same_actor t t'" and sp: "spawns me w t' ks w'"
    and tr: "trace w' = es @ trace w" and mine: "\<forall>a e. a \<noteq> me \<longrightarrow> e \<in> set es \<longrightarrow> \<not> acts a e"
    and gen: "\<forall>a. a \<noteq> me \<longrightarrow> generation w' a = generation w a"
    unfolding moves_def by blast
  have "local_history a (trace w') = local_history a (trace w)"
    using mine a by (auto simp: tr local_history_def filter_empty_conv)
  moreover have "tasks w' a = Some ta" using ta a sp by (auto simp: spawns_def split: if_splits)
  ultimately show ?thesis
    using old a gen kids_ok_move [OF _ sp t same, of a kids] abandoned_step [OF tree inv ta]
    by (auto simp: lives_def tr)
qed

lemma moves_all_live:
  assumes live: "all_live env w" and inv: "tree_inv receivers w" and t: "tasks w me = Some t"
    and moves: "moves env me t w w'" and tree: "tree_step (env_watch env) receivers w w'"
  shows "all_live env w'"
proof -
  from moves obtain t' es ks where same: "same_actor t t'" and sp: "spawns me w t' ks w'"
    and tr: "trace w' = es @ trace w" and mine: "\<forall>a e. a \<noteq> me \<longrightarrow> e \<in> set es \<longrightarrow> \<not> acts a e"
    unfolding moves_def by blast
  have hist: "local_history a (trace w') = local_history a (trace w)" if "a \<noteq> me" for a
    using mine that by (auto simp: tr local_history_def filter_empty_conv)
  have "\<exists>l kids st. lives env w' a ta l kids st" if ta: "tasks w' a = Some ta" for a ta
  proof (cases "tasks w a")
    case (Some t0)
    then obtain l kids st where old: "lives env w a t0 l kids st" using live unfolding all_live_def by blast
    show ?thesis
    proof (cases "a = me")
      case True
      with moves_mine [OF _ inv t moves tree] old Some t ta show ?thesis by fastforce
    next
      case False
      with moves_others [OF old inv t Some moves tree] ta show ?thesis by auto
    qed
  next
    case None
    then have other: "a \<noteq> me" using t by auto
    with None ta sp have new: "phase ta = Starting" "task_restarts ta = 0" "\<exists>n. parent_stop ta = (ActorOwner me, n)"
      by (auto simp: spawns_def split: if_splits)
    have "local_history a (trace w') = []" using live None hist [OF other] by (simp add: all_live_def)
    moreover have "parent_stop tc \<noteq> (ActorOwner a, n)" if c: "tasks w' c = Some tc" for c tc n
    proof
      assume p: "parent_stop tc = (ActorOwner a, n)"
      have "tree_inv receivers w'" by (rule tree_step_inv [OF tree inv])
      with children_okD [of w' c tc a n] c p ta new(1) show False by (auto simp: tree_inv_def child_ok_def)
    qed
    ultimately have "lives env w' a ta [] [] False"
      using behaves.starting [of env "task_actor ta" "task_config ta" a "generation w' a"] new
      by (auto simp: lives_def kids_ok_def restart_ok_def)
    then show ?thesis by blast
  qed
  moreover have "local_history a (trace w') = []" if "tasks w' a = None" for a
  proof -
    have "tasks w a = None" "a \<noteq> me" using that sp by (auto simp: spawns_def split: if_splits)
    with live hist show ?thesis by (simp add: all_live_def)
  qed
  ultimately show ?thesis by (simp add: all_live_def)
qed

lemma stop_abandons:
  assumes inv: "tree_inv receivers w" and open_gen: "current_open signalled sender_gone w" and t: "tasks w me = Some t"
    and "signalled (stops w (parent_stop t)) \<or> sender_gone (stops w (parent_stop t))"
  shows "abandoned w (parent_stop t)"
proof (cases "parent_stop t")
  case (Pair ow n)
  show ?thesis
  proof (cases ow)
    case (ActorOwner p)
    with Pair inv t obtain tp where "tasks w p = Some tp" "child_ok tp (generation w p) n (phase t)"
      using children_okD [of w me t p n] by (auto simp: tree_inv_def)
    then show ?thesis
      using current_openD [OF open_gen, of p tp] assms(4) Pair ActorOwner
      by (cases "n = generation w p") (auto simp: abandoned_def child_ok_def)
  qed (simp add: Pair abandoned_def)
qed

lemma movesI:
  assumes "same_actor t t'" and "tasks w' = (tasks w)(me \<mapsto> t')" and "trace w' = es @ trace w"
    and "\<And>a e. a \<noteq> me \<Longrightarrow> e \<in> set es \<Longrightarrow> \<not> acts a e" and "\<And>a. a \<noteq> me \<Longrightarrow> generation w' a = generation w a"
    and "stp \<Longrightarrow> abandoned w (parent_stop t)"
    and "\<And>n. restart_ok t n \<Longrightarrow> restart_ok t' (inits (local_history me es) + n)"
    and "\<And>h l kids st. restart_ok t (inits h) \<Longrightarrow> behaves env (task_actor t) (task_config t) me h l kids st (generation w me) (phase t) \<Longrightarrow>
      behaves env (task_actor t) (task_config t) me (local_history me es @ h) l kids (stp \<or> st) (generation w' me) (phase t')"
  shows "moves env me t w w'"
  unfolding moves_def spawns_def
  by (rule exI [of _ t'], rule exI [of _ es], rule exI [of _ "[]"], rule exI [of _ "[]"], rule exI [of _ stp])
     (use assms in auto)

lemma user_step_moves:
  assumes t: "tasks w me = Some t" and fresh: "tasks w (obs_fresh ob) = None"
    and ph: "phase t = ph p"
    and beh: "\<And>h l kids st es ls ks p'. behaves env (task_actor t) (task_config t) me h l kids st (generation w me) (ph p) \<Longrightarrow>
      calls me p es ls ks p' \<Longrightarrow> behaves env (task_actor t) (task_config t) me (es @ h) (ls @ l) (ks @ kids) st (generation w me) (ph p')"
    and ok: "\<And>n p'. restart_ok t n \<Longrightarrow> restart_ok (t\<lparr>phase := ph p'\<rparr>) n"
    and step: "user_step env ob me t ph p w = Some w'"
  shows "moves env me t w w'"
proof -
  from step obtain p' w1 where api: "api_step env (obs_fresh ob) me p w = Some (p', w1)"
    and w': "w' = goto me t (ph p') w1"
    by (auto simp: user_step_def split: option.splits prod.splits)
  let ?t = "t\<lparr>phase := ph p'\<rparr>"
  have mv: "moves env me t w w'"
    if "spawns me w ?t ks w'" "trace w' = es @ trace w" "\<forall>a e. a \<noteq> me \<longrightarrow> e \<in> set es \<longrightarrow> \<not> acts a e"
      "\<forall>(x, m) \<in> set ls. DeadLetter x \<in> set es" "generation w' = generation w"
      "calls me p (local_history me es) ls ks p'" "inits (local_history me es) = 0" for es ls ks
    unfolding moves_def
    by (rule exI [of _ ?t], rule exI [of _ es], rule exI [of _ ls], rule exI [of _ ks], rule exI [of _ False])
       (use that beh ok in \<open>auto simp: same_actor_def ph\<close>)
  show ?thesis
  proof (cases p)
    case (Tell target m q)
    show ?thesis
    proof (cases "fst (try_send_message (env_flume env) m (mailboxes w target))")
      case (Inl e)
      with Tell api show ?thesis
        by (intro mv [of "[]" "[DeadLetter target]" "[(target, m)]"])
           (auto simp: w' spawns_def world_simps intro: calls.intros split: if_splits)
    next
      case (Inr u)
      with Tell api show ?thesis
        by (intro mv [of "[]" "[Enqueued (Some me) target (Message m)]" "[]"])
           (auto simp: w' spawns_def world_simps intro: calls.intros split: if_splits)
    qed
  next
    case (Unwatch other q)
    with api show ?thesis
      by (intro mv [of "[]" "[Unwatched me other]" "[]"])
         (auto simp: w' spawns_def unwatch_def world_simps intro: calls.intros split: if_splits)
  next
    case (Watch other q)
    with api have watch: "watch (env_flume env) me other w = Some w1" and p': "p' = q" by (auto split: if_splits)
    note fr = watch_frame [OF watch]
    from watch_trace [OF watch] Watch p' show ?thesis
      using mv [of "[]" "[Watched me other]" "[]"] mv [of "[]" "[Enqueued None me (Terminated other), Watched me other]" "[]"]
      by (auto simp: w' spawns_def fr goto_frame intro: calls.intros)
  next
    case (Spawn actor config q)
    let ?c = "\<lparr>task_actor = actor, task_config = config, parent_stop = (ActorOwner me, generation w me),
      task_restarts = 0, phase = Starting\<rparr>"
    from Spawn api have w1: "tasks w1 = (tasks w)(obs_fresh ob \<mapsto> ?c)" "trace w1 = trace w" "generation w1 = generation w"
      and p': "p' = q (obs_fresh ob)"
      by (auto simp: spawn_with_config_def spawn_def world_simps Let_def)
    have "spawns me w ?t [(obs_fresh ob, actor, config)] w'"
      unfolding spawns_def using t fresh w1
      by (intro disjI2 exI [of _ "obs_fresh ob"] exI [of _ ?c]) (auto simp: w' goto_frame)
    then show ?thesis
      by (rule mv [of "[(obs_fresh ob, actor, config)]" "[]" "[]"])
         (auto simp: w' w1 p' Spawn goto_frame intro: calls.intros)
  qed (use api in simp)
qed

lemma closing_moves:
  assumes "tasks w' = (tasks w)(me \<mapsto> t')" and "same_actor t t'" and "trace w' = es @ trace w"
    and "\<And>a e. e \<in> set es \<Longrightarrow> \<not> acts a e"
    and "\<And>a. a \<noteq> me \<or> rank (phase t') \<le> 7 \<Longrightarrow> generation w' a = generation w a"
    and "2 \<le> rank (phase t)" and "rank (phase t) \<le> rank (phase t')"
  shows "moves env me t w w'"
proof -
  have "local_history me es = []" using assms(4) by (simp add: local_history_def filter_empty_conv)
  then show ?thesis
    using assms by (intro movesI [of t t' w' w me es False]) (auto intro: behaves.closing restart_ok_late)
qed

lemma await_restart_moves:
  assumes inv: "tree_inv receivers w" and open_gen: "current_open signalled sender_gone w" and t: "tasks w me = Some t" and ph: "phase t = Failed up"
  shows "moves env me t w (await_restart (env_watch env) now me t up w)"
proof -
  obtain r n where r: "next_restart (config_strategy (task_config t)) up now (task_restarts t) = (r, n)"
    by (cases "next_restart (config_strategy (task_config t)) up now (task_restarts t)")
  have leave: "moves env me t w (goto me (t\<lparr>task_restarts := n\<rparr>) Draining w)"
    if "parent_stopping (wt_has_changed (env_watch env) (stops w (parent_stop t))) \<or> (\<forall>d. r \<noteq> After d)"
  proof -
    have stp: "abandoned w (parent_stop t)" if "\<exists>d. r = After d"
      using that \<open>_ \<or> _\<close> stop.has_changed [of "stops w (parent_stop t)"] stop_abandons [OF inv open_gen t]
      by (auto simp: parent_stopping_def split: sum.splits if_splits)
    have "(\<exists>d. r = After d) \<or> exhausted (task_config t) m" if "restart_ok t m" for m
      using that r by (auto simp: restart_ok_def ph exhausted_def next_restart_def Let_def word_le_nat_alt
          split: supervision_strategy.splits option.splits if_splits)
    then show ?thesis
      by (intro movesI [of t "t\<lparr>task_restarts := n, phase := Draining\<rparr>" _ w me "[]" "\<exists>d. r = After d"])
         (auto simp: goto_frame same_actor_def ph restart_ok_def stp intro!: behaves.given_up)
  qed
  show ?thesis
  proof (cases r)
    case (After d)
    then have "config_strategy (task_config t) \<noteq> StopStrategy" using r by (auto simp: next_restart_def)
    moreover have "restart_ok (t\<lparr>task_restarts := n, phase := RestartStopping d (generation w me)\<rparr>) m" if "restart_ok t m" for m
      using that next_restart_count [OF r [unfolded After]] by (simp add: restart_ok_def ph)
    ultimately have "moves env me t w
        (goto me (t\<lparr>task_restarts := n\<rparr>) (RestartStopping d (generation w me)) (stop_children (env_watch env) me w))"
      by (intro movesI [of t "t\<lparr>task_restarts := n, phase := RestartStopping d (generation w me)\<rparr>" _ w me "[]" False])
         (auto simp: goto_frame stop_children_frame same_actor_def ph stop_children_def Let_def world_simps
           intro: behaves.restarting)
    with After leave show ?thesis by (simp add: await_restart_def r)
  qed (use leave in \<open>simp_all add: await_restart_def r\<close>)
qed

lemma receive_step_moves:
  assumes inv: "tree_inv receivers w" and open_gen: "current_open signalled sender_gone w" and t: "tasks w me = Some t"
    and ph: "phase t = Receiving s up" and step: "receive_step env me t s up w = Some w'"
  shows "moves env me t w w'"
  using step
proof (cases rule: receive_step_cases)
  case stop
  then show ?thesis
    using stop_abandons [OF inv open_gen t]
    by (intro movesI [of t "t\<lparr>phase := Draining\<rparr>" _ w me "[]" True])
       (auto simp: goto_frame same_actor_def ph restart_ok_def intro: behaves.stopped)
next
  case (message m mb)
  then show ?thesis
    by (intro movesI [of t "t\<lparr>phase := Handling up (receive_code env (task_actor t) me (Message m) s)\<rparr>" _ w me
          "[Delivered me (Message m)]" False])
       (auto simp: world_simps same_actor_def ph restart_ok_def intro: behaves.receiving)
next
  case (signal other mb ph' e)
  then show ?thesis
    by (intro movesI [of t "t\<lparr>phase := ph'\<rparr>" _ w me "[e]" False])
       (auto simp: world_simps same_actor_def ph restart_ok_def intro: behaves.receiving split: if_splits)
qed

lemma interrupted_by_parent:
  "await_backoff d (wt_has_changed (env_watch env) c) (wt_changed (env_watch env) c) slept = Some StoppedByParent \<Longrightarrow>
     signalled c \<or> sender_gone c"
  using stop.has_changed [of c] stop.changed [of c]
  by (cases "wt_changed (env_watch env) c"; cases slept)
     (auto simp: await_backoff_def parent_stopping_def split: if_splits sum.splits)

lemma backoff_step_moves:
  assumes inv: "tree_inv receivers w" and open_gen: "current_open signalled sender_gone w" and t: "tasks w me = Some t" and ph: "phase t = BackingOff d" and step: "backoff_step env slept me t d w = Some w'"
  shows "moves env me t w w'"
proof -
  have "w' = goto me t Draining w \<and> (signalled (stops w (parent_stop t)) \<or> sender_gone (stops w (parent_stop t))) \<or>
    w' = goto me t (Initializing (init_code env (task_actor t) me)) (log_event (InitCalled me) w)"
    using step by (auto simp: backoff_step_def Let_def interrupted_by_parent split: option.splits interrupted.splits)
  then show ?thesis
  proof
    assume stopped: "w' = goto me t Draining w \<and> (signalled (stops w (parent_stop t)) \<or> sender_gone (stops w (parent_stop t)))"
    with stop_abandons [OF inv open_gen t] show ?thesis
      by (intro movesI [of t "t\<lparr>phase := Draining\<rparr>" _ w me "[]" True])
         (auto simp: goto_frame same_actor_def ph restart_ok_def intro: behaves.interrupted)
  next
  assume "w' = goto me t (Initializing (init_code env (task_actor t) me)) (log_event (InitCalled me) w)"
  then show ?thesis
    by (intro movesI [of t "t\<lparr>phase := Initializing (init_code env (task_actor t) me)\<rparr>" _ w me "[InitCalled me]" False])
       (auto simp: world_simps same_actor_def ph restart_ok_def intro: behaves.restarted)
  qed
qed

lemma phase_step_moves:
  assumes inv: "tree_inv receivers w" and open_gen: "current_open signalled sender_gone w" and t: "tasks w me = Some t"
    and fresh: "tasks w (obs_fresh ob) = None" and step: "phase_step env ob me t w = Some w'"
  shows "moves env me t w w'"
proof (cases "phase t")
  case Starting
  have "behaves env (task_actor t) (task_config t) me (InitCalled me # h) l kids st 0 (Initializing (init_code env (task_actor t) me))"
    if "behaves env (task_actor t) (task_config t) me h l kids st g Starting" for h l kids st g
    using behaves_Starting [OF that] behaves.started [of env] by simp
  with Starting step show ?thesis
    by (intro movesI [of t "t\<lparr>phase := Initializing (init_code env (task_actor t) me)\<rparr>" _ w me "[InitCalled me]" False])
       (auto simp: phase_step_eq start_task_def world_simps Let_def same_actor_def restart_ok_def intro: behaves.started)
next
  case (Initializing p)
  have "moves env me t w w'" if r: "p = Ret r" for r
    using Initializing step r
    by (intro movesI [of t "t\<lparr>phase := case catch_and_log r of Some s \<Rightarrow> Receiving s (obs_now ob) | None \<Rightarrow> Failed None\<rparr>"
          _ w me "[]" False])
       (auto simp: phase_step_eq init_done_def goto_frame same_actor_def restart_ok_def intro: behaves.init_ok behaves.init_failed split: option.split)
  moreover have "restart_ok (t\<lparr>phase := Initializing p'\<rparr>) n" if "restart_ok t n" for n p' using that Initializing by (simp add: restart_ok_def)
  ultimately show ?thesis
    using Initializing step user_step_moves [OF t fresh, of Initializing p w', OF _ behaves.initializing]
    by (cases p) (auto simp: phase_step_eq)
next
  case (Handling up p)
  have "moves env me t w w'" if r: "p = Ret r" for r
    using Handling step r
    by (intro movesI [of t "t\<lparr>phase := case catch_and_log r of Some (Continue s) \<Rightarrow> Receiving s up | Some Stop \<Rightarrow> Draining
            | None \<Rightarrow> Failed (Some up)\<rparr>" _ w me "[]" False])
       (auto simp: phase_step_eq receive_incoming_def goto_frame same_actor_def restart_ok_def intro: behaves.continues behaves.stops_itself behaves.fails
         split: option.split control.split)
  moreover have "restart_ok (t\<lparr>phase := Handling up p'\<rparr>) n" if "restart_ok t n" for n p' using that Handling by (simp add: restart_ok_def)
  ultimately show ?thesis
    using Handling step user_step_moves [OF t fresh, of "Handling up" p w', OF _ behaves.handling]
    by (cases p) (auto simp: phase_step_eq)
next
  case (Receiving s up)
  with step receive_step_moves [OF inv open_gen t] show ?thesis by (simp add: phase_step_eq)
next
  case (Failed up)
  with step await_restart_moves [OF inv open_gen t] show ?thesis by (auto simp: phase_step_eq)
next
  case (BackingOff d)
  with step backoff_step_moves [OF inv open_gen t] show ?thesis by (simp add: phase_step_eq)
next
  case (RestartStopping d n)
  with step show ?thesis
    by (intro movesI [of t "t\<lparr>phase := BackingOff d\<rparr>" _ w me "[]" False])
       (auto simp: phase_step_eq world_simps stop_children_closed_def same_actor_def restart_ok_def intro: behaves.backing_off split: option.splits)
next
  case (AwaitingChildren n)
  with step show ?thesis
    by (intro closing_moves [of _ w me "t\<lparr>phase := DroppingContext\<rparr>" t "[]"])
       (auto simp: phase_step_eq world_simps stop_children_closed_def same_actor_def split: option.splits)
next
  case StoppingChildren
  with step show ?thesis
    by (intro closing_moves [of _ w me "t\<lparr>phase := AwaitingChildren (generation w me)\<rparr>" t "[]"])
       (auto simp: phase_step_eq world_simps stop_children_def Let_def same_actor_def)
next
  case (Signaling ws)
  then show ?thesis
  proof (cases ws)
    case Nil
    with Signaling step show ?thesis
      by (intro closing_moves [of _ w me "t\<lparr>phase := Finished\<rparr>" t "[]"])
         (auto simp: phase_step_eq finish_task_def world_simps same_actor_def)
  next
    case (Cons wtc rest)
    with Signaling step watcher_send_trace [of me wtc w] show ?thesis
      by (intro closing_moves [of _ w me "t\<lparr>phase := Signaling rest\<rparr>" t "case watcher_sink wtc of
            MailboxSink target \<Rightarrow> (if connected (item_chan (mailboxes w target)) then [Enqueued None target (Terminated me)] else [])
          | RootSink \<Rightarrow> []"])
         (auto simp: phase_step_eq goto_frame signal_frame same_actor_def split: terminated_sink.splits if_splits)
  qed
next
  case DroppingActor
  with step show ?thesis
    by (intro closing_moves [of _ w me "t\<lparr>phase := TakingWatchers\<rparr>" t "[ActorDropped me]"])
       (auto simp: phase_step_eq world_simps same_actor_def)
next
  case Draining
  with step show ?thesis
    by (intro closing_moves [of _ w me "t\<lparr>phase := Disconnecting (fst (drain_mailbox (env_flume env) (mailboxes w me)))\<rparr>" t
          "[Discarded me (fst (drain_mailbox (env_flume env) (mailboxes w me)))]"])
       (auto simp: phase_step_eq terminate_drain_def world_simps same_actor_def split: prod.splits)
qed (use step in \<open>auto intro!: closing_moves [of _ w me _ t "[]"]
       simp: phase_step_eq terminate_disconnect_def take_watched_def drop_context_def
         terminate_unregister_def terminate_take_watchers_def world_simps same_actor_def
       split: prod.splits list.splits\<close>)

lemma lives_same:
  assumes "lives env w a t l kids st" and "tasks w' = tasks w" and "generation w' = generation w" and "trace w' = es @ trace w"
    and "\<And>a e. e \<in> set es \<Longrightarrow> \<not> acts a e"
  shows "lives env w' a t l kids st"
proof -
  have "local_history a es = []" using assms(5) by (simp add: local_history_def filter_empty_conv)
  with assms(1-4) show ?thesis by (auto simp: lives_def kids_ok_def abandoned_def split: prod.splits owner.splits)
qed

lemma sys_step_moves [consumes 2, case_names task outside]:
  assumes reach: "sys_reach env actor config root w" and step: "sys_step env root w w'"
  obtains (task) ob me t where "tasks w me = Some t" and "phase_step env ob me t w = Some w'" and "moves env me t w w'"
      and "tree_step (env_watch env) receivers w w'"
  | (outside) es where "tasks w' = tasks w" and "generation w' = generation w" and "trace w' = es @ trace w"
      and "\<And>a e. e \<in> set es \<Longrightarrow> \<not> acts a e"
  using step
proof (cases rule: sys_step.cases)
  case (step_task ob me)
  then obtain t where t: "tasks w me = Some t" and ph: "phase_step env ob me t w = Some w'"
    by (auto simp: task_step_def split: option.splits)
  have free: "tasks w (obs_fresh ob) = None" using step_task by (simp add: fresh_id_def)
  show ?thesis
    by (rule task [OF t ph phase_step_moves [OF sys_reach_tree [OF reach] sys_reach_current [OF reach] t free ph]
          phase_step_tree [OF t free ph]])
next
  case (step_tell target m)
  then show ?thesis
    by (intro outside [of "[case fst (try_send_message (env_flume env) m (mailboxes w target)) of
          Ok _ \<Rightarrow> Enqueued None target (Message m) | Err _ \<Rightarrow> DeadLetter target]"])
       (auto simp: world_simps split: sum.splits)
next
  case (step_watch_root i)
  then show ?thesis
    by (intro outside [of "[]"])
       (auto simp: watch_root_def root_send_terminated_def world_simps Let_def split: prod.splits sum.splits)
qed (auto intro!: outside [of "[]"] simp: system_stop_def drop_system_def world_simps Let_def)

lemma sys_reach_live: "sys_reach env actor config root w \<Longrightarrow> all_live env w"
proof (induction rule: sys_reach.induct)
  case sys_start
  show ?case
    by (auto simp: all_live_def lives_def kids_ok_def abandoned_def restart_ok_def spawn_root_def spawn_def world_simps
        intro!: exI behaves.starting)
next
  case (sys_next w w')
  note tree = sys_reach_tree [OF sys_next.hyps(1)] and live = sys_next.IH
  from sys_next.hyps show ?case
  proof (cases rule: sys_step_moves)
    case (task ob me t)
    then show ?thesis using moves_all_live [OF live tree] by blast
  next
    case (outside es)
    have "local_history a es = []" for a using outside(4) by (simp add: local_history_def filter_empty_conv)
    with live lives_same [OF _ outside] outside show ?thesis unfolding all_live_def by (metis append_Nil local_history_simps(3))
  qed
qed

end

end
