(* ===== verification/Delivery.thy ===== *)
theory Delivery
  imports Behaviour
begin

text \<open>
  What a program can rely on when its actors tell each other messages: a mailbox with room takes
  the message, an actor without capacity loses none until it terminates, and what an actor has
  received by the time of a signal is all its sender ever sent. The theories on examples use it.
\<close>

section \<open>The count of a mailbox\<close>

definition quota_ok :: "mailbox_capacity \<Rightarrow> bool \<Rightarrow> quota \<Rightarrow> 'm incoming list \<Rightarrow> bool" where
  "quota_ok cap is_open q queue \<longleftrightarrow>
     (case cap of
        Unbounded \<Rightarrow> q = QUnbounded
      | Bounded n \<Rightarrow> \<exists>k. q = QBounded n k \<and> (is_open \<longrightarrow> k = of_nat (length (filter is_message queue))))"

lemma quota_ok_close: "quota_ok cap is_open q queue \<Longrightarrow> quota_ok cap False q queue'"
  by (auto simp: quota_ok_def split: mailbox_capacity.splits)

lemma quota_ok_unbounded [simp]: "quota_ok Unbounded is_open q queue \<longleftrightarrow> q = QUnbounded"
  by (simp add: quota_ok_def)

definition quota_inv :: "('c \<Rightarrow> 'm incoming list) \<Rightarrow> ('c, 'w, 'k, 'm, 's, 'e) world \<Rightarrow> bool" where
  "quota_inv contents w \<longleftrightarrow>
     (\<forall>a t. tasks w a = Some t \<longrightarrow>
        quota_ok (config_capacity (task_config t)) (rank (phase t) \<le> 2) (chan_quota (mailboxes w a))
          (contents (item_chan (mailboxes w a))))"

text \<open>What one step does to one mailbox.\<close>

definition box_step :: "('m incoming, 'c) flume \<Rightarrow> bool \<Rightarrow> 'c mailbox \<Rightarrow> 'c mailbox \<Rightarrow> bool" where
  "box_step fl is_open mb mb' \<longleftrightarrow>
     chan_quota mb' = chan_quota mb \<and> (item_chan mb' = item_chan mb \<or> \<not> is_open) \<or>
     (\<exists>m. mb' = snd (try_send_message fl m mb)) \<or>
     (\<exists>i. mb' = snd (sink_send_terminated fl i mb)) \<or>
     (\<exists>i. mailbox_recv fl mb = Received i mb')"

text \<open>What a step may say of lost messages: a mailbox refused, or its actor is terminating.\<close>

definition step_losses ::
  "('m incoming, 'c) flume \<Rightarrow> ('c, 'w, 'k, 'm, 's, 'e) world \<Rightarrow> 'm event list \<Rightarrow> ('c, 'w, 'k, 'm, 's, 'e) world \<Rightarrow> bool" where
  "step_losses fl w es w' \<longleftrightarrow>
     (\<forall>a. DeadLetter a \<in> set es \<longrightarrow> tasks w a \<noteq> None \<and> (\<exists>m. fst (try_send_message fl m (mailboxes w a)) \<noteq> Ok ())) \<and>
     (\<forall>a xs. Discarded a xs \<in> set es \<longrightarrow> (\<exists>t. tasks w' a = Some t \<and> 3 \<le> rank (phase t))) \<and>
     (\<forall>a i. Delivered a i \<in> set es \<longrightarrow> es = [Delivered a i] \<and> (\<exists>t. tasks w a = Some t \<and> rank (phase t) \<le> 2))"

text \<open>The message the code of an actor is about to send.\<close>

fun telling :: "('k, 'm, 's, 'e) phase \<Rightarrow> (actor_id \<times> 'm) option" where
  "telling (Initializing (Tell a m _)) = Some (a, m)"
| "telling (Handling _ (Tell a m _)) = Some (a, m)"
| "telling _ = None"

text \<open>What an actor discards comes after all it was handed.\<close>

fun discards_last :: "'m event list \<Rightarrow> bool" where
  "discards_last [] = True"
| "discards_last (Delivered a i # es) = ((\<forall>xs. Discarded a xs \<notin> set es) \<and> discards_last es)"
| "discards_last (_ # es) = discards_last es"

text \<open>An actor without capacity loses no message before it has terminated its mailbox, and discards none before that.\<close>

definition loss_inv :: "('c, 'w, 'k, 'm, 's, 'e) world \<Rightarrow> bool" where
  "loss_inv w \<longleftrightarrow>
     (\<forall>a. tasks w a = None \<longrightarrow> DeadLetter a \<notin> set (trace w)) \<and>
     (\<forall>a t. tasks w a = Some t \<and> rank (phase t) \<le> 3 \<and> config_capacity (task_config t) = Unbounded \<longrightarrow>
        DeadLetter a \<notin> set (trace w)) \<and>
     (\<forall>a xs. Discarded a xs \<in> set (trace w) \<longrightarrow> (\<exists>t. tasks w a = Some t \<and> 3 \<le> rank (phase t))) \<and> discards_last (trace w)"

lemma discards_last_append:
  "(\<And>a i. Delivered a i \<notin> set es) \<Longrightarrow> discards_last tr \<Longrightarrow> discards_last (es @ tr)"
  by (induction es rule: discards_last.induct) auto

context actor_runtime
begin

lemma quota_ok_new:
  "quota_ok cap is_open (chan_quota (make_mailbox (env_flume env) cap)) (contents (item_chan (make_mailbox (env_flume env) cap)))"
  using unbounded_new
  by (cases cap) (auto simp: quota_ok_def make_mailbox_def quota_unbounded_def quota_bounded_def)

lemma quota_ok_send:
  assumes ok: "quota_ok cap is_open (chan_quota mb) (contents (item_chan mb))"
    and mb': "mb' = snd (try_send_message (env_flume env) m mb)"
  shows "quota_ok cap is_open (chan_quota mb') (contents (item_chan mb'))"
proof (cases "connected (item_chan mb) \<and> has_room (chan_quota mb)")
  case True
  then obtain c q where "mb' = mb\<lparr>item_chan := c, chan_quota := q\<rparr>" "reserve (chan_quota mb) = Ok q"
    "contents c = contents (item_chan mb) @ [Message m]"
    using counted_send_ok [of mb "Message m"] mb' by (auto simp: try_send_message_def)
  with ok show ?thesis
    by (auto simp: quota_ok_def split: mailbox_capacity.splits if_splits)
next
  case False
  then have "mb' = mb" using mbx.send_full [of mb m] mbx.send_terminated [of mb m] mb' by (cases "connected (item_chan mb)") auto
  with ok show ?thesis by simp
qed

lemma box_step_quota:
  assumes "box_step (env_flume env) is_open mb mb'" and ok: "quota_ok cap was_open (chan_quota mb) (contents (item_chan mb))"
    and mono: "is_open \<Longrightarrow> was_open"
  shows "quota_ok cap is_open (chan_quota mb') (contents (item_chan mb'))"
proof -
  have ok': "quota_ok cap is_open (chan_quota mb) (contents (item_chan mb))"
    using ok mono quota_ok_close [of cap was_open] by (cases is_open) auto
  from assms(1) consider "chan_quota mb' = chan_quota mb" "item_chan mb' = item_chan mb \<or> \<not> is_open"
    | m where "mb' = snd (try_send_message (env_flume env) m mb)"
    | i where "mb' = snd (sink_send_terminated (env_flume env) i mb)"
    | i where "mailbox_recv (env_flume env) mb = Received i mb'"
    unfolding box_step_def by blast
  then show ?thesis
  proof cases
    case 1
    with ok' show ?thesis using quota_ok_close by (cases is_open) auto
  next
    case 2
    with ok' show ?thesis by (rule quota_ok_send)
  next
    case 3
    then have "chan_quota mb' = chan_quota mb"
      by (auto simp: sink_send_terminated_def try_send_uncounted_def split: option.splits)
    moreover have "filter is_message (contents (item_chan mb')) = filter is_message (contents (item_chan mb))"
      using mbx.signal_snd(2) [of i mb] 3 by simp
    ultimately show ?thesis using ok' by (simp add: quota_ok_def cong: mailbox_capacity.case_cong)
  next
    case 4
    then have "contents (item_chan mb) = i # contents (item_chan mb')" using mbx.recv_queue by simp
    moreover have "chan_quota mb' = (if is_message i then unreserve (chan_quota mb) else chan_quota mb)"
      using 4 by (auto simp: mailbox_recv_def split: recv_poll.splits)
    ultimately show ?thesis using ok'
      by (auto simp: quota_ok_def split: mailbox_capacity.splits if_splits)
  qed
qed

lemma user_step_boxes:
  assumes t: "tasks w me = Some t" and fresh: "tasks w (obs_fresh ob) = None"
    and step: "user_step env ob me t ph p w = Some w'"
  shows "tasks w a \<noteq> None \<Longrightarrow> box_step (env_flume env) is_open (mailboxes w a) (mailboxes w' a)"
    and "tasks w a = None \<Longrightarrow> tasks w' a = Some t' \<Longrightarrow>
      mailboxes w' a = make_mailbox (env_flume env) (config_capacity (task_config t'))"
proof -
  from step obtain p' w1 where api: "api_step env (obs_fresh ob) me p w = Some (p', w1)"
    and w': "w' = goto me t (ph p') w1"
    by (auto simp: user_step_def split: option.splits prod.splits)
  have same: "box_step (env_flume env) is_open (mailboxes w a) (mailboxes w a)" by (simp add: box_step_def)
  have "(tasks w a \<noteq> None \<longrightarrow> box_step (env_flume env) is_open (mailboxes w a) (mailboxes w' a)) \<and>
    (tasks w a = None \<and> tasks w' a = Some t' \<longrightarrow>
      mailboxes w' a = make_mailbox (env_flume env) (config_capacity (task_config t')))"
  proof (cases p)
    case (Watch other q)
    with api have watch: "watch (env_flume env) me other w = Some w1" by (auto split: if_splits)
    then show ?thesis
      by (cases rule: watch_cases) (use t same in \<open>auto simp: w' world_simps box_step_def split: if_splits\<close>)
  qed (use api t fresh same in \<open>auto simp: w' world_simps unwatch_def spawn_with_config_def spawn_def Let_def box_step_def
        split: if_splits\<close>)
  then show "tasks w a \<noteq> None \<Longrightarrow> box_step (env_flume env) is_open (mailboxes w a) (mailboxes w' a)"
    and "tasks w a = None \<Longrightarrow> tasks w' a = Some t' \<Longrightarrow>
      mailboxes w' a = make_mailbox (env_flume env) (config_capacity (task_config t'))" by auto
qed

lemma phase_step_boxes:
  assumes t: "tasks w me = Some t" and fresh: "tasks w (obs_fresh ob) = None"
    and step: "phase_step env ob me t w = Some w'" and a: "tasks w' a = Some t'"
  shows "if tasks w a = None then mailboxes w' a = make_mailbox (env_flume env) (config_capacity (task_config t'))
    else box_step (env_flume env) (rank (phase t') \<le> 2) (mailboxes w a) (mailboxes w' a)"
  using step
proof (cases rule: phase_step_cases)
  case (init p)
  then show ?thesis using user_step_boxes [OF t fresh init(2), of a] a by simp
next
  case (handle up p)
  then show ?thesis using user_step_boxes [OF t fresh handle(2), of a] a by simp
next
  case (receive s up)
  then show ?thesis
    by (cases rule: receive_step_cases [OF receive(2)])
       (use t a in \<open>auto simp: world_simps box_step_def split: if_splits\<close>)
next
  case (plain t' es)
  then show ?thesis using t a by (auto simp: same_but_tasks_def box_step_def split: if_splits)
next
  case (signal wtc rest)
  then show ?thesis
    using t a by (auto simp: goto_frame signal_frame watcher_send_mailboxes box_step_def split: if_splits terminated_sink.splits)
qed (use t a in \<open>auto simp: terminate_drain_def drain_mailbox_def terminate_disconnect_def disconnect_mailbox_def
      terminate_unregister_def terminate_take_watchers_def take_watchers_def world_simps box_step_def split: if_splits prod.splits\<close>)

lemma outside_frame:
  "tasks (system_stop wt w) = tasks w" "trace (system_stop wt w) = trace w" "mailboxes (system_stop wt w) = mailboxes w"
  "tasks (drop_system wt w) = tasks w" "trace (drop_system wt w) = trace w" "mailboxes (drop_system wt w) = mailboxes w"
  "tasks (watch_root wt root i w) = tasks w" "trace (watch_root wt root i w) = trace w"
  "item_chan (mailboxes (watch_root wt root i w) a) = item_chan (mailboxes w a)"
  "chan_quota (mailboxes (watch_root wt root i w) a) = chan_quota (mailboxes w a)"
  by (simp_all add: system_stop_def drop_system_def watch_root_def root_send_terminated_def world_simps Let_def
      split: prod.split sum.split)

lemma sys_step_boxes:
  assumes "sys_step env root w w'" and a: "tasks w' a = Some t'"
  shows "if tasks w a = None then mailboxes w' a = make_mailbox (env_flume env) (config_capacity (task_config t'))
    else box_step (env_flume env) (rank (phase t') \<le> 2) (mailboxes w a) (mailboxes w' a)"
  using assms(1)
proof (cases rule: sys_step.cases)
  case (step_task ob me)
  then show ?thesis
    using phase_step_boxes a by (auto simp: task_step_def fresh_id_def split: option.splits)
next
  case (step_tell target m)
  then show ?thesis using a by (auto simp: world_simps box_step_def)
qed (use a in \<open>simp_all add: outside_frame box_step_def\<close>)

lemma sys_step_kept:
  assumes reach: "sys_reach env actor config root w" and step: "sys_step env root w w'" and t: "tasks w a = Some t"
  shows "\<exists>t'. tasks w' a = Some t' \<and> same_actor t t' \<and> rank (phase t) \<le> rank (phase t')"
proof -
  obtain t' where t': "tasks w' a = Some t'" "rank (phase t) \<le> rank (phase t')"
    using tree_step_parents [OF sys_step_tree [OF step] t] by blast
  have "same_actor t t'"
    using step
  proof (cases rule: sys_step.cases)
    case (step_task ob me)
    then obtain tm where tm: "tasks w me = Some tm" and ps: "phase_step env ob me tm w = Some w'"
      by (auto simp: task_step_def split: option.splits)
    have "tasks w (obs_fresh ob) = None" using step_task by (simp add: fresh_id_def)
    from phase_step_moves [OF sys_reach_tree [OF reach] sys_reach_current [OF reach] tm this ps]
    show ?thesis using t t'(1) tm by (auto simp: moves_def spawns_def same_actor_def split: if_splits)
  qed (use t t'(1) in \<open>simp_all add: outside_frame tell_frame same_actor_def\<close>)
  with t' show ?thesis by blast
qed

lemma sys_reach_quota: "sys_reach env actor config root w \<Longrightarrow> quota_inv contents w"
proof (induction rule: sys_reach.induct)
  case sys_start
  show ?case
    using quota_ok_new by (auto simp: quota_inv_def spawn_root_def spawn_def world_simps)
next
  case (sys_next w w')
  have "quota_ok (config_capacity (task_config t')) (rank (phase t') \<le> 2) (chan_quota (mailboxes w' a))
      (contents (item_chan (mailboxes w' a)))" if t': "tasks w' a = Some t'" for a t'
  proof (cases "tasks w a")
    case None
    with sys_step_boxes [OF sys_next.hyps(2) t'] quota_ok_new show ?thesis by simp
  next
    case (Some t)
    have "same_actor t t'" "rank (phase t) \<le> rank (phase t')"
      using sys_step_kept [OF sys_next.hyps Some] t' by auto
    moreover have "box_step (env_flume env) (rank (phase t') \<le> 2) (mailboxes w a) (mailboxes w' a)"
      using sys_step_boxes [OF sys_next.hyps(2) t'] Some by simp
    moreover have "quota_ok (config_capacity (task_config t)) (rank (phase t) \<le> 2) (chan_quota (mailboxes w a))
        (contents (item_chan (mailboxes w a)))"
      using sys_next.IH Some by (simp add: quota_inv_def)
    ultimately show ?thesis using box_step_quota [of _ "mailboxes w a" "mailboxes w' a"] by (simp add: same_actor_def)
  qed
  then show ?case by (simp add: quota_inv_def)
qed

text \<open>A mailbox has room if its actor is live and has no message queued, or no capacity.\<close>

lemma sends_accepted:
  assumes reach: "sys_reach env actor config root w" and t: "tasks w a = Some t" "rank (phase t) \<le> 3"
    and cap: "case config_capacity (task_config t) of Unbounded \<Rightarrow> True
      | Bounded n \<Rightarrow> 0 < n \<and> rank (phase t) \<le> 2 \<and> filter is_message (contents (item_chan (mailboxes w a))) = []"
  shows "fst (try_send_message (env_flume env) m (mailboxes w a)) = Ok ()"
proof -
  have "quota_ok (config_capacity (task_config t)) (rank (phase t) \<le> 2) (chan_quota (mailboxes w a))
      (contents (item_chan (mailboxes w a)))"
    using sys_reach_quota [OF reach] t(1) by (simp add: quota_inv_def)
  then have "has_room (chan_quota (mailboxes w a))"
    using cap by (auto simp: quota_ok_def has_room_def split: mailbox_capacity.splits)
  then show ?thesis
    using mailbox_invD(1) [OF sys_reach_mailbox [OF reach] t(1)] t(2) mbx.send_Ok [of "mailboxes w a" m] by auto
qed

lemma user_step_losses:
  assumes step: "user_step env ob me t ph p w = Some w'"
  shows "\<exists>es. trace w' = es @ trace w \<and> step_losses (env_flume env) w es w'"
proof -
  from step obtain p' w1 where api: "api_step env (obs_fresh ob) me p w = Some (p', w1)"
    and w': "w' = goto me t (ph p') w1"
    by (auto simp: user_step_def split: option.splits prod.splits)
  show ?thesis
  proof (cases p)
    case (Tell target m q)
    with api show ?thesis
      by (intro exI [of _ "[case fst (try_send_message (env_flume env) m (mailboxes w target)) of
            Ok _ \<Rightarrow> Enqueued (Some me) target (Message m) | Err _ \<Rightarrow> DeadLetter target]"])
         (auto simp: w' world_simps step_losses_def split: if_splits sum.splits intro!: exI [of _ m])
  next
    case (Watch other q)
    with api have "watch (env_flume env) me other w = Some w1" by (auto split: if_splits)
    from watch_trace [OF this] show ?thesis by (auto simp: w' goto_frame step_losses_def)
  qed (use api in \<open>auto simp: w' world_simps unwatch_def spawn_with_config_def spawn_def Let_def step_losses_def split: if_splits\<close>)
qed

lemma sys_step_losses:
  assumes "sys_step env root w w'"
  shows "\<exists>es. trace w' = es @ trace w \<and> step_losses (env_flume env) w es w'"
  using assms
proof (cases rule: sys_step.cases)
  case (step_task ob me)
  then obtain t where t: "tasks w me = Some t" and "phase_step env ob me t w = Some w'"
    by (auto simp: task_step_def split: option.splits)
  from this(2) show ?thesis
  proof (cases rule: phase_step_cases)
    case (receive s up)
    then show ?thesis
      using t by (cases rule: receive_step_cases [OF receive(2)]) (auto simp: world_simps step_losses_def split: if_splits)
  next
    case (plain t' es)
    then show ?thesis by (intro exI [of _ es]) (auto simp: step_losses_def)
  next
    case (signal wtc rest)
    then show ?thesis
      by (cases "watcher_sink wtc") (auto simp: goto_frame watcher_send_trace step_losses_def)
  qed (use user_step_losses in \<open>auto simp: terminate_drain_def terminate_disconnect_def terminate_unregister_def
        terminate_take_watchers_def world_simps step_losses_def split: prod.splits\<close>)
next
  case (step_tell target m)
  then show ?thesis
    by (intro exI [of _ "[case fst (try_send_message (env_flume env) m (mailboxes w target)) of
          Ok _ \<Rightarrow> Enqueued None target (Message m) | Err _ \<Rightarrow> DeadLetter target]"])
       (auto simp: world_simps step_losses_def split: sum.splits intro!: exI [of _ m])
qed (auto simp: outside_frame step_losses_def)

lemma sys_reach_loss: "sys_reach env actor config root w \<Longrightarrow> loss_inv w"
proof (induction rule: sys_reach.induct)
  case sys_start
  show ?case by (auto simp: loss_inv_def spawn_root_def spawn_def world_simps)
next
  case (sys_next w w')
  note kept = sys_step_kept [OF sys_next.hyps]
  obtain es where tr: "trace w' = es @ trace w" and es: "step_losses (env_flume env) w es w'"
    using sys_step_losses [OF sys_next.hyps(2)] by blast
  have gone: "tasks w a = None" if "tasks w' a = None" for a
    using kept [of a] that by (cases "tasks w a") auto
  have "DeadLetter a \<notin> set (trace w')"
    if t': "tasks w' a = Some t'" "rank (phase t') \<le> 3" "config_capacity (task_config t') = Unbounded" for a t'
  proof (cases "tasks w a")
    case None
    with es sys_next.IH show ?thesis by (auto simp: tr step_losses_def loss_inv_def)
  next
    case (Some t)
    then have t: "rank (phase t) \<le> 3" "config_capacity (task_config t) = Unbounded"
      using kept [OF Some] t' by (auto simp: same_actor_def)
    have "fst (try_send_message (env_flume env) m (mailboxes w a)) = Ok ()" for m
      by (rule sends_accepted [OF sys_next.hyps(1) Some t(1)]) (simp add: t)
    with es sys_next.IH Some t show ?thesis by (auto simp: tr step_losses_def loss_inv_def)
  qed
  moreover have "\<exists>t. tasks w' a = Some t \<and> 3 \<le> rank (phase t)" if d: "Discarded a xs \<in> set (trace w')" for a xs
  proof (cases "Discarded a xs \<in> set es")
    case True
    with es show ?thesis by (auto simp: step_losses_def)
  next
    case False
    then obtain t where "tasks w a = Some t" "3 \<le> rank (phase t)"
      using d sys_next.IH by (auto simp: tr loss_inv_def)
    with kept [of a t] show ?thesis by fastforce
  qed
  moreover have "DeadLetter a \<notin> set (trace w')" if "tasks w' a = None" for a
    using gone [OF that] es sys_next.IH by (auto simp: tr step_losses_def loss_inv_def)
  moreover have "discards_last (trace w')"
  proof (cases "\<exists>a i. Delivered a i \<in> set es")
    case True
    then obtain a i t where "es = [Delivered a i]" "tasks w a = Some t" "rank (phase t) \<le> 2"
      using es unfolding step_losses_def by blast
    with sys_next.IH show ?thesis by (fastforce simp: tr loss_inv_def)
  next
    case False
    with sys_next.IH discards_last_append [of es "trace w"] show ?thesis by (simp add: tr loss_inv_def)
  qed
  ultimately show ?case by (simp add: loss_inv_def)
qed

end

section \<open>Who sent what\<close>

text \<open>The mailbox of \<open>a\<close> with the senders, oldest first, and what \<open>a\<close> was handed of it.\<close>

fun sent_to :: "actor_id \<Rightarrow> 'm event list \<Rightarrow> (actor_id option \<times> 'm incoming) list" where
  "sent_to a [] = []"
| "sent_to a (Enqueued x b i # es) = sent_to a es @ (if a = b then [(x, i)] else [])"
| "sent_to a (_ # es) = sent_to a es"

fun delivered :: "actor_id \<Rightarrow> 'm event list \<Rightarrow> 'm incoming list" where
  "delivered a [] = []"
| "delivered a (Delivered b i # es) = delivered a es @ (if a = b then [i] else [])"
| "delivered a (_ # es) = delivered a es"

lemma sent_to_enqueued: "map snd (sent_to a es) = enqueued a es"
  by (induction a es rule: sent_to.induct) auto

lemma sent_to_iff: "(x, i) \<in> set (sent_to a es) \<longleftrightarrow> Enqueued x a i \<in> set es"
  by (induction a es rule: sent_to.induct) auto

lemma delivered_iff: "i \<in> set (delivered a es) \<longleftrightarrow> Delivered a i \<in> set es"
  by (induction a es rule: delivered.induct) auto

lemma delivered_local: "delivered a (local_history a es) = delivered a es"
  by (induction a es rule: delivered.induct) (auto simp: local_history_def)

lemma watching_local: "watching a b (local_history a es) = watching a b es"
  by (induction a b es rule: watching.induct) (auto simp: local_history_def)

lemma local_iff: "acts a e \<Longrightarrow> e \<in> set (local_history a es) \<longleftrightarrow> e \<in> set es"
  by (simp add: local_history_def)

lemma signals_watched_local: "signals_watched es \<Longrightarrow> signals_watched (local_history a es)"
  by (induction es rule: signals_watched.induct) (auto simp: watching_local)

lemma silent_sent:
  assumes "silent_after es" and "sent_to a es = xs @ (x, Terminated b) # ys"
  shows "(Some b, i) \<notin> set ys"
  using assms
proof (induction a es arbitrary: ys rule: sent_to.induct)
  case (2 a y c j es)
  show ?case
  proof (cases "a = c")
    case True
    from 2(3) True consider "ys = []" | ys' where "ys = ys' @ [(y, j)]" "sent_to a es = xs @ (x, Terminated b) # ys'"
      by (cases ys rule: rev_cases) auto
    then show ?thesis
    proof cases
      case (2 ys')
      have "silent_after es" using "2.prems"(1) by (cases y) auto
      then have "(Some b, i) \<notin> set ys'" using "2.IH" 2(2) by simp
      moreover have "(x, Terminated b) \<in> set (sent_to a es)" using 2(2) by simp
      then have "signal_sent b es" unfolding sent_to_iff signal_sent_def by blast
      with "2.prems"(1) have "y \<noteq> Some b" by (cases y) auto
      ultimately show ?thesis using 2(1) by auto
    qed simp
  qed (use 2 in \<open>cases y; auto\<close>)
qed (auto split: option.splits)

lemma delivered_taken: "Delivered a i \<in> set es \<Longrightarrow> i \<in> set (taken a es)"
  by (induction a es rule: taken.induct) auto

lemma taken_messages:
  "(\<And>xs. Discarded a xs \<notin> set es) \<Longrightarrow> filter is_message (taken a es) = filter is_message (delivered a es)"
  by (induction a es rule: taken.induct) auto

lemma delivered_first:
  "discards_last es \<Longrightarrow> \<exists>rest. filter is_message (taken a es) = filter is_message (delivered a es) @ rest"
proof (induction a es rule: taken.induct)
  case (2 a b i es)
  then show ?case using taken_messages [of a es] by auto
qed auto

lemma sent_by:
  "filter (\<lambda>p. fst p = Some b) (sent_to a es) = filter (\<lambda>p. fst p = Some b) (sent_to a (local_history b es))"
  by (induction a es rule: sent_to.induct) auto

text \<open>What \<open>me\<close> has sent to whom, oldest first.\<close>

fun sends :: "actor_id \<Rightarrow> 'm event list \<Rightarrow> (actor_id \<times> 'm incoming) list" where
  "sends me [] = []"
| "sends me (Enqueued x a i # es) = sends me es @ (if x = Some me then [(a, i)] else [])"
| "sends me (_ # es) = sends me es"

lemma sends_append: "sends me (es @ fs) = sends me fs @ sends me es"
  by (induction es rule: sends.induct) auto

lemma sends_iff: "(x, i) \<in> set (sends a es) \<longleftrightarrow> Enqueued (Some a) x i \<in> set es"
  by (induction a es rule: sends.induct) auto

lemma sends_local: "sends a (local_history a es) = sends a es"
  by (induction a es rule: sends.induct) (auto simp: local_history_def)

lemma sent_by_pairs: "map snd (filter (\<lambda>p. fst p = Some b) (sent_to a es)) = map snd (filter (\<lambda>p. fst p = a) (sends b es))"
  by (induction a es rule: sent_to.induct) auto

text \<open>No code outside of the actors has sent a message.\<close>

fun from_outside :: "'m event \<Rightarrow> bool" where
  "from_outside (Enqueued None _ (Message _)) = True"
| "from_outside _ = False"

definition undisturbed :: "'m event list \<Rightarrow> bool" where
  "undisturbed es \<longleftrightarrow> \<not> list_ex from_outside es"

lemma undisturbed_iff: "undisturbed es \<longleftrightarrow> (\<forall>x m. Enqueued None x (Message m) \<notin> set es)"
  by (auto simp: undisturbed_def list_ex_iff elim!: from_outside.elims)

text \<open>A mailbox all whose messages are from \<open>b\<close>.\<close>

lemma mailbox_from:
  assumes alone: "undisturbed es" and from_b: "\<forall>x i. Enqueued (Some x) a i \<in> set es \<longrightarrow> x = b \<and> is_message i"
  shows "filter is_message (enqueued a es) = map snd (filter (\<lambda>p. fst p = a) (sends b es))"
proof -
  have "is_message i \<longleftrightarrow> x = Some b" if "(x, i) \<in> set (sent_to a es)" for x i
  proof (cases x)
    case None
    with that alone show ?thesis by (cases i) (auto simp: undisturbed_iff sent_to_iff)
  qed (use that from_b in \<open>auto simp: sent_to_iff\<close>)
  then have "filter (\<lambda>p. is_message (snd p)) (sent_to a es) = filter (\<lambda>p. fst p = Some b) (sent_to a es)"
    by (intro filter_cong) auto
  then show ?thesis
    by (simp flip: sent_to_enqueued sent_by_pairs add: filter_map comp_def)
qed

section \<open>Watching once\<close>

text \<open>The actors \<open>a\<close> has watched, newest first. Who watches each actor once gets its signal once.\<close>

fun watches :: "actor_id \<Rightarrow> 'm event list \<Rightarrow> actor_id list" where
  "watches a [] = []"
| "watches a (Watched b c # es) = (if b = a then [c] else []) @ watches a es"
| "watches a (_ # es) = watches a es"

fun signals :: "'m incoming list \<Rightarrow> actor_id list" where
  "signals [] = []"
| "signals (Terminated b # is) = b # signals is"
| "signals (Message _ # is) = signals is"

lemma signals_append [simp]: "signals (xs @ ys) = signals xs @ signals ys"
  by (induction xs rule: signals.induct) auto

lemma signals_iff: "b \<in> set (signals is) \<longleftrightarrow> Terminated b \<in> set is"
  by (induction "is" rule: signals.induct) auto

lemma watching_watches: "watching a b es \<Longrightarrow> b \<in> set (watches a es)"
  by (induction a b es rule: watching.induct) auto

lemma signal_watches: "signals_watched es \<Longrightarrow> b \<in> set (signals (delivered a es)) \<Longrightarrow> b \<in> set (watches a es)"
proof (induction a es rule: delivered.induct)
  case (2 a c i es)
  then show ?case by (cases i) (auto dest: watching_watches split: if_splits)
qed auto

lemma watching_once:
  "signals_watched es \<Longrightarrow> distinct (watches a es) \<Longrightarrow> watching a b es \<Longrightarrow> b \<notin> set (signals (delivered a es))"
proof (induction a b es rule: watching.induct)
  case (2 a b c d es)
  then show ?case using signal_watches [of es b a] by (auto split: if_splits)
next
  case (4 a b c i es)
  then show ?case by (cases i) (auto split: if_splits)
qed auto

lemma signals_once:
  "signals_watched es \<Longrightarrow> distinct (watches a es) \<Longrightarrow> distinct (signals (delivered a es))"
proof (induction a es rule: delivered.induct)
  case (2 a c i es)
  then show ?case using watching_once [of es a] by (cases i) (auto split: if_splits)
qed (auto split: if_splits)

section \<open>Actors that are not restarted\<close>

lemma behaves_no_restart:
  assumes "behaves env k cfg me h l kids st g ph" and "config_strategy cfg = StopStrategy"
  shows "(1 \<le> rank ph \<longrightarrow> rank ph \<le> 7 \<longrightarrow> g = 0) \<and> (\<forall>d n. ph \<noteq> RestartStopping d n) \<and> (\<forall>d. ph \<noteq> BackingOff d)"
  using assms(1)
proof (induction rule: behaves.induct)
  case (closing h l kids st g p q g')
  then show ?case by (cases q) auto
qed (use assms(2) in auto)

context actor_runtime
begin

lemma root_task:
  "sys_reach env actor config root w \<Longrightarrow>
     \<exists>t. tasks w root = Some t \<and> task_actor t = actor \<and> task_config t = config \<and> (\<exists>n. parent_stop t = (SystemOwner, n))"
proof (induction rule: sys_reach.induct)
  case (sys_next w w')
  then show ?case using sys_step_kept [OF sys_next.hyps] by (fastforce simp: same_actor_def)
qed (simp add: spawn_root_def spawn_def)

text \<open>What is told of a system's actors one by one.\<close>

lemma reach_lives:
  assumes reach: "sys_reach env actor config root w" and t: "tasks w a = Some t"
  obtains l kids st where "behaves env (task_actor t) (task_config t) a (local_history a (trace w)) l kids st (generation w a) (phase t)"
    and "\<And>x m. (x, m) \<in> set l \<Longrightarrow> DeadLetter x \<in> set (trace w)" and "kids_ok w a kids"
    and "st \<Longrightarrow> abandoned w (parent_stop t)"
proof -
  obtain l kids st where "lives env w a t l kids st" using sys_reach_live [OF reach] t unfolding all_live_def by blast
  then show ?thesis by (intro that [of l kids st]) (auto simp: lives_def)
qed

lemma sender_task:
  assumes reach: "sys_reach env actor config root w" and "e \<in> set (trace w)" and "acts a e"
  shows "\<exists>t. tasks w a = Some t"
  using sys_reach_live [OF reach] assms(2) local_iff [OF assms(3), of "trace w"] by (cases "tasks w a") (auto simp: all_live_def)

lemma behaves_sends: "behaves env k cfg me h l kids st g ph \<Longrightarrow> \<forall>q \<in> set (sends me h). is_message (snd q)"
proof (induction rule: behaves.induct)
  case (initializing h l kids st g p es ls ks p')
  from initializing(2) initializing.IH show ?case by (cases rule: calls.cases) auto
next
  case (handling h l kids st g up p es ls ks p')
  from handling(2) handling.IH show ?case by (cases rule: calls.cases) auto
qed auto

lemma sender_message:
  assumes reach: "sys_reach env actor config root w" and e: "Enqueued (Some a) x i \<in> set (trace w)"
  shows "is_message i"
proof -
  obtain t where t: "tasks w a = Some t" using sender_task [OF reach e, of a] by auto
  obtain l kids st where "behaves env (task_actor t) (task_config t) a (local_history a (trace w)) l kids st (generation w a) (phase t)"
    using reach_lives [OF reach t] by metis
  from behaves_sends [OF this] e show ?thesis by (force simp: sends_local simp flip: sends_iff)
qed

lemma delivered_sent:
  assumes reach: "sys_reach env actor config root w" and d: "Delivered a i \<in> set (trace w)"
  shows "\<exists>x. Enqueued x a i \<in> set (trace w)"
proof -
  have "i \<in> set (taken a (trace w))" using d by (rule delivered_taken)
  then have "i \<in> set (enqueued a (trace w))"
    using queue_invD [OF sys_reach_queue [OF reach], of a] by simp
  then show ?thesis unfolding sent_to_enqueued [symmetric] by (auto simp: sent_to_iff)
qed

lemma root_no_kid:
  assumes reach: "sys_reach env actor config root w" and k: "kids_ok w root kids"
  shows "root \<notin> fst ` set kids"
proof
  assume "root \<in> fst ` set kids"
  then obtain x cfg where "(root, x, cfg) \<in> set kids" by force
  then obtain t n where "tasks w root = Some t" "parent_stop t = (ActorOwner root, n)"
    using k unfolding kids_ok_def by blast
  with root_task [OF reach] show False by auto
qed

lemma no_signals:
  assumes reach: "sys_reach env actor config root w" and "watches a (local_history a (trace w)) = []"
  shows "Terminated b \<notin> set (delivered a (trace w))"
proof
  assume "Terminated b \<in> set (delivered a (trace w))"
  then have "b \<in> set (signals (delivered a (local_history a (trace w))))" by (simp add: delivered_local signals_iff)
  moreover have "signals_watched (local_history a (trace w))"
    using signals_watched_local sys_reach_watching [OF reach] by (auto simp: watching_inv_def)
  ultimately show False using signal_watches [of "local_history a (trace w)" b a] assms(2) by simp
qed

lemma delivered_messages:
  assumes reach: "sys_reach env actor config root w" and t: "tasks w a = Some t" and "watches a (local_history a (trace w)) = []"
  shows "\<exists>rest. filter is_message (enqueued a (trace w)) = delivered a (trace w) @ rest"
proof -
  have "is_message i" if "i \<in> set (delivered a (trace w))" for i
    by (cases i) (use that no_signals [OF reach assms(3)] in auto)
  then have "filter is_message (delivered a (trace w)) = delivered a (trace w)" by simp
  moreover obtain rest where "filter is_message (taken a (trace w)) = filter is_message (delivered a (trace w)) @ rest"
    using delivered_first sys_reach_loss [OF reach] unfolding loss_inv_def by blast
  ultimately show ?thesis using queue_invD [OF sys_reach_queue [OF reach], of a] t by simp
qed

lemma polled_recv:
  "next_incoming env me stopped w = Some (PolledIncoming i, w') \<Longrightarrow> \<exists>mb. mailbox_recv (env_flume env) (mailboxes w me) = Received i mb"
  by (auto simp: next_incoming_def take_watched_for_def world_simps
      split: option.splits sum.splits prod.splits incoming.splits recv_poll.splits if_splits elim!: select_biased.elims)

lemma polled_received:
  assumes reach: "sys_reach env actor config root w" and t: "tasks w me = Some t"
    and "next_incoming env me stopped w = Some (PolledIncoming i, w')"
  shows "\<exists>x. Enqueued x me i \<in> set (trace w)"
proof -
  from polled_recv [OF assms(3)] have "i \<in> set (contents (item_chan (mailboxes w me)))" using mbx.recv_queue by fastforce
  then have "i \<in> set (enqueued me (trace w))" using queue_invD [OF sys_reach_queue [OF reach], of me] t by simp
  then show ?thesis unfolding sent_to_enqueued [symmetric] by (auto simp: sent_to_iff)
qed

lemma polled_signal:
  assumes "next_incoming env me stopped w = Some (PolledIncoming (Terminated b), w')"
  shows "\<exists>mb. mailbox_recv (env_flume env) (mailboxes w me) = Received (Terminated b) mb \<and> b \<in> set (watched w me)"
  using assms
  by (auto simp: next_incoming_def take_watched_for_def world_simps
      split: option.splits sum.splits prod.splits incoming.splits recv_poll.splits if_splits elim!: select_biased.elims)

lemma kids_ok_kid:
  assumes "kids_ok w a kids" and t: "tasks w c = Some t" "parent_stop t = (ActorOwner a, n)"
  shows "(c, task_actor t, task_config t) \<in> set kids"
proof -
  have "c \<in> fst ` set kids" using assms unfolding kids_ok_def by blast
  then obtain k cfg where k: "(c, k, cfg) \<in> set kids" by force
  then obtain t' where "tasks w c = Some t'" "task_actor t' = k" "task_config t' = cfg"
    using assms(1) unfolding kids_ok_def by blast
  with t k show ?thesis by simp
qed

text \<open>A system in which only the root spawns.\<close>

lemma two_levels:
  assumes reach: "sys_reach env actor config root w"
    and children: "\<forall>c t n. tasks w c = Some t \<and> parent_stop t = (ActorOwner root, n) \<longrightarrow> task_actor t = k \<and> task_config t = cfg"
    and leaves: "\<forall>b t c tc n. tasks w b = Some t \<and> task_actor t = k \<and> task_config t = cfg \<and> tasks w c = Some tc \<longrightarrow>
      parent_stop tc \<noteq> (ActorOwner b, n)"
    and t: "tasks w a = Some t" and a: "a \<noteq> root"
  shows "task_actor t = k \<and> task_config t = cfg \<and> (\<exists>n. parent_stop t = (ActorOwner root, n))"
proof -
  have "descendant w root a" using sys_reach_descendant [OF reach, of a] t a by auto
  moreover have "\<exists>t. tasks w c = Some t \<and> task_actor t = k \<and> task_config t = cfg \<and> (\<exists>n. parent_stop t = (ActorOwner root, n))"
    if "descendant w r c" and "r = root" for r c
    using that
  proof (induction rule: descendant.induct)
    case (child c t r n)
    with children show ?case by blast
  next
    case (grandchild r b c t n)
    with leaves show ?case by blast
  qed
  ultimately show ?thesis using t by fastforce
qed

text \<open>
  A root whose messages are accepted whenever it sends one has lost none.
\<close>

lemma dead_letter_step:
  assumes step: "phase_step env ob me t w = Some w'" and "trace w' = es @ trace w" and "DeadLetter x \<in> set es"
  shows "\<exists>m. telling (phase t) = Some (x, m) \<and> fst (try_send_message (env_flume env) m (mailboxes w x)) \<noteq> Ok ()"
proof -
  have user: "\<exists>m q. p = Tell x m q \<and> fst (try_send_message (env_flume env) m (mailboxes w x)) \<noteq> Ok ()"
    if step: "user_step env ob me t ph p w = Some w'" for ph p
  proof -
    from step obtain p' w1 where api: "api_step env (obs_fresh ob) me p w = Some (p', w1)" and w': "w' = goto me t (ph p') w1"
      by (auto simp: user_step_def split: option.splits prod.splits)
    show ?thesis
    proof (cases p)
      case (Watch other q)
      with api have "watch (env_flume env) me other w = Some w1" by (auto split: if_splits)
      from watch_trace [OF this] assms(2,3) show ?thesis by (auto simp: w' goto_frame)
    qed (use api assms(2,3) in \<open>auto simp: w' world_simps unwatch_def spawn_with_config_def spawn_def Let_def split: if_splits sum.splits\<close>)
  qed
  from step show ?thesis
  proof (cases rule: phase_step_cases)
    case (receive s up)
    then show ?thesis
      using assms(2,3) by (cases rule: receive_step_cases [OF receive(2)]) (auto simp: world_simps split: if_splits)
  next
    case (signal wtc rest)
    then show ?thesis
      using assms(2,3) by (cases "watcher_sink wtc") (auto simp: goto_frame watcher_send_trace split: if_splits)
  qed (use user assms(2,3) in \<open>force simp: start_task_def finish_task_def terminate_drain_def terminate_disconnect_def terminate_unregister_def
        terminate_take_watchers_def world_simps Let_def split: prod.splits\<close>)+
qed

lemma root_lossless:
  assumes reach: "sys_reach env actor config root w" and "undisturbed (trace w)"
    and fits: "\<forall>w t kids st x m. sys_reach env actor config root w \<and> undisturbed (trace w) \<and> tasks w root = Some t \<and>
      lives env w root t [] kids st \<and> telling (phase t) = Some (x, m) \<longrightarrow>
      fst (try_send_message (env_flume env) m (mailboxes w x)) = Ok ()"
  shows "\<exists>t kids st. tasks w root = Some t \<and> lives env w root t [] kids st"
  using reach assms(2)
proof (induction rule: sys_reach.induct)
  case sys_start
  show ?case
    by (auto simp: lives_def kids_ok_def abandoned_def restart_ok_def spawn_root_def spawn_def world_simps
        intro!: exI behaves.starting)
next
  case (sys_next w w')
  have tree: "tree_inv receivers w" by (rule sys_reach_tree [OF sys_next.hyps(1)])
  have quiet: "undisturbed (trace w)" if "trace w' = es @ trace w" for es
    using sys_next.prems by (simp add: that undisturbed_def)
  from sys_next.hyps show ?case
  proof (cases rule: sys_step_moves)
    case (task ob me t)
    from task(3) have alone: "undisturbed (trace w)" using quiet unfolding moves_def by blast
    from sys_next.IH [OF this] obtain tr kids st where tr: "tasks w root = Some tr" "lives env w root tr [] kids st" by blast
    show ?thesis
    proof (cases "me = root")
      case True
      with tr task(1) have t: "lives env w me t [] kids st" by simp
      from moves_mine [OF t tree task(1,3,4)] obtain t' es ls ks stp where t': "tasks w' me = Some t'" "trace w' = es @ trace w"
        and ls: "\<forall>(x, m) \<in> set ls. DeadLetter x \<in> set es" and live: "lives env w' me t' (ls @ []) (ks @ kids) (stp \<or> st)" by blast
      have "DeadLetter x \<notin> set es" for x
      proof
        assume "DeadLetter x \<in> set es"
        from dead_letter_step [OF task(2) t'(2) this] fits sys_next.hyps(1) alone task(1) t True show False by blast
      qed
      with ls have "ls = []" by (cases ls) auto
      with live t' True show ?thesis by auto
    next
      case False
      with moves_others [OF tr(2) tree task(1) tr(1) task(3,4)] show ?thesis by blast
    qed
  next
    case (outside es)
    from sys_next.IH [OF quiet [OF outside(3)]] lives_same [OF _ outside] outside(1) show ?thesis by metis
  qed
qed

text \<open>
  An actor that watched each of its children once and receives the last of their signals: all of
  them have signalled.
\<close>

lemma last_signal:
  assumes reach: "sys_reach env actor config root w" and t: "tasks w a = Some t" "rank (phase t) = 1"
    and kids: "watches a (local_history a (trace w)) = map fst kids" and k: "kids_ok w a kids"
    and b: "b \<in> set (watched w a)" and d: "Suc (length (signals (delivered a (trace w)))) = length kids"
  shows "insert b (set (signals (delivered a (trace w)))) = set (map fst kids)"
proof -
  let ?h = "local_history a (trace w)" and ?d = "delivered a (trace w)"
  have "watching a b ?h"
    using watching_invD(2) [OF sys_reach_watching [OF reach] t(1)] t(2) b by (simp add: watching_local)
  moreover have "signals_watched ?h"
    using signals_watched_local sys_reach_watching [OF reach] by (auto simp: watching_inv_def)
  moreover have dist: "distinct (map fst kids)" using k by (simp add: kids_ok_def)
  ultimately have once: "b \<notin> set (signals ?d)" "distinct (signals ?d)" "b \<in> set (map fst kids)" "set (signals ?d) \<subseteq> set (map fst kids)"
    using watching_once [of ?h a b] signals_once [of ?h a] watching_watches [of a b ?h] signal_watches [of ?h _ a] kids
    by (auto simp: delivered_local)
  have "card (insert b (set (signals ?d))) = length kids" using once(1,2) d by (simp add: distinct_card)
  moreover have "card (set (map fst kids)) = length kids" using distinct_card [OF dist] by simp
  ultimately show ?thesis using once(3,4) by (intro card_subset_eq) auto
qed

lemma signal_received:
  assumes reach: "sys_reach env actor config root w" and t: "tasks w a = Some t"
    and q: "contents (item_chan (mailboxes w a)) = Terminated b # rest"
    and c: "c \<in> insert b (set (signals (delivered a (trace w))))"
  shows "signal_sent c (trace w)"
proof -
  have "Terminated c \<in> set (taken a (trace w))" if "c \<in> set (signals (delivered a (trace w)))"
    using that by (simp add: signals_iff delivered_iff delivered_taken)
  then have "Terminated c \<in> set (enqueued a (trace w))"
    using queue_invD [OF sys_reach_queue [OF reach], of a] t q c by auto
  then show ?thesis
    unfolding sent_to_enqueued [symmetric] signal_sent_def set_map image_iff Bex_def using sent_to_iff by fastforce
qed

end

section \<open>Running a system\<close>

text \<open>The definitions a run over the list and the counter unfolds.\<close>

lemmas run_simps = list_env_def spawn_root_def spawn_def put_mailbox_def make_mailbox_def
  list_flume_def counting_watch_def actor_config_default_def registry_default_def quota_unbounded_def run_with_def fresh_id_def
  task_step_def phase_step_eq start_task_def log_event_def update_stop_def goto_def put_task_def Let_def
  user_step_def spawn_with_config_def watch_def registry_add_def registry_of_def put_registry_def put_watched_def make_watcher_def
  watcher_new_def tell_def try_tell_def try_send_message_def try_send_counted_def reservation_commit_def init_done_def
  receive_step_def next_incoming_def mailbox_recv_def take_watched_for_def receive_incoming_def terminate_drain_def drain_mailbox_def
  terminate_disconnect_def disconnect_mailbox_def take_watched_def stop_children_def stop_children_closed_def drop_context_def
  terminate_take_watchers_def take_watchers_def registry_take_def watcher_send_terminated_def send_terminated_to_def
  sink_send_terminated_def try_send_uncounted_def

end
