(* ===== verification/ScatterGather.thy ===== *)
theory ScatterGather
  imports Delivery
begin

text \<open>
  \<^verbatim>\<open>tellus/examples/scatter_gather.rs\<close>: the root scatters shards to workers it watches, and
  gathers their partial sums until all of them have terminated. The claim of its comments, that the
  signal of a worker proves its partial result has been added, is what the guarantees of the crate
  give here: whatever the interleaving, the total that is printed is the sum over all shards.

  The messages of the two actors are one type; a message of the wrong kind, which the types of the
  references exclude, panics. Printed lines are returned beside the code of a handler, and arithmetic panics on overflow.
\<close>

section \<open>The actors\<close>

datatype scatter_actor = Gatherer | Worker

datatype partial = Partial u64

record compute =
  shard :: "u64 \<times> u64"
  compute_reply_to :: actor_id

datatype scatter_message = ToGatherer partial | ToWorker compute

record gathering =
  remaining :: usize
  total :: u64

datatype scatter_state = GathererState gathering | WorkerState

datatype scatter_line = ShardSum u64 u64 u64 | TotalIs u64

definition SHARDS :: "(u64 \<times> u64) list" where
  "SHARDS = [(1, 26), (26, 51), (51, 76), (76, 101)]"

text \<open>The loop of the gatherer's \<^verbatim>\<open>init\<close>.\<close>

fun scatter ::
  "(u64 \<times> u64) list \<Rightarrow> actor_id \<Rightarrow> (scatter_actor, scatter_message, 'r) prog \<Rightarrow> (scatter_actor, scatter_message, 'r) prog" where
  "scatter [] me p = p"
| "scatter (s # rest) me p =
     Spawn Worker actor_config_default (\<lambda>worker.
       Watch worker (Tell worker (ToWorker \<lparr>shard = s, compute_reply_to = me\<rparr>) (scatter rest me p)))"

definition gatherer_init :: "actor_id \<Rightarrow> (scatter_actor, scatter_message, (gathering, infallible) call) prog" where
  "gatherer_init me =
     scatter SHARDS me (Ret (Return \<lparr>remaining = of_nat (length SHARDS), total = 0\<rparr>))"

fun gatherer_receive :: "partial incoming \<Rightarrow> gathering \<Rightarrow> scatter_line list \<times> (gathering control, infallible) call" where
  "gatherer_receive (Message (Partial v)) s =
     ([], case checked_add (total s) v of
            Some t \<Rightarrow> Return (Continue (s\<lparr>total := t\<rparr>))
          | None \<Rightarrow> Panic)"
| "gatherer_receive (Terminated _) s =
     (case checked_sub (remaining s) 1 of
        Some left \<Rightarrow>
          (if 0 < left then ([], Return (Continue (s\<lparr>remaining := left\<rparr>)))
           else ([TotalIs (total s)], Return Stop))
      | None \<Rightarrow> ([], Panic))"

fun sum_u64 :: "u64 \<Rightarrow> u64 list \<Rightarrow> u64 option" where
  "sum_u64 acc [] = Some acc"
| "sum_u64 acc (x # xs) = (case checked_add acc x of Some acc' \<Rightarrow> sum_u64 acc' xs | None \<Rightarrow> None)"

definition shard_sum :: "u64 \<times> u64 \<Rightarrow> u64 option" where
  "shard_sum s = (case s of (start, stop) \<Rightarrow> sum_u64 0 (map of_nat [unat start..<unat stop]))"

fun worker_receive ::
  "compute incoming \<Rightarrow> scatter_line list \<times> (scatter_actor, scatter_message, ('s control, infallible) call) prog" where
  "worker_receive (Message c) =
     (case shard_sum (shard c) of
        Some v \<Rightarrow>
          ([ShardSum (fst (shard c)) (snd (shard c)) v],
           Tell (compute_reply_to c) (ToGatherer (Partial v)) (Ret (Return Stop)))
      | None \<Rightarrow> ([], Ret Panic))"
| "worker_receive (Terminated _) = ([], Ret Panic)"

section \<open>The system\<close>

fun to_gatherer :: "scatter_message incoming \<Rightarrow> partial incoming option" where
  "to_gatherer (Message (ToGatherer p)) = Some (Message p)"
| "to_gatherer (Message (ToWorker _)) = None"
| "to_gatherer (Terminated i) = Some (Terminated i)"

fun to_worker :: "scatter_message incoming \<Rightarrow> compute incoming option" where
  "to_worker (Message (ToWorker c)) = Some (Message c)"
| "to_worker (Message (ToGatherer _)) = None"
| "to_worker (Terminated i) = Some (Terminated i)"

fun scatter_init :: "scatter_actor \<Rightarrow> actor_id \<Rightarrow> (scatter_actor, scatter_message, (scatter_state, infallible) call) prog" where
  "scatter_init Gatherer me = map_prog id id (map_call GathererState id) (gatherer_init me)"
| "scatter_init Worker me = Ret (Return WorkerState)"

fun scatter_receive ::
  "scatter_actor \<Rightarrow> scatter_message incoming \<Rightarrow> scatter_state
     \<Rightarrow> scatter_line list \<times> (scatter_actor, scatter_message, (scatter_state control, infallible) call) prog" where
  "scatter_receive Gatherer i (GathererState s) =
     (case to_gatherer i of
        Some j \<Rightarrow> (case gatherer_receive j s of (out, r) \<Rightarrow> (out, Ret (map_call (map_control GathererState) id r)))
      | None \<Rightarrow> ([], Ret Panic))"
| "scatter_receive Worker i WorkerState =
     (case to_worker i of Some j \<Rightarrow> worker_receive j | None \<Rightarrow> ([], Ret Panic))"
| "scatter_receive _ _ _ = ([], Ret Panic)"

definition scatter_code :: "('c, 'w, scatter_actor, scatter_message, scatter_state, infallible) env \<Rightarrow> bool" where
  "scatter_code env \<longleftrightarrow>
     init_code env = scatter_init \<and> receive_code env = (\<lambda>k me i s. snd (scatter_receive k i s))"

section \<open>A worker by itself\<close>

definition worker_broke :: "actor_id \<Rightarrow> scatter_message event list \<Rightarrow> bool" where
  "worker_broke me h \<longleftrightarrow>
     (\<exists>i. h = [Delivered me i, InitCalled me] \<and> (\<forall>c. i = Message (ToWorker c) \<longrightarrow> shard_sum (shard c) = None))"

definition worker_ran :: "actor_id \<Rightarrow> scatter_message event list \<Rightarrow> (actor_id \<times> scatter_message) list \<Rightarrow> bool" where
  "worker_ran me h l \<longleftrightarrow>
     (\<exists>c v. shard_sum (shard c) = Some v \<and>
        (h = [Enqueued (Some me) (compute_reply_to c) (Message (ToGatherer (Partial v))),
              Delivered me (Message (ToWorker c)), InitCalled me] \<and> l = [] \<or>
         h = [Delivered me (Message (ToWorker c)), InitCalled me] \<and> l = [(compute_reply_to c, ToGatherer (Partial v))]))"

definition worker_inv ::
  "actor_id \<Rightarrow> scatter_message event list \<Rightarrow> (actor_id \<times> scatter_message) list \<Rightarrow> scatter_actor kid list
     \<Rightarrow> bool \<Rightarrow> (scatter_actor, scatter_message, scatter_state, infallible) phase \<Rightarrow> bool" where
  "worker_inv me h l kids st ph \<longleftrightarrow> kids = [] \<and>
     (\<forall>d n. ph \<noteq> RestartStopping d n) \<and> (\<forall>d. ph \<noteq> BackingOff d) \<and>
     (ph = Starting \<longrightarrow> h = [] \<and> l = []) \<and>
     (\<forall>p. ph = Initializing p \<longrightarrow> h = [InitCalled me] \<and> l = [] \<and> p = Ret (Return WorkerState)) \<and>
     (\<forall>s up. ph = Receiving s up \<longrightarrow> h = [InitCalled me] \<and> l = [] \<and> s = WorkerState) \<and>
     (\<forall>up p. ph = Handling up p \<longrightarrow>
        (\<exists>i. h = [Delivered me i, InitCalled me] \<and> l = [] \<and> p = snd (scatter_receive Worker i WorkerState)) \<or>
        worker_ran me h l \<and> p = Ret (Return Stop)) \<and>
     (\<forall>up. ph = Failed up \<longrightarrow> worker_broke me h) \<and>
     (2 \<le> rank ph \<longrightarrow> st \<and> h = [InitCalled me] \<and> l = [] \<or> worker_broke me h \<or> worker_ran me h l)"

lemma worker_code_cases:
  "snd (scatter_receive Worker i WorkerState) = Ret Panic \<and> (\<forall>c. i = Message (ToWorker c) \<longrightarrow> shard_sum (shard c) = None) \<or>
   (\<exists>c v. i = Message (ToWorker c) \<and> shard_sum (shard c) = Some v \<and>
      snd (scatter_receive Worker i WorkerState) =
        Tell (compute_reply_to c) (ToGatherer (Partial v)) (Ret (Return Stop)))"
  by (cases i rule: to_worker.cases) (auto split: option.splits)

lemma worker_returned:
  assumes "worker_inv me h l kids st (Handling up (Ret r))"
  shows "kids = [] \<and> (r = Panic \<and> worker_broke me h \<or> r = Return Stop \<and> worker_ran me h l)"
proof -
  have "kids = []" and "(\<exists>i. h = [Delivered me i, InitCalled me] \<and> l = [] \<and>
      Ret r = snd (scatter_receive Worker i WorkerState)) \<or> worker_ran me h l \<and> r = Return Stop"
    using assms by (auto simp: worker_inv_def)
  then show ?thesis
  proof (elim disjE exE conjE)
    fix i
    assume "kids = []" "h = [Delivered me i, InitCalled me]" "Ret r = snd (scatter_receive Worker i WorkerState)"
    with worker_code_cases [of i] show ?thesis unfolding worker_broke_def by (metis prog.distinct(1) prog.inject(1))
  qed auto
qed

lemma worker_behaves:
  assumes "behaves env Worker actor_config_default me h l kids st g ph" and code: "scatter_code env"
  shows "worker_inv me h l kids st ph"
  using assms(1)
proof (induction rule: behaves.induct)
  case (handling h l kids st g up p es ls ks p')
  have calls: "calls me p es ls ks p'" and kids: "kids = []" using handling by (simp_all add: worker_inv_def)
  then have "\<not> (\<exists>r. p = Ret r)" by (auto elim: calls.cases)
  then obtain i where h: "h = [Delivered me i, InitCalled me]" "l = []" and p: "p = snd (scatter_receive Worker i WorkerState)"
    using handling by (auto simp: worker_inv_def)
  with \<open>\<not> (\<exists>r. p = Ret r)\<close> obtain c v where c: "i = Message (ToWorker c)" "shard_sum (shard c) = Some v"
    "p = Tell (compute_reply_to c) (ToGatherer (Partial v)) (Ret (Return Stop))"
    using worker_code_cases [of i] by auto
  from calls show ?case
    by (cases rule: calls.cases) (use kids h c in \<open>auto simp: worker_inv_def worker_ran_def\<close>)
next
  case (continues h l kids st g up r s)
  with worker_returned [OF continues.IH] show ?case by auto
next
  case (stops_itself h l kids st g up r)
  with worker_returned [OF stops_itself.IH] show ?case by (auto simp: worker_inv_def)
next
  case (fails h l kids st g up r)
  with worker_returned [OF fails.IH] show ?case by (auto simp: worker_inv_def)
next
  case (restarting h l kids st g up d)
  then show ?case by (simp add: actor_config_default_def)
next
  case (restarted h l kids st g d)
  with behaves_no_restart [OF restarted.hyps] show ?case by (simp add: actor_config_default_def)
next
  case (interrupted h l kids st g d)
  with behaves_no_restart [OF interrupted.hyps] show ?case by (simp add: actor_config_default_def)
next
  case (closing h l kids st g p q g')
  with rank_late [of q] show ?case by (simp add: worker_inv_def)
next
  case (initializing h l kids st g p es ls ks p')
  then have "p = Ret (Return WorkerState)" by (simp add: worker_inv_def)
  with initializing show ?case by (auto elim: calls.cases)
qed (use code in \<open>simp_all add: worker_inv_def scatter_code_def\<close>)

lemma worker_history:
  assumes "worker_inv me h l kids st ph"
  shows "h = [] \<or> h = [InitCalled me] \<or> (\<exists>i. h = [Delivered me i, InitCalled me]) \<or> worker_ran me h l"
  using assms by (cases ph) (auto simp: worker_inv_def worker_broke_def)

section \<open>The gatherer by itself\<close>

lemma map_scatter: "map_prog id id f (scatter ss me p) = scatter ss me (map_prog id id f p)"
  by (induction ss) (simp_all add: comp_def)

lemma scatter_init_gatherer:
  "scatter_init Gatherer me = scatter SHARDS me (Ret (Return (GathererState \<lparr>remaining = 4, total = 0\<rparr>)))"
proof -
  have "length SHARDS = 4" by (simp add: SHARDS_def)
  then show ?thesis by (simp add: gatherer_init_def map_scatter)
qed

text \<open>The state after what was delivered so far.\<close>

definition gather :: "gathering option \<Rightarrow> scatter_message incoming \<Rightarrow> gathering option" where
  "gather g i =
     (case g of None \<Rightarrow> None
      | Some s \<Rightarrow>
          (case snd (scatter_receive Gatherer i (GathererState s)) of
             Ret (Return (Continue (GathererState s'))) \<Rightarrow> Some s' | _ \<Rightarrow> None))"

definition gathered :: "scatter_message incoming list \<Rightarrow> gathering option" where
  "gathered is = foldl gather (Some \<lparr>remaining = 4, total = 0\<rparr>) is"

definition tells_shards :: "actor_id \<Rightarrow> scatter_message event list \<Rightarrow> scatter_actor kid list \<Rightarrow> bool" where
  "tells_shards me h kids \<longleftrightarrow>
     length kids \<le> length SHARDS \<and> (\<forall>(i, k, cfg) \<in> set kids. k = Worker \<and> cfg = actor_config_default) \<and>
     (\<forall>x i. Enqueued (Some me) x i \<in> set h \<longrightarrow>
        (\<exists>j < length kids. x = fst (rev kids ! j) \<and> i = Message (ToWorker \<lparr>shard = SHARDS ! j, compute_reply_to = me\<rparr>)))"

text \<open>Where the loop of \<^verbatim>\<open>init\<close> stands: before a spawn, a watch or a tell.\<close>

definition scattering ::
  "actor_id \<Rightarrow> scatter_message event list \<Rightarrow> scatter_actor kid list
     \<Rightarrow> (scatter_actor, scatter_message, (scatter_state, infallible) call) prog \<Rightarrow> bool" where
  "scattering me h kids p \<longleftrightarrow>
     (let n = length kids; rest = scatter (drop n SHARDS) me (Ret (Return (GathererState \<lparr>remaining = 4, total = 0\<rparr>)));
          b = fst (hd kids); tell = Tell b (ToWorker \<lparr>shard = SHARDS ! (n - 1), compute_reply_to = me\<rparr>) rest
      in watches me h = map fst kids \<and> (p = rest \<or> 0 < n \<and> p = tell) \<or>
         0 < n \<and> watches me h = map fst (tl kids) \<and> p = Watch b tell)"

definition gatherer_inv ::
  "actor_id \<Rightarrow> scatter_message event list \<Rightarrow> scatter_actor kid list
     \<Rightarrow> (scatter_actor, scatter_message, scatter_state, infallible) phase \<Rightarrow> bool" where
  "gatherer_inv me h kids ph \<longleftrightarrow> tells_shards me h kids \<and>
     (ph = Starting \<longrightarrow> h = [] \<and> kids = []) \<and>
     (\<forall>p. ph = Initializing p \<longrightarrow> delivered me h = [] \<and> scattering me h kids p) \<and>
     (rank ph = 1 \<and> (\<forall>p. ph \<noteq> Initializing p) \<longrightarrow> length kids = length SHARDS \<and> watches me h = map fst kids) \<and>
     (\<forall>s up. ph = Receiving s up \<longrightarrow> (\<exists>g. s = GathererState g \<and> gathered (delivered me h) = Some g)) \<and>
     (\<forall>up p. ph = Handling up p \<longrightarrow>
        (\<exists>i h' g. h = Delivered me i # h' \<and> gathered (delivered me h') = Some g \<and>
           p = snd (scatter_receive Gatherer i (GathererState g)))) \<and>
     (\<forall>up. ph = Failed up \<longrightarrow>
        (\<exists>i h' g. h = Delivered me i # h' \<and> gathered (delivered me h') = Some g \<and>
           (snd (scatter_receive Gatherer i (GathererState g)) = Ret Panic)))"

lemma gatherer_code:
  "\<exists>r. snd (scatter_receive Gatherer i (GathererState g)) = Ret r \<and>
     (r = Panic \<or> r = Return Stop \<or> (\<exists>g'. r = Return (Continue (GathererState g')) \<and> gather (Some g) i = Some g'))"
proof (cases i rule: to_gatherer.cases)
  case (1 p)
  obtain v where "p = Partial v" by (cases p)
  with 1 show ?thesis by (cases "checked_add (total g) v") (simp_all add: gather_def)
next
  case (2 c)
  then show ?thesis by simp
next
  case (3 b)
  then show ?thesis by (cases "checked_sub (remaining g) 1") (simp_all add: gather_def)
qed

lemma gathered_snoc: "gathered (is @ [i]) = gather (gathered is) i"
  by (simp add: gathered_def)

lemma gatherer_handling:
  "gatherer_inv me h kids (Handling up p) \<Longrightarrow>
     \<exists>i h' g. h = Delivered me i # h' \<and> gathered (delivered me h') = Some g \<and>
       p = snd (scatter_receive Gatherer i (GathererState g))"
  by (simp add: gatherer_inv_def)

lemma gatherer_returned:
  assumes "gatherer_inv me h kids (Handling up (Ret r))"
  shows "r = Panic \<and> gatherer_inv me h kids (Failed (Some up)) \<or> r = Return Stop \<or>
    (\<exists>g. r = Return (Continue (GathererState g)) \<and> gathered (delivered me h) = Some g)"
proof -
  from gatherer_handling [OF assms] obtain i h' g where h: "h = Delivered me i # h'" "gathered (delivered me h') = Some g"
    "Ret r = snd (scatter_receive Gatherer i (GathererState g))"
    by blast
  with gatherer_code [of i g] consider "r = Panic" | "r = Return Stop"
    | g' where "r = Return (Continue (GathererState g'))" "gather (Some g) i = Some g'" by auto
  then show ?thesis
  proof cases
    case 1
    have "gatherer_inv me h kids (Failed (Some up))"
      using assms h 1 unfolding gatherer_inv_def by (metis phase.distinct phase.inject rank.simps)
    with 1 show ?thesis by simp
  next
    case (3 g')
    with h show ?thesis by (simp add: gathered_snoc)
  qed simp
qed

lemma tells_shards_spawn:
  assumes "tells_shards me h kids" and "length kids < length SHARDS"
  shows "tells_shards me h ((i, Worker, actor_config_default) # kids)"
  unfolding tells_shards_def
proof (intro conjI allI impI)
  fix x j
  assume "Enqueued (Some me) x j \<in> set h"
  then obtain n where "n < length kids" "x = fst (rev kids ! n)"
    "j = Message (ToWorker \<lparr>shard = SHARDS ! n, compute_reply_to = me\<rparr>)"
    using assms(1) unfolding tells_shards_def by blast
  then show "\<exists>n < length ((i, Worker, actor_config_default) # kids). x = fst (rev ((i, Worker, actor_config_default) # kids) ! n) \<and>
      j = Message (ToWorker \<lparr>shard = SHARDS ! n, compute_reply_to = me\<rparr>)"
    by (intro exI [of _ n]) (simp add: nth_append)
qed (use assms in \<open>auto simp: tells_shards_def\<close>)

lemma scattering_call:
  assumes sc: "scattering me h kids p" and tell: "tells_shards me h kids" and call: "calls me p es ls ks p'"
  shows "scattering me (es @ h) (ks @ kids) p' \<and> tells_shards me (es @ h) (ks @ kids)"
proof -
  let ?n = "length kids" and ?ret = "Ret (Return (GathererState \<lparr>remaining = 4, total = 0\<rparr>))"
  let ?tell = "Tell (fst (hd kids)) (ToWorker \<lparr>shard = SHARDS ! (?n - 1), compute_reply_to = me\<rparr>) (scatter (drop ?n SHARDS) me ?ret)"
  from sc consider (loop) "watches me h = map fst kids" "p = scatter (drop ?n SHARDS) me ?ret"
    | (tell) "watches me h = map fst kids" "0 < ?n" "p = ?tell"
    | (watch) "0 < ?n" "watches me h = map fst (tl kids)" "p = Watch (fst (hd kids)) ?tell"
    unfolding scattering_def Let_def by blast
  then show ?thesis
  proof cases
    case loop
    have lt: "?n < length SHARDS"
    proof (rule ccontr)
      assume "\<not> ?n < length SHARDS"
      with loop(2) call show False by (auto elim: calls.cases)
    qed
    from loop(2) call obtain i where "es = []" "ks = [(i, Worker, actor_config_default)]"
      "p' = Watch i (Tell i (ToWorker \<lparr>shard = SHARDS ! ?n, compute_reply_to = me\<rparr>) (scatter (drop (Suc ?n) SHARDS) me ?ret))"
      unfolding Cons_nth_drop_Suc [OF lt, symmetric] by (auto elim: calls.cases)
    with loop tells_shards_spawn [OF tell lt] show ?thesis by (simp add: scattering_def Let_def)
  next
    case tell
    with call have "p' = scatter (drop ?n SHARDS) me ?ret" "ks = []"
      "es = [] \<or> es = [Enqueued (Some me) (fst (hd kids)) (Message (ToWorker \<lparr>shard = SHARDS ! (?n - 1), compute_reply_to = me\<rparr>))]"
      by (auto elim: calls.cases)
    moreover have "hd kids = rev kids ! (?n - 1)" using tell(2) by (simp add: rev_nth hd_conv_nth)
    ultimately show ?thesis
      using tell \<open>tells_shards me h kids\<close> by (auto simp: scattering_def Let_def tells_shards_def intro!: exI [of _ "?n - 1"])
  next
    case watch
    with call have "p' = ?tell" "ks = []" "es = [Watched me (fst (hd kids))]" by (auto elim: calls.cases)
    with watch tell show ?thesis
      by (cases kids) (auto simp: scattering_def Let_def tells_shards_def)
  qed
qed

lemma scattering_done:
  assumes "scattering me h kids (Ret r)" and "tells_shards me h kids"
  shows "length kids = length SHARDS \<and> watches me h = map fst kids \<and> r = Return (GathererState \<lparr>remaining = 4, total = 0\<rparr>)"
proof -
  from assms(1) have "Ret r = scatter (drop (length kids) SHARDS) me (Ret (Return (GathererState \<lparr>remaining = 4, total = 0\<rparr>)))"
    and "watches me h = map fst kids"
    by (auto simp: scattering_def Let_def)
  with assms(2) show ?thesis by (cases "drop (length kids) SHARDS") (auto simp: tells_shards_def)
qed

lemma gatherer_behaves:
  assumes "behaves env Gatherer actor_config_default me h l kids st g ph" and code: "scatter_code env"
  shows "gatherer_inv me h kids ph"
  using assms(1)
proof (induction rule: behaves.induct)
  case started
  have "init_code env Gatherer me = scatter SHARDS me (Ret (Return (GathererState \<lparr>remaining = 4, total = 0\<rparr>)))"
    using code scatter_init_gatherer by (simp add: scatter_code_def del: scatter_init.simps)
  then show ?case by (simp add: gatherer_inv_def tells_shards_def scattering_def Let_def)
next
  case (initializing h l kids st g p es ls ks p')
  then have "delivered me (es @ h) = []" by (auto simp: gatherer_inv_def elim: calls.cases)
  with initializing scattering_call [of me h kids p es ls ks p'] show ?case by (simp add: gatherer_inv_def)
next
  case (handling h l kids st g up p es ls ks p')
  from gatherer_handling [OF handling.IH] obtain i gs where "p = snd (scatter_receive Gatherer i (GathererState gs))"
    by blast
  with gatherer_code [of i gs] obtain r where "p = Ret r" by blast
  with handling show ?case by (auto elim: calls.cases)
next
  case (init_ok h l kids st g r s now)
  then have "scattering me h kids (Ret r)" "tells_shards me h kids" "delivered me h = []" by (simp_all add: gatherer_inv_def)
  with scattering_done init_ok(2) show ?case by (fastforce simp: gatherer_inv_def gathered_def)
next
  case (init_failed h l kids st g r)
  then have "scattering me h kids (Ret r)" "tells_shards me h kids" by (simp_all add: gatherer_inv_def)
  with scattering_done init_failed(2) show ?case by fastforce
next
  case (continues h l kids st g up r s)
  with gatherer_returned [OF continues.IH] show ?case by (auto simp: gatherer_inv_def)
next
  case (stops_itself h l kids st g up r)
  then show ?case by (auto simp: gatherer_inv_def)
next
  case (fails h l kids st g up r)
  with gatherer_returned [OF fails.IH] show ?case by auto
next
  case (restarting h l kids st g up d)
  then show ?case by (simp add: actor_config_default_def)
next
  case (restarted h l kids st g d)
  with behaves_no_restart [OF restarted.hyps] show ?case by (simp add: actor_config_default_def)
next
  case (interrupted h l kids st g d)
  with behaves_no_restart [OF interrupted.hyps] show ?case by (simp add: actor_config_default_def)
next
  case (closing h l kids st g p q g')
  with rank_late [of q] show ?case by (simp add: gatherer_inv_def)
qed (use code in \<open>auto simp: gatherer_inv_def scatter_code_def tells_shards_def\<close>)

section \<open>Together\<close>

definition PARTIALS :: "u64 list" where
  "PARTIALS = [325, 950, 1575, 2200]"

lemma partials_sum: "(\<Sum>j < 4. unat (PARTIALS ! j)) = 5050"
proof -
  have "{..<4} = {0, 1, 2, 3::nat}" by auto
  then show ?thesis by (simp add: PARTIALS_def)
qed

lemma shard_sums: "map shard_sum SHARDS = map Some PARTIALS"
  by code_simp

lemma shard_sum_nth: "j < length SHARDS \<Longrightarrow> shard_sum (SHARDS ! j) = Some (PARTIALS ! j)"
  using shard_sums by (metis length_map nth_map)

fun partial_value :: "scatter_message incoming \<Rightarrow> nat" where
  "partial_value (Message (ToGatherer (Partial v))) = unat v"
| "partial_value _ = 0"

lemma messages_value: "sum_list (map partial_value (filter is_message is)) = sum_list (map partial_value is)"
proof (induction "is")
  case (Cons i "is")
  then show ?case by (cases i) simp_all
qed simp

lemma gathered_values:
  "gathered is = Some g \<Longrightarrow>
     unat (total g) = sum_list (map partial_value is) \<and> unat (remaining g) + length (signals is) = 4 \<and> remaining g \<noteq> 0"
proof (induction "is" arbitrary: g rule: rev_induct)
  case Nil
  then show ?case by (auto simp: gathered_def)
next
  case (snoc i "is")
  then obtain g0 where g0: "gathered is = Some g0" and i: "gather (Some g0) i = Some g"
    by (cases "gathered is") (auto simp: gathered_snoc gather_def)
  note IH = snoc.IH [OF g0]
  show ?case
  proof (cases i rule: to_gatherer.cases)
    case (1 p)
    obtain v where v: "p = Partial v" by (cases p)
    with 1 i obtain t where "checked_add (total g0) v = Some t" "g = g0\<lparr>total := t\<rparr>"
      by (cases "checked_add (total g0) v") (auto simp: gather_def)
    with IH 1 v checked_add_unat show ?thesis by fastforce
  next
    case (2 c)
    with i show ?thesis by (simp add: gather_def)
  next
    case (3 b)
    with i obtain r where "checked_sub (remaining g0) 1 = Some r" "0 < r" "g = g0\<lparr>remaining := r\<rparr>"
      by (cases "checked_sub (remaining g0) 1") (auto simp: gather_def split: if_splits)
    with IH 3 checked_sub_unat [of "remaining g0" 1 r] show ?thesis by (auto simp: word_gt_0)
  qed
qed

lemma gatherer_prints:
  assumes "line \<in> set (fst (scatter_receive Gatherer i (GathererState g)))"
  shows "line = TotalIs (total g) \<and> (\<exists>b. i = Terminated b) \<and> unat (remaining g) = 1"
proof (cases i rule: to_gatherer.cases)
  case (1 p)
  then show ?thesis using assms by (cases p) simp
next
  case (2 c)
  then show ?thesis using assms by simp
next
  case (3 b)
  with assms obtain r where r: "checked_sub (remaining g) 1 = Some r" "\<not> 0 < r" "line = TotalIs (total g)"
    by (cases "checked_sub (remaining g) 1") (auto split: if_splits)
  with 3 checked_sub_unat [OF r(1)] show ?thesis by (simp add: word_gt_0)
qed

text \<open>A sum over a list, sender by sender.\<close>

lemma sum_by:
  fixes f :: "'a \<times> 'b \<Rightarrow> nat"
  assumes "finite S" and "\<And>p. p \<in> set ps \<Longrightarrow> f p \<noteq> 0 \<Longrightarrow> fst p \<in> S"
  shows "sum_list (map f ps) = (\<Sum>a\<in>S. sum_list (map f (filter (\<lambda>p. fst p = a) ps)))"
  using assms(2)
proof (induction ps)
  case (Cons p ps)
  have "(\<Sum>a\<in>S. sum_list (map f (filter (\<lambda>p. fst p = a) (p # ps)))) =
      (\<Sum>a\<in>S. (if a = fst p then f p else 0) + sum_list (map f (filter (\<lambda>p. fst p = a) ps)))"
    by (rule sum.cong) auto
  also have "\<dots> = (if fst p \<in> S then f p else 0) + (\<Sum>a\<in>S. sum_list (map f (filter (\<lambda>p. fst p = a) ps)))"
    using assms(1) by (simp add: sum.distrib)
  finally show ?case using Cons by (cases "f p = 0") auto
qed simp

lemma delivered_sum_le: "sum_list (map partial_value (delivered a es)) \<le> sum_list (map partial_value (taken a es))"
  by (induction a es rule: taken.induct) auto

locale scatter_runtime =
  actor_runtime env contents connected tx_alive receivers signalled sender_gone
  for env :: "('c, 'w, scatter_actor, scatter_message, scatter_state, infallible) env"
    and contents :: "'c \<Rightarrow> scatter_message incoming list" and connected tx_alive :: "'c \<Rightarrow> bool"
    and receivers :: "'w \<Rightarrow> nat" and signalled sender_gone :: "'w \<Rightarrow> bool" +
  assumes code: "scatter_code env"
begin

lemma gatherer_state:
  assumes reach: "sys_reach env Gatherer actor_config_default root w"
  obtains t kids where "tasks w root = Some t" and "task_config t = actor_config_default"
    and "gatherer_inv root (local_history root (trace w)) kids (phase t)" and "kids_ok w root kids"
    and "1 \<le> rank (phase t) \<Longrightarrow> rank (phase t) \<le> 7 \<Longrightarrow> generation w root = 0"
proof -
  obtain t where t: "tasks w root = Some t" "task_actor t = Gatherer" "task_config t = actor_config_default"
    using root_task [OF reach] by blast
  obtain l kids st where b: "behaves env Gatherer actor_config_default root (local_history root (trace w)) l kids st
      (generation w root) (phase t)" and k: "kids_ok w root kids"
    using reach_lives [OF reach t(1)] t by metis
  show ?thesis
    using that [OF t(1,3) gatherer_behaves [OF b code] k] behaves_no_restart [OF b]
    by (simp add: actor_config_default_def)
qed

lemma workers:
  assumes reach: "sys_reach env Gatherer actor_config_default root w" and t: "tasks w a = Some t" and a: "a \<noteq> root"
  shows "task_actor t = Worker \<and> task_config t = actor_config_default \<and> (\<exists>n. parent_stop t = (ActorOwner root, n))"
proof -
  obtain tr kids where "tasks w root = Some tr" and g: "gatherer_inv root (local_history root (trace w)) kids (phase tr)"
    and k: "kids_ok w root kids"
    by (rule gatherer_state [OF reach])
  have "\<forall>c t n. tasks w c = Some t \<and> parent_stop t = (ActorOwner root, n) \<longrightarrow>
      task_actor t = Worker \<and> task_config t = actor_config_default"
    using kids_ok_kid [OF k] g by (fastforce simp: gatherer_inv_def tells_shards_def)
  moreover have "parent_stop tc \<noteq> (ActorOwner b, n)"
    if b: "tasks w b = Some tb" "task_actor tb = Worker" "task_config tb = actor_config_default" and c: "tasks w c = Some tc" for b tb c tc n
  proof
    assume p: "parent_stop tc = (ActorOwner b, n)"
    obtain l kids st where beh: "behaves env Worker actor_config_default b (local_history b (trace w)) l kids st
        (generation w b) (phase tb)" and k: "kids_ok w b kids"
      using reach_lives [OF reach b(1)] b(2,3) by metis
    have "kids = []" using worker_behaves [OF beh code] by (simp add: worker_inv_def)
    with kids_ok_kid [OF k c p] show False by simp
  qed
  ultimately show ?thesis by (intro two_levels [OF reach _ _ t a]) blast+
qed

lemma worker_state:
  assumes reach: "sys_reach env Gatherer actor_config_default root w" and t: "tasks w a = Some t" and a: "a \<noteq> root"
  obtains l st where "worker_inv a (local_history a (trace w)) l [] st (phase t)"
    and "\<forall>x m. (x, m) \<in> set l \<longrightarrow> DeadLetter x \<in> set (trace w)" and "st \<longrightarrow> 0 < generation w root"
proof -
  note wk = workers [OF reach t a]
  obtain l kids st where b: "behaves env Worker actor_config_default a (local_history a (trace w)) l kids st
      (generation w a) (phase t)" and l: "\<And>x m. (x, m) \<in> set l \<Longrightarrow> DeadLetter x \<in> set (trace w)"
    and st: "st \<Longrightarrow> abandoned w (parent_stop t)"
    using reach_lives [OF reach t] wk by metis
  from worker_behaves [OF b code] have inv: "worker_inv a (local_history a (trace w)) l kids st (phase t)" .
  then have "kids = []" by (simp add: worker_inv_def)
  with inv l st wk show ?thesis by (intro that [of l st]) (auto simp: abandoned_def)
qed

text \<open>
  The cast of a system that was left alone, seen from its trace: the workers with their shards, in
  the order they were spawned.
\<close>

lemma shard_delivered:
  assumes reach: "sys_reach env Gatherer actor_config_default root w" and alone: "undisturbed (trace w)"
    and t: "tasks w root = Some t" and g: "gatherer_inv root (local_history root (trace w)) kids (phase t)"
    and d: "Delivered a (Message (ToWorker c)) \<in> set (trace w)"
  shows "\<exists>j < length kids. a = fst (rev kids ! j) \<and> c = \<lparr>shard = SHARDS ! j, compute_reply_to = root\<rparr>"
proof -
  obtain x where x: "Enqueued x a (Message (ToWorker c)) \<in> set (trace w)" using delivered_sent [OF reach d] by blast
  with alone obtain b where b: "x = Some b" by (cases x) (auto simp: undisturbed_iff)
  have "b = root"
  proof (rule ccontr)
    assume "b \<noteq> root"
    obtain tb where tb: "tasks w b = Some tb" using sender_task [OF reach x, of b] b by auto
    obtain l st where "worker_inv b (local_history b (trace w)) l [] st (phase tb)"
      by (rule worker_state [OF reach tb \<open>b \<noteq> root\<close>])
    moreover have "Enqueued (Some b) a (Message (ToWorker c)) \<in> set (local_history b (trace w))"
      using x b by (simp add: local_history_def)
    ultimately show False using worker_history by (fastforce simp: worker_ran_def)
  qed
  then have "Enqueued (Some root) a (Message (ToWorker c)) \<in> set (local_history root (trace w))"
    using x b by (simp add: local_history_def)
  moreover have "tells_shards root (local_history root (trace w)) kids" using g by (simp add: gatherer_inv_def)
  ultimately obtain j where "j < length kids" "a = fst (rev kids ! j)"
      "Message (ToWorker c) = Message (ToWorker \<lparr>shard = SHARDS ! j, compute_reply_to = root\<rparr>)"
    unfolding tells_shards_def by blast
  then show ?thesis by blast
qed

lemma worker_sent:
  assumes reach: "sys_reach env Gatherer actor_config_default root w" and alone: "undisturbed (trace w)"
    and t: "tasks w root = Some t" and g: "gatherer_inv root (local_history root (trace w)) kids (phase t)"
    and sent: "Enqueued (Some a) x i \<in> set (trace w)" and a: "a \<noteq> root"
  shows "x = root \<and> (\<exists>j < length kids. a = fst (rev kids ! j) \<and> i = Message (ToGatherer (Partial (PARTIALS ! j))) \<and>
    sent_to root (local_history a (trace w)) = [(Some a, i)])"
proof -
  obtain ta where ta: "tasks w a = Some ta" using sender_task [OF reach sent, of a] by auto
  obtain l st where inv: "worker_inv a (local_history a (trace w)) l [] st (phase ta)"
    by (rule worker_state [OF reach ta a])
  have h: "Enqueued (Some a) x i \<in> set (local_history a (trace w))" using sent by (simp add: local_history_def)
  then have "worker_ran a (local_history a (trace w)) l"
    using worker_history [OF inv] by auto
  with h obtain c v where v: "shard_sum (shard c) = Some v" and hist: "local_history a (trace w) =
      [Enqueued (Some a) (compute_reply_to c) (Message (ToGatherer (Partial v))), Delivered a (Message (ToWorker c)), InitCalled a]"
    by (auto simp: worker_ran_def)
  then have "Delivered a (Message (ToWorker c)) \<in> set (local_history a (trace w))" by simp
  then have "Delivered a (Message (ToWorker c)) \<in> set (trace w)" by (simp add: local_history_def)
  from shard_delivered [OF reach alone t g this] obtain j where j: "j < length kids" "a = fst (rev kids ! j)"
    "c = \<lparr>shard = SHARDS ! j, compute_reply_to = root\<rparr>" by blast
  moreover have "v = PARTIALS ! j"
    using v j shard_sum_nth [of j] g by (simp add: gatherer_inv_def tells_shards_def)
  ultimately show ?thesis using h hist by auto
qed

lemma worker_not_broke:
  assumes reach: "sys_reach env Gatherer actor_config_default root w" and alone: "undisturbed (trace w)"
    and t: "tasks w root = Some t" and g: "gatherer_inv root (local_history root (trace w)) kids (phase t)"
    and a: "a \<noteq> root"
  shows "\<not> worker_broke a (local_history a (trace w))"
proof
  assume "worker_broke a (local_history a (trace w))"
  then obtain i where hist: "local_history a (trace w) = [Delivered a i, InitCalled a]"
    and i: "\<And>c. i = Message (ToWorker c) \<Longrightarrow> shard_sum (shard c) = None"
    by (auto simp: worker_broke_def)
  then have "Delivered a i \<in> set (local_history a (trace w))" by simp
  then have d: "Delivered a i \<in> set (trace w)" by (simp add: local_history_def)
  show False
  proof (cases i rule: to_worker.cases)
    case (1 c)
    with shard_delivered [OF reach alone t g] d obtain j where "j < length kids" "shard c = SHARDS ! j" by force
    then show False
      using i [OF 1] shard_sum_nth [of j] g by (simp add: gatherer_inv_def tells_shards_def)
  next
    case (2 p)
    obtain x where x: "Enqueued x a i \<in> set (trace w)" using delivered_sent [OF reach d] by blast
    with alone 2 obtain b where b: "x = Some b" by (cases x) (auto simp: undisturbed_iff)
    show False
    proof (cases "b = root")
      case True
      then have "Enqueued (Some root) a i \<in> set (local_history root (trace w))" using x b by (simp add: local_history_def)
      with g 2 show False by (fastforce simp: gatherer_inv_def tells_shards_def)
    qed (use worker_sent [OF reach alone t g, of b a i] x b a in blast)
  next
    case (3 b)
    have "signals_watched (local_history a (trace w))"
      using signals_watched_local sys_reach_watching [OF reach] by (auto simp: watching_inv_def)
    with hist 3 show False by simp
  qed
qed

lemma terminated_worker_sent:
  assumes reach: "sys_reach env Gatherer actor_config_default root w" and alone: "undisturbed (trace w)"
    and t: "tasks w root = Some t" "rank (phase t) = 1" and g: "gatherer_inv root (local_history root (trace w)) kids (phase t)"
    and a: "a \<noteq> root" "signal_sent a (trace w)"
  shows "\<exists>x i. Enqueued (Some a) x i \<in> set (trace w)"
proof -
  obtain ta where ta: "tasks w a = Some ta" "12 \<le> rank (phase ta)"
    using sys_reach_signal [OF reach] a(2) by (auto simp: signal_inv_def)
  have gen: "generation w root = 0" and cfg: "task_config t = actor_config_default"
    using t by (auto intro: gatherer_state [OF reach])
  obtain l st where inv: "worker_inv a (local_history a (trace w)) l [] st (phase ta)"
    and l: "\<forall>x m. (x, m) \<in> set l \<longrightarrow> DeadLetter x \<in> set (trace w)" and "st \<longrightarrow> 0 < generation w root"
    by (rule worker_state [OF reach ta(1) a(1)])
  with ta(2) gen worker_not_broke [OF reach alone t(1) g a(1)] have "worker_ran a (local_history a (trace w)) l"
    by (auto simp: worker_inv_def)
  then obtain c v where cv: "local_history a (trace w) =
        [Enqueued (Some a) (compute_reply_to c) (Message (ToGatherer (Partial v))), Delivered a (Message (ToWorker c)), InitCalled a] \<or>
      local_history a (trace w) = [Delivered a (Message (ToWorker c)), InitCalled a] \<and> l = [(compute_reply_to c, ToGatherer (Partial v))]"
    by (auto simp: worker_ran_def)
  then have "Delivered a (Message (ToWorker c)) \<in> set (local_history a (trace w))" by auto
  then have "Delivered a (Message (ToWorker c)) \<in> set (trace w)" by (simp add: local_history_def)
  from shard_delivered [OF reach alone t(1) g this] have "compute_reply_to c = root" by auto
  moreover have "DeadLetter root \<notin> set (trace w)"
    using sys_reach_loss [OF reach] t cfg by (auto simp: loss_inv_def actor_config_default_def)
  ultimately have "Enqueued (Some a) root (Message (ToGatherer (Partial v))) \<in> set (local_history a (trace w))"
    using cv l by auto
  then show ?thesis by (auto simp: local_history_def)
qed

lemma all_received:
  assumes reach: "sys_reach env Gatherer actor_config_default root w" and alone: "undisturbed (trace w)"
    and t: "tasks w root = Some t" "phase t = Receiving s up"
    and g: "gatherer_inv root (local_history root (trace w)) kids (phase t)" and k: "kids_ok w root kids"
    and q: "contents (item_chan (mailboxes w root)) = Terminated b # rest"
    and all: "set (map fst kids) \<subseteq> insert b (set (signals (delivered root (trace w))))"
  shows "filter is_message (delivered root (trace w)) = filter is_message (map snd (sent_to root (trace w)))"
proof -
  have sent: "map snd (sent_to root (trace w)) = taken root (trace w) @ Terminated b # rest"
    using queue_invD [OF sys_reach_queue [OF reach], of root] t(1) q by (simp add: sent_to_enqueued)
  obtain xs x ys where split: "sent_to root (trace w) = xs @ (x, Terminated b) # ys" "map snd xs = taken root (trace w)"
    "map snd ys = rest"
    using sent by (auto simp: map_eq_append_conv map_eq_Cons_conv)
  have silent: "silent_after (trace w)" using sys_reach_signal [OF reach] by (simp add: signal_inv_def)
  have "(y, i) \<notin> set ys" if i: "is_message i" for y i
  proof
    assume y: "(y, i) \<in> set ys"
    then have "Enqueued y root i \<in> set (trace w)" using split(1) by (simp add: sent_to_iff [symmetric])
    with alone i obtain a where a: "y = Some a" "Enqueued (Some a) root i \<in> set (trace w)"
      by (cases i; cases y) (auto simp: undisturbed_iff)
    have "a \<noteq> root"
    proof
      assume "a = root"
      with a(2) have "Enqueued (Some root) root i \<in> set (local_history root (trace w))" by (simp add: local_history_def)
      then obtain j where "j < length kids" "root = fst (rev kids ! j)"
        using g unfolding gatherer_inv_def tells_shards_def by blast
      then have "root \<in> fst ` set kids" by (metis length_rev nth_mem set_rev image_eqI)
      with root_no_kid [OF reach k] show False by blast
    qed
    with worker_sent [OF reach alone t(1) g a(2)] obtain j where "j < length kids" "a = fst (rev kids ! j)" by blast
    then have "a \<in> set (map fst kids)" by (metis length_rev nth_map nth_mem set_map set_rev image_eqI)
    with all consider "a = b" | "a \<in> set (signals (delivered root (trace w)))" by auto
    then show False
    proof cases
      case 1
      with silent_sent [OF silent split(1)] y a(1) show False by blast
    next
      case 2
      then have "Terminated a \<in> set (map snd xs)"
        unfolding signals_iff delivered_iff split(2) by (rule delivered_taken)
      then obtain x1 us vs where "xs = us @ (x1, Terminated a) # vs" by (auto simp: in_set_conv_decomp)
      then have "sent_to root (trace w) = us @ (x1, Terminated a) # (vs @ (x, Terminated b) # ys)" using split(1) by simp
      from silent_sent [OF silent this] y a(1) show False by auto
    qed
  qed
  then have "filter is_message rest = []" unfolding split(3) [symmetric] by (auto simp: filter_empty_conv)
  moreover have "filter is_message (taken root (trace w)) = filter is_message (delivered root (trace w))"
    using sys_reach_loss [OF reach] t by (intro taken_messages) (fastforce simp: loss_inv_def)
  ultimately show ?thesis using sent by simp
qed

lemma sum_sent:
  assumes reach: "sys_reach env Gatherer actor_config_default root w" and alone: "undisturbed (trace w)"
    and t: "tasks w root = Some t" and g: "gatherer_inv root (local_history root (trace w)) kids (phase t)"
    and k: "kids_ok w root kids"
  shows "sum_list (map (partial_value \<circ> snd) (sent_to root (trace w))) =
    (\<Sum>j < length kids. if \<exists>x i. Enqueued (Some (fst (rev kids ! j))) x i \<in> set (trace w) then unat (PARTIALS ! j) else 0)"
proof -
  let ?ids = "map fst (rev kids)" and ?f = "partial_value \<circ> snd" and ?L = "sent_to root (trace w)"
  have dist: "distinct ?ids" using k by (simp add: kids_ok_def rev_map [symmetric])
  have "fst p \<in> Some ` set ?ids" if p: "p \<in> set ?L" "?f p \<noteq> 0" for p
  proof -
    obtain y i where yi: "p = (y, i)" by (cases p)
    from p yi have e: "Enqueued y root i \<in> set (trace w)" and "is_message i" by (cases i; auto simp: sent_to_iff)+
    with alone obtain a where a: "y = Some a" by (cases i; cases y) (auto simp: undisturbed_iff)
    have "\<exists>j < length kids. a = fst (rev kids ! j)"
    proof (cases "a = root")
      case True
      then have "Enqueued (Some root) root i \<in> set (local_history root (trace w))" using e a by (simp add: local_history_def)
      with True g show ?thesis unfolding gatherer_inv_def tells_shards_def by blast
    qed (use worker_sent [OF reach alone t g, of a root i] e a in blast)
    then have "a \<in> fst ` set (rev kids)" by (metis image_eqI length_rev nth_mem)
    then show ?thesis using yi a by simp
  qed
  then have "sum_list (map ?f ?L) = (\<Sum>a\<in>Some ` set ?ids. sum_list (map ?f (filter (\<lambda>p. fst p = a) ?L)))"
    by (intro sum_by) auto
  also have "\<dots> = (\<Sum>a\<in>set ?ids. sum_list (map ?f (filter (\<lambda>p. fst p = Some a) ?L)))"
    by (subst sum.reindex) auto
  also have "\<dots> = (\<Sum>j < length kids. sum_list (map ?f (filter (\<lambda>p. fst p = Some (?ids ! j)) ?L)))"
    using dist by (subst sum.distinct_set_conv_list) (auto simp: interv_sum_list_conv_sum_set_nat sum_list_sum_nth atLeast0LessThan)
  also have "\<dots> = (\<Sum>j < length kids. if \<exists>x i. Enqueued (Some (fst (rev kids ! j))) x i \<in> set (trace w)
      then unat (PARTIALS ! j) else 0)"
  proof (rule sum.cong)
    fix j
    assume "j \<in> {..<length kids}"
    then have j: "j < length kids" by simp
    let ?a = "?ids ! j"
    have a: "?a = fst (rev kids ! j)" using j by simp
    have nr: "?a \<noteq> root" using root_no_kid [OF reach k] j by (metis a image_eqI length_rev nth_mem set_rev)
    show "sum_list (map ?f (filter (\<lambda>p. fst p = Some ?a) ?L)) =
        (if \<exists>x i. Enqueued (Some (fst (rev kids ! j))) x i \<in> set (trace w) then unat (PARTIALS ! j) else 0)"
    proof (cases "\<exists>x i. Enqueued (Some ?a) x i \<in> set (trace w)")
      case True
      then obtain x i where "Enqueued (Some ?a) x i \<in> set (trace w)" by blast
      from worker_sent [OF reach alone t g this nr] obtain j' where j': "j' < length kids" "?a = fst (rev kids ! j')"
        "i = Message (ToGatherer (Partial (PARTIALS ! j')))"
        "sent_to root (local_history ?a (trace w)) = [(Some ?a, i)]" by blast
      have "?ids ! j' = ?ids ! j" using j j'(1,2) by simp
      then have "j' = j" using nth_eq_iff_index_eq [OF dist, of j' j] j j'(1) by simp
      then show ?thesis using True j' a by (simp add: sent_by [of "fst (rev kids ! j)" root "trace w"])
    next
      case False
      then have "filter (\<lambda>p. fst p = Some ?a) ?L = []" by (auto simp: filter_empty_conv sent_to_iff)
      with False a show ?thesis by simp
    qed
  qed simp
  finally show ?thesis .
qed

lemma all_sent:
  assumes reach: "sys_reach env Gatherer actor_config_default root w" and alone: "undisturbed (trace w)"
    and t: "tasks w root = Some t" "rank (phase t) = 1"
    and g: "gatherer_inv root (local_history root (trace w)) kids (phase t)" and k: "kids_ok w root kids"
    and q: "contents (item_chan (mailboxes w root)) = Terminated b # rest"
    and all: "insert b (set (signals (delivered root (trace w)))) = set (map fst kids)" and j: "j < length kids"
  shows "\<exists>x i. Enqueued (Some (fst (rev kids ! j))) x i \<in> set (trace w)"
proof -
  let ?a = "fst (rev kids ! j)"
  have a: "?a \<in> set (map fst kids)" using j by (metis image_eqI length_rev nth_mem set_map set_rev)
  have "signal_sent ?a (trace w)" using signal_received [OF reach t(1) q] all a by simp
  moreover have "?a \<noteq> root" using a root_no_kid [OF reach k] by auto
  ultimately show ?thesis using terminated_worker_sent [OF reach alone t g] by simp
qed

lemma printed_total:
  assumes reach: "sys_reach env Gatherer actor_config_default root w" and alone: "undisturbed (trace w)"
    and t: "tasks w root = Some t" "phase t = Receiving s up"
    and polled: "next_incoming env root stopped w = Some (PolledIncoming i, w')"
    and line: "line \<in> set (fst (scatter_receive Gatherer i s))"
  shows "line = TotalIs 5050"
proof -
  obtain t0 kids where t0: "tasks w root = Some t0" and g0: "gatherer_inv root (local_history root (trace w)) kids (phase t0)"
    and k: "kids_ok w root kids" by (rule gatherer_state [OF reach])
  have g: "gatherer_inv root (local_history root (trace w)) kids (phase t)" using g0 t0 t by simp
  let ?d = "delivered root (trace w)" and ?L = "sent_to root (trace w)"
  have kids: "length kids = 4" using g t(2) by (auto simp: gatherer_inv_def SHARDS_def)
  obtain gs where s: "s = GathererState gs" "gathered ?d = Some gs"
    using g t(2) by (auto simp: gatherer_inv_def delivered_local)
  note vals = gathered_values [OF s(2)]
  from gatherer_prints line s(1) obtain b where b: "line = TotalIs (total gs)" "i = Terminated b" "unat (remaining gs) = 1"
    by blast
  obtain mb where mb: "mailbox_recv (env_flume env) (mailboxes w root) = Received (Terminated b) mb" and w: "b \<in> set (watched w root)"
    using polled_signal polled b(2) by blast
  have all: "insert b (set (signals ?d)) = set (map fst kids)"
    using g t(2) vals b(3) kids by (intro last_signal [OF reach t(1) _ _ k w]) (auto simp: gatherer_inv_def)
  have q: "contents (item_chan (mailboxes w root)) = Terminated b # contents (item_chan mb)" using mbx.recv_queue [OF mb] by simp
  have "unat (total gs) = sum_list (map partial_value (filter is_message ?d))" using vals by (simp add: messages_value)
  also have "\<dots> = sum_list (map (partial_value \<circ> snd) ?L)"
    using all_received [OF reach alone t g k q] all messages_value [of "map snd ?L"] by simp
  also have "\<dots> = (\<Sum>j < 4. unat (PARTIALS ! j))"
    using sum_sent [OF reach alone t(1) g k] all_sent [OF reach alone t(1) _ g k q all] t(2) kids by simp
  also have "\<dots> = 5050" by (rule partials_sum)
  finally have "total gs = 5050" by (simp add: word_unat_eq_iff)
  with b(1) show ?thesis by simp
qed

lemma delivered_value:
  assumes reach: "sys_reach env Gatherer actor_config_default root w" and alone: "undisturbed (trace w)"
    and t: "tasks w root = Some t" and g: "gatherer_inv root (local_history root (trace w)) kids (phase t)"
    and k: "kids_ok w root kids"
  shows "sum_list (map partial_value (delivered root (trace w))) \<le> 5050"
proof -
  have "sum_list (map partial_value (delivered root (trace w))) \<le> sum_list (map partial_value (taken root (trace w)))"
    by (rule delivered_sum_le)
  also have "\<dots> \<le> sum_list (map (partial_value \<circ> snd) (sent_to root (trace w)))"
    using queue_invD [OF sys_reach_queue [OF reach], of root] by (simp flip: sent_to_enqueued map_map)
  also have "\<dots> \<le> (\<Sum>j < length kids. unat (PARTIALS ! j))"
    unfolding sum_sent [OF reach alone t g k] by (rule sum_mono) simp
  also have "\<dots> \<le> (\<Sum>j < 4. unat (PARTIALS ! j))"
    using g by (intro sum_mono2) (auto simp: gatherer_inv_def tells_shards_def SHARDS_def)
  finally show ?thesis by (simp add: partials_sum)
qed

lemma never_fails:
  assumes reach: "sys_reach env Gatherer actor_config_default root w" and alone: "undisturbed (trace w)"
    and ta: "tasks w a = Some ta"
  shows "phase ta \<noteq> Failed up"
proof
  assume failed: "phase ta = Failed up"
  obtain t kids where t: "tasks w root = Some t" and g: "gatherer_inv root (local_history root (trace w)) kids (phase t)"
    and k: "kids_ok w root kids" by (rule gatherer_state [OF reach])
  show False
  proof (cases "a = root")
    case True
    then obtain i h' gs where h: "local_history root (trace w) = Delivered root i # h'" "gathered (delivered root h') = Some gs"
      and panic: "snd (scatter_receive Gatherer i (GathererState gs)) = Ret Panic"
      using g t ta failed unfolding gatherer_inv_def by auto
    note vals = gathered_values [OF h(2)]
    have "Delivered root i \<in> set (local_history root (trace w))" using h(1) by simp
    then have d: "Delivered root i \<in> set (trace w)" by (simp add: local_history_def)
    show False
    proof (cases i rule: to_gatherer.cases)
      case (1 p)
      obtain v where v: "p = Partial v" by (cases p)
      have "delivered root (trace w) = delivered root h' @ [i]" using delivered_local [of root "trace w"] h(1) by simp
      then have "unat (total gs) + unat v \<le> 5050"
        using delivered_value [OF reach alone t g k] vals 1 v by simp
      then show False using panic 1 v by (simp add: checked_add_def)
    next
      case (2 c)
      with shard_delivered [OF reach alone t g] d obtain j where "j < length kids" "root = fst (rev kids ! j)" by blast
      with root_no_kid [OF reach k] show False by (metis image_eqI length_rev nth_mem set_rev)
    next
      case (3 b)
      with panic have "checked_sub (remaining gs) 1 = None"
        by (cases "checked_sub (remaining gs) 1") (auto split: if_splits)
      with vals show False by (simp add: checked_sub_def word_le_nat_alt Suc_le_eq unat_gt_0 split: if_splits)
    qed
  next
    case False
    obtain l st where "worker_inv a (local_history a (trace w)) l [] st (phase ta)"
      by (rule worker_state [OF reach ta False])
    with failed worker_not_broke [OF reach alone t g False] show False by (simp add: worker_inv_def)
  qed
qed

end

section \<open>A run\<close>

definition scatter_env ::
  "(scatter_message incoming list_channel, watch_state, scatter_actor, scatter_message, scatter_state, infallible) env" where
  "scatter_env = list_env scatter_init (\<lambda>k me i s. snd (scatter_receive k i s))"

interpretation list_scatter: scatter_runtime scatter_env items rx_alive some_tx ws_receivers ws_sent ws_sender_gone
  unfolding scatter_env_def
proof (intro scatter_runtime.intro scatter_runtime_axioms.intro list_rt.actor_runtime_axioms)
  show "scatter_code (list_env scatter_init (\<lambda>k me i s. snd (scatter_receive k i s)))"
    by (simp add: scatter_code_def list_env_def)
qed

text \<open>
  The gatherer initializes; the workers run one after the other, the last one first; the gatherer
  takes all but the last signal from its mailbox. \<open>f\<close> is an ID no actor has.
\<close>

definition scatter_schedule ::
  "actor_id \<Rightarrow> actor_id \<Rightarrow> actor_id \<Rightarrow> actor_id \<Rightarrow> actor_id \<Rightarrow> actor_id \<Rightarrow> scatter_message action list" where
  "scatter_schedule r a b c d f =
     map (\<lambda>i. run_with i r) [f, a, f, f, b, f, f, c, f, f, d, f, f, f] @
     concat (map (\<lambda>i. map (\<lambda>j. run_with j i) [f, f, f, f, f, f, f, f, f, f, f, f, f, f, f, f]) [d, c, b, a]) @
     map (\<lambda>i. run_with i r) [f, f, f, f, f, f, f, f, f, f, f, f, f, f]"

lemma shard_sum_eval [simp]:
  "shard_sum (1, 26) = Some 325" "shard_sum (26, 51) = Some 950" "shard_sum (51, 76) = Some 1575" "shard_sum (76, 101) = Some 2200"
  using shard_sums by (simp_all add: SHARDS_def PARTIALS_def)

lemma scatter_run:
  assumes "distinct [r, a, b, c, d, f]"
  shows "\<exists>w t. sys_run scatter_env r (scatter_schedule r a b c d f) (spawn_root scatter_env Gatherer actor_config_default r) = Some w \<and>
    tasks w r = Some t \<and> phase t = Receiving (GathererState \<lparr>remaining = 1, total = 5050\<rparr>) 0 \<and> watched w r = [a] \<and>
    mailboxes w r = \<lparr>item_chan = \<lparr>items = [Terminated a], rx_alive = True, some_tx = True\<rparr>, chan_quota = QUnbounded, registry = Some []\<rparr> \<and>
    undisturbed (trace w)"
  using assms iffD2 [OF distinct_rev assms]
  by (simp add: scatter_schedule_def scatter_env_def run_simps gatherer_init_def SHARDS_def checked_add_def checked_sub_def undisturbed_def)

lemma scatter_reached:
  "\<exists>w t w'. sys_reach scatter_env Gatherer actor_config_default (ActorId 1) w \<and> undisturbed (trace w) \<and>
     tasks w (ActorId 1) = Some t \<and> phase t = Receiving (GathererState \<lparr>remaining = 1, total = 5050\<rparr>) 0 \<and>
     next_incoming scatter_env (ActorId 1) None w = Some (PolledIncoming (Terminated (ActorId 2)), w')"
proof -
  have "distinct [ActorId 1, ActorId 2, ActorId 3, ActorId 4, ActorId 5, ActorId 9]" by simp
  from scatter_run [OF this] obtain w t where run: "sys_run scatter_env (ActorId 1)
        (scatter_schedule (ActorId 1) (ActorId 2) (ActorId 3) (ActorId 4) (ActorId 5) (ActorId 9))
        (spawn_root scatter_env Gatherer actor_config_default (ActorId 1)) = Some w"
    and t: "tasks w (ActorId 1) = Some t" "phase t = Receiving (GathererState \<lparr>remaining = 1, total = 5050\<rparr>) 0"
    and q: "watched w (ActorId 1) = [ActorId 2]" "mailboxes w (ActorId 1) =
        \<lparr>item_chan = \<lparr>items = [Terminated (ActorId 2)], rx_alive = True, some_tx = True\<rparr>, chan_quota = QUnbounded, registry = Some []\<rparr>"
      "undisturbed (trace w)"
    by blast
  obtain w' where "next_incoming scatter_env (ActorId 1) None w = Some (PolledIncoming (Terminated (ActorId 2)), w')"
    using q by (simp add: scatter_env_def run_simps)
  with sys_run_reach [OF sys_reach.sys_start run] t q(3) show ?thesis by blast
qed

section \<open>Properties\<close>

text \<open>
  C20: the total the gatherer prints is the sum over all shards, in every interleaving: in a system
  that no outside code sends messages to, the line printed by whatever the gatherer receives next
  says 5050. Each worker's signal comes behind its partial result, which is neither lost nor
  received twice, and no worker is stopped early.
\<close>

theorem scatter_gather_total:
  assumes "actor_runtime env contents connected tx_alive receivers signalled sender_gone" and "scatter_code env"
    and "sys_reach env Gatherer actor_config_default root w" and "undisturbed (trace w)"
    and "tasks w root = Some t" and "phase t = Receiving s up"
    and "next_incoming env root stopped w = Some (PolledIncoming i, w')"
    and "line \<in> set (fst (scatter_receive Gatherer i s))"
  shows "line = TotalIs 5050"
  using scatter_runtime.printed_total [OF scatter_runtime.intro [OF assms(1) scatter_runtime_axioms.intro [OF assms(2)]] assms(3-8)] .

theorem scatter_gather_total_witness:
  "\<exists>w t s up w'. sys_reach scatter_env Gatherer actor_config_default (ActorId 1) w \<and> undisturbed (trace w) \<and>
     tasks w (ActorId 1) = Some t \<and> phase t = Receiving s up \<and>
     next_incoming scatter_env (ActorId 1) None w = Some (PolledIncoming (Terminated (ActorId 2)), w') \<and>
     fst (scatter_receive Gatherer (Terminated (ActorId 2)) s) = [TotalIs 5050]"
proof -
  from scatter_reached obtain w t w' where reach: "sys_reach scatter_env Gatherer actor_config_default (ActorId 1) w"
    and alone: "undisturbed (trace w)"
    and t: "tasks w (ActorId 1) = Some t" "phase t = Receiving (GathererState \<lparr>remaining = 1, total = 5050\<rparr>) 0"
    and polled: "next_incoming scatter_env (ActorId 1) None w = Some (PolledIncoming (Terminated (ActorId 2)), w')" by blast
  obtain line where line: "fst (scatter_receive Gatherer (Terminated (ActorId 2)) (GathererState \<lparr>remaining = 1, total = 5050\<rparr>)) = [line]"
    by (simp add: checked_sub_def)
  have "line = TotalIs 5050"
    by (rule scatter_gather_total [OF list_scatter.actor_runtime_axioms list_scatter.code reach alone t polled]) (simp only: line, simp)
  with reach alone t polled line show ?thesis by blast
qed

text \<open>
  nothing in the example fails: as long as no outside code interferes, neither the sums overflow
  nor the number of remaining workers underflows, and no handler reaches its \<^verbatim>\<open>unreachable!\<close>: no
  actor is ever handed to supervision.
\<close>

lemma scatter_never_fails:
  assumes "actor_runtime env contents connected tx_alive receivers signalled sender_gone" and "scatter_code env"
    and "sys_reach env Gatherer actor_config_default root w" and "undisturbed (trace w)" and "tasks w a = Some t"
  shows "phase t \<noteq> Failed up"
  using scatter_runtime.never_fails [OF scatter_runtime.intro [OF assms(1) scatter_runtime_axioms.intro [OF assms(2)]] assms(3-5)] .

end
