(* ===== verification/WorkPulling.thy ===== *)
theory WorkPulling
  imports Delivery "HOL-Library.Multiset"
begin

text \<open>
  \<^verbatim>\<open>tellus/examples/work_pulling.rs\<close>: the manager owns a queue of documents and hands one out for
  every request of a worker. Its comments claim that a mailbox of capacity one is enough for a
  worker and that no work is dropped; both are proved here for every interleaving. A \<^verbatim>\<open>ReplyTo\<close> is
  the worker it was made by, whose replies convert by \<^verbatim>\<open>identity\<close>.
\<close>

section \<open>The actors\<close>

datatype pull_actor = Manager | PullWorker (manager: actor_id)

datatype request_job = RequestJob actor_id

datatype next_job = Job string | Drained

datatype pull_message = ToManager request_job | ToPullWorker next_job

record managing =
  jobs :: "string list"
  workers :: usize

datatype pull_state = ManagingState managing | PullWorkerState

datatype pull_line = AllProcessed | WordsIn nat string

definition DOCUMENTS :: "string list" where
  "DOCUMENTS =
     [''the quick brown fox jumps over the lazy dog'', ''actors all the way down'', ''one message at a time'',
      ''backpressure by design'', ''workers pull instead of being pushed'',
      ''a terminated signal arrives behind all messages'']"

definition WORKERS :: nat where
  "WORKERS = 3"

definition pull_config :: actor_config where
  "pull_config = with_mailbox_capacity actor_config_default (Bounded 1)"

fun spawn_workers ::
  "nat \<Rightarrow> actor_id \<Rightarrow> (pull_actor, pull_message, 'r) prog \<Rightarrow> (pull_actor, pull_message, 'r) prog" where
  "spawn_workers 0 me p = p"
| "spawn_workers (Suc n) me p =
     Spawn (PullWorker me) pull_config (\<lambda>worker. Watch worker (spawn_workers n me p))"

definition manager_init :: "actor_id \<Rightarrow> (pull_actor, pull_message, (managing, infallible) call) prog" where
  "manager_init me = spawn_workers WORKERS me (Ret (Return \<lparr>jobs = DOCUMENTS, workers = of_nat WORKERS\<rparr>))"

text \<open>\<^verbatim>\<open>Vec::pop\<close>\<close>

definition vec_pop :: "'a list \<Rightarrow> ('a \<times> 'a list) option" where
  "vec_pop xs = (if xs = [] then None else Some (last xs, butlast xs))"

fun manager_receive ::
  "request_job incoming \<Rightarrow> managing
     \<Rightarrow> pull_line list \<times> (pull_actor, pull_message, (managing control, infallible) call) prog" where
  "manager_receive (Message (RequestJob r)) s =
     ([], case vec_pop (jobs s) of
            Some (document, left) \<Rightarrow>
              Tell r (ToPullWorker (Job document)) (Ret (Return (Continue (s\<lparr>jobs := left\<rparr>))))
          | None \<Rightarrow> Tell r (ToPullWorker Drained) (Ret (Return (Continue s))))"
| "manager_receive (Terminated _) s =
     (case checked_sub (workers s) 1 of
        Some left \<Rightarrow>
          (if 0 < left then ([], Ret (Return (Continue (s\<lparr>workers := left\<rparr>))))
           else ([AllProcessed], Ret (Return Stop)))
      | None \<Rightarrow> ([], Ret Panic))"

definition request :: "actor_id \<Rightarrow> actor_id \<Rightarrow> ('k, pull_message, 'r) prog \<Rightarrow> ('k, pull_message, 'r) prog" where
  "request mgr me p = Tell mgr (ToManager (RequestJob me)) p"

definition pull_worker_init :: "actor_id \<Rightarrow> actor_id \<Rightarrow> ('k, pull_message, (pull_state, infallible) call) prog" where
  "pull_worker_init mgr me = request mgr me (Ret (Return PullWorkerState))"

text \<open>\<^verbatim>\<open>split_whitespace().count()\<close> on ASCII text.\<close>

fun count_words :: "bool \<Rightarrow> string \<Rightarrow> nat" where
  "count_words inside [] = 0"
| "count_words inside (c # cs) =
     (if is_space c then count_words False cs
      else (if inside then 0 else 1) + count_words True cs)"

fun pull_worker_receive ::
  "actor_id \<Rightarrow> actor_id \<Rightarrow> next_job incoming
     \<Rightarrow> pull_line list \<times> ('k, pull_message, (pull_state control, infallible) call) prog" where
  "pull_worker_receive mgr me (Message (Job document)) =
     ([WordsIn (count_words False document) document], request mgr me (Ret (Return (Continue PullWorkerState))))"
| "pull_worker_receive mgr me (Message Drained) = ([], Ret (Return Stop))"
| "pull_worker_receive mgr me (Terminated _) = ([], Ret Panic)"

section \<open>The system\<close>

fun to_manager :: "pull_message incoming \<Rightarrow> request_job incoming option" where
  "to_manager (Message (ToManager r)) = Some (Message r)"
| "to_manager (Message (ToPullWorker _)) = None"
| "to_manager (Terminated i) = Some (Terminated i)"

fun to_pull_worker :: "pull_message incoming \<Rightarrow> next_job incoming option" where
  "to_pull_worker (Message (ToPullWorker n)) = Some (Message n)"
| "to_pull_worker (Message (ToManager _)) = None"
| "to_pull_worker (Terminated i) = Some (Terminated i)"

fun pull_init :: "pull_actor \<Rightarrow> actor_id \<Rightarrow> (pull_actor, pull_message, (pull_state, infallible) call) prog" where
  "pull_init Manager me = map_prog id id (map_call ManagingState id) (manager_init me)"
| "pull_init (PullWorker mgr) me = pull_worker_init mgr me"

fun pull_receive ::
  "pull_actor \<Rightarrow> actor_id \<Rightarrow> pull_message incoming \<Rightarrow> pull_state
     \<Rightarrow> pull_line list \<times> (pull_actor, pull_message, (pull_state control, infallible) call) prog" where
  "pull_receive Manager me i (ManagingState s) =
     (case to_manager i of
        Some j \<Rightarrow> (case manager_receive j s of (out, p) \<Rightarrow> (out, map_prog id id (map_call (map_control ManagingState) id) p))
      | None \<Rightarrow> ([], Ret Panic))"
| "pull_receive (PullWorker mgr) me i PullWorkerState =
     (case to_pull_worker i of Some j \<Rightarrow> pull_worker_receive mgr me j | None \<Rightarrow> ([], Ret Panic))"
| "pull_receive _ _ _ _ = ([], Ret Panic)"

definition pull_code :: "('c, 'w, pull_actor, pull_message, pull_state, infallible) env \<Rightarrow> bool" where
  "pull_code env \<longleftrightarrow> init_code env = pull_init \<and> receive_code env = (\<lambda>k me i s. snd (pull_receive k me i s))"

section \<open>A worker by itself\<close>

fun is_job :: "pull_message incoming \<Rightarrow> bool" where
  "is_job (Message (ToPullWorker (Job _))) = True"
| "is_job _ = False"

text \<open>
  A worker has sent at most one request more than it was given jobs. While it handles a job, the
  request for it is still to come.
\<close>

definition pw_inv ::
  "actor_id \<Rightarrow> actor_id \<Rightarrow> pull_message event list \<Rightarrow> pull_actor kid list \<Rightarrow> bool
     \<Rightarrow> (pull_actor, pull_message, pull_state, infallible) phase \<Rightarrow> bool" where
  "pw_inv mgr me h kids st ph \<longleftrightarrow> kids = [] \<and>
     (\<forall>p \<in> set (sends me h). p = (mgr, Message (ToManager (RequestJob me)))) \<and> watches me h = [] \<and>
     (let n = length (sends me h); ds = delivered me h; js = length (filter is_job ds) in
      n \<le> Suc js \<and>
      (ph = Starting \<longrightarrow> h = []) \<and>
      (\<forall>p. ph = Initializing p \<longrightarrow> ds = [] \<and> (p = pull_worker_init mgr me \<and> n = 0 \<or> p = Ret (Return PullWorkerState))) \<and>
      (\<forall>s up. ph = Receiving s up \<longrightarrow> s = PullWorkerState) \<and>
      (\<forall>up p. ph = Handling up p \<longrightarrow>
         (\<exists>es i. ds = es @ [i] \<and>
            (p = snd (pull_receive (PullWorker mgr) me i PullWorkerState) \<and> (is_job i \<longrightarrow> n \<le> js) \<or>
             is_job i \<and> p = Ret (Return (Continue PullWorkerState))))) \<and>
      (\<forall>up. ph = Failed up \<longrightarrow> (\<exists>i \<in> set ds. \<not> is_job i \<and> i \<noteq> Message (ToPullWorker Drained))) \<and>
      (\<forall>d k. ph \<noteq> RestartStopping d k) \<and> (\<forall>d. ph \<noteq> BackingOff d) \<and>
      (2 \<le> rank ph \<longrightarrow> st \<or> Message (ToPullWorker Drained) \<in> set ds \<or>
         (\<exists>i \<in> set ds. \<not> is_job i \<and> i \<noteq> Message (ToPullWorker Drained))))"

lemma is_job_message: "is_job i \<Longrightarrow> is_message i"
  by (cases i) simp_all

lemma pw_code:
  "is_job i \<and> snd (pull_receive (PullWorker mgr) me i PullWorkerState) =
      request mgr me (Ret (Return (Continue PullWorkerState))) \<or>
   i = Message (ToPullWorker Drained) \<and> snd (pull_receive (PullWorker mgr) me i PullWorkerState) = Ret (Return Stop) \<or>
   \<not> is_job i \<and> i \<noteq> Message (ToPullWorker Drained) \<and> snd (pull_receive (PullWorker mgr) me i PullWorkerState) = Ret Panic"
  by (cases i rule: is_job.cases) auto

lemma pw_handling:
  "pw_inv mgr me h kids st (Handling up p) \<Longrightarrow>
     \<exists>ds i. delivered me h = ds @ [i] \<and>
       (p = snd (pull_receive (PullWorker mgr) me i PullWorkerState) \<and>
          (is_job i \<longrightarrow> length (sends me h) \<le> length (filter is_job (delivered me h))) \<or>
        is_job i \<and> p = Ret (Return (Continue PullWorkerState)))"
  unfolding pw_inv_def Let_def by blast

lemma pw_returned:
  assumes "pw_inv mgr me h kids st (Handling up (Ret r))"
  shows "r = Return (Continue PullWorkerState) \<or> r = Return Stop \<and> Message (ToPullWorker Drained) \<in> set (delivered me h) \<or>
    r = Panic \<and> (\<exists>i \<in> set (delivered me h). \<not> is_job i \<and> i \<noteq> Message (ToPullWorker Drained))"
proof -
  from pw_handling [OF assms] obtain ds i where d: "delivered me h = ds @ [i]"
    "Ret r = snd (pull_receive (PullWorker mgr) me i PullWorkerState) \<or> r = Return (Continue PullWorkerState)" by blast
  with pw_code [of i mgr me] show ?thesis by (auto simp: request_def simp del: pull_receive.simps)
qed

lemma pw_behaves:
  assumes "behaves env (PullWorker mgr) pull_config me h l kids st g ph" and code: "pull_code env"
  shows "pw_inv mgr me h kids st ph"
  using assms(1)
proof (induction rule: behaves.induct)
  case (initializing h l kids st g p es ls ks p')
  have calls: "calls me p es ls ks p'" by (rule initializing)
  then have "\<not> (\<exists>r. p = Ret r)" by (auto elim: calls.cases)
  with initializing.IH have p: "p = pull_worker_init mgr me" and "sends me h = []" "delivered me h = []"
    by (auto simp: pw_inv_def Let_def)
  from calls show ?case
    by (cases rule: calls.cases) (use initializing.IH p in \<open>auto simp: pw_inv_def Let_def pull_worker_init_def request_def\<close>)
next
  case (handling h l kids st g up p es ls ks p')
  have calls: "calls me p es ls ks p'" by (rule handling)
  then have "\<not> (\<exists>r. p = Ret r)" by (auto elim: calls.cases)
  with pw_handling [OF handling.IH] obtain ds i where d: "delivered me h = ds @ [i]"
    "p = snd (pull_receive (PullWorker mgr) me i PullWorkerState)"
    "is_job i \<longrightarrow> length (sends me h) \<le> length (filter is_job (delivered me h))"
    by blast
  with \<open>\<not> (\<exists>r. p = Ret r)\<close> pw_code [of i mgr me] have i: "is_job i" "p = request mgr me (Ret (Return (Continue PullWorkerState)))"
    by auto
  from handling.IH have "kids = []" "watches me h = []" "\<forall>p \<in> set (sends me h). p = (mgr, Message (ToManager (RequestJob me)))"
    by (simp_all add: pw_inv_def Let_def)
  with calls i d show ?case
    by (auto simp: pw_inv_def Let_def request_def simp del: pull_receive.simps elim!: calls.cases)
next
  case (init_ok h l kids st g r s now)
  then show ?case by (auto simp: pw_inv_def Let_def pull_worker_init_def request_def)
next
  case (init_failed h l kids st g r)
  then show ?case by (auto simp: pw_inv_def Let_def pull_worker_init_def request_def)
next
  case (receiving h l kids st g s up i)
  then show ?case using code by (auto simp: pw_inv_def Let_def pull_code_def)
next
  case (continues h l kids st g up r s)
  with pw_returned [OF continues.IH] have "s = PullWorkerState" by auto
  with continues.IH show ?case by (simp add: pw_inv_def Let_def)
next
  case (stops_itself h l kids st g up r)
  with pw_returned [OF stops_itself.IH] have "Message (ToPullWorker Drained) \<in> set (delivered me h)" by auto
  with stops_itself.IH show ?case by (simp add: pw_inv_def Let_def)
next
  case (fails h l kids st g up r)
  with pw_returned [OF fails.IH] have "\<exists>i \<in> set (delivered me h). \<not> is_job i \<and> i \<noteq> Message (ToPullWorker Drained)" by auto
  with fails.IH show ?case by (simp add: pw_inv_def Let_def)
next
  case (restarting h l kids st g up d)
  then show ?case by (simp add: pull_config_def with_mailbox_capacity_def actor_config_default_def)
next
  case (restarted h l kids st g d)
  then show ?case by (simp add: pw_inv_def Let_def)
next
  case (interrupted h l kids st g d)
  then show ?case by (simp add: pw_inv_def Let_def)
next
  case (closing h l kids st g p q g')
  with rank_late [of q] show ?case by (simp add: pw_inv_def Let_def)
qed (use code in \<open>auto simp: pw_inv_def Let_def pull_code_def\<close>)

section \<open>The manager by itself\<close>

definition requests :: "actor_id \<Rightarrow> pull_message incoming list \<Rightarrow> nat" where
  "requests a is = length (filter (\<lambda>i. i = Message (ToManager (RequestJob a))) is)"

definition sent_count :: "actor_id \<Rightarrow> (actor_id \<times> 'b) list \<Rightarrow> nat" where
  "sent_count a ps = length (filter (\<lambda>p. fst p = a) ps)"

text \<open>The documents handed out so far and those left, and the workers told that there are none.\<close>

definition handed :: "string list \<Rightarrow> pull_message incoming list \<Rightarrow> bool" where
  "handed js is \<longleftrightarrow>
     (\<exists>out k. DOCUMENTS = js @ out \<and> (0 < k \<longrightarrow> js = []) \<and>
        is = map (\<lambda>d. Message (ToPullWorker (Job d))) (rev out) @ replicate k (Message (ToPullWorker Drained)))"

text \<open>The state \<open>m\<close> after \<open>ds\<close> were handled: each worker was replied to at most once per request.\<close>

definition managed ::
  "actor_id \<Rightarrow> pull_message event list \<Rightarrow> (actor_id \<times> pull_message) list \<Rightarrow> pull_message incoming list \<Rightarrow> managing \<Rightarrow> bool" where
  "managed me h l ds m \<longleftrightarrow>
     (\<forall>a. sent_count a (sends me h) + sent_count a l \<le> requests a ds) \<and>
     unat (workers m) + length (signals ds) = WORKERS \<and> workers m \<noteq> 0 \<and>
     (l = [] \<longrightarrow> handed (jobs m) (map snd (sends me h)))"

definition manager_spawning ::
  "actor_id \<Rightarrow> pull_message event list \<Rightarrow> pull_actor kid list \<Rightarrow> (pull_actor, pull_message, (pull_state, infallible) call) prog \<Rightarrow> bool" where
  "manager_spawning me h kids p \<longleftrightarrow> length kids \<le> WORKERS \<and>
     (let rest = spawn_workers (WORKERS - length kids) me (Ret (Return (ManagingState \<lparr>jobs = DOCUMENTS, workers = 3\<rparr>)))
      in watches me h = map fst kids \<and> p = rest \<or>
         kids \<noteq> [] \<and> watches me h = map fst (tl kids) \<and> p = Watch (fst (hd kids)) rest)"

definition mg_inv ::
  "actor_id \<Rightarrow> pull_message event list \<Rightarrow> (actor_id \<times> pull_message) list \<Rightarrow> pull_actor kid list
     \<Rightarrow> (pull_actor, pull_message, pull_state, infallible) phase \<Rightarrow> bool" where
  "mg_inv me h l kids ph \<longleftrightarrow>
     (\<forall>(c, k, cfg) \<in> set kids. k = PullWorker me \<and> cfg = pull_config) \<and>
     (\<forall>(x, i) \<in> set (sends me h). \<exists>n. i = Message (ToPullWorker n)) \<and>
     (\<forall>a. sent_count a (sends me h) + sent_count a l \<le> requests a (delivered me h)) \<and>
     (ph = Starting \<longrightarrow> h = [] \<and> l = [] \<and> kids = []) \<and>
     (\<forall>p. ph = Initializing p \<longrightarrow> delivered me h = [] \<and> l = [] \<and> sends me h = [] \<and> manager_spawning me h kids p) \<and>
     (rank ph = 1 \<and> (\<forall>p. ph \<noteq> Initializing p) \<longrightarrow> length kids = WORKERS \<and> watches me h = map fst kids) \<and>
     (\<forall>s up. ph = Receiving s up \<longrightarrow> (\<exists>m. s = ManagingState m \<and> managed me h l (delivered me h) m)) \<and>
     (\<forall>up p. ph = Handling up p \<longrightarrow>
        (\<exists>ds i m. delivered me h = ds @ [i] \<and> managed me h l ds m \<and> p = snd (pull_receive Manager me i (ManagingState m))) \<or>
        (\<exists>m. managed me h l (delivered me h) m \<and> p = Ret (Return (Continue (ManagingState m)))))"

lemma map_spawn_workers: "map_prog id id f (spawn_workers n me p) = spawn_workers n me (map_prog id id f p)"
  by (induction n) (simp_all add: comp_def)

lemma pull_init_manager:
  "pull_init Manager me = spawn_workers WORKERS me (Ret (Return (ManagingState \<lparr>jobs = DOCUMENTS, workers = 3\<rparr>)))"
  by (simp add: manager_init_def map_spawn_workers WORKERS_def)

lemma mg_code_request:
  "\<exists>n m'. snd (pull_receive Manager me (Message (ToManager (RequestJob a))) (ManagingState m)) =
       Tell a (ToPullWorker n) (Ret (Return (Continue (ManagingState m')))) \<and> workers m' = workers m \<and>
     (n = Drained \<and> jobs m = [] \<and> m' = m \<or> (\<exists>d. n = Job d \<and> jobs m = jobs m' @ [d]))"
  by (cases "jobs m = []") (auto simp: vec_pop_def)

lemma mg_told:
  assumes "Tell a n p = snd (pull_receive Manager me i (ManagingState m))"
  shows "i = Message (ToManager (RequestJob a))"
proof (cases i rule: to_manager.cases)
  case (1 r)
  obtain b where "r = RequestJob b" by (cases r)
  with 1 assms mg_code_request [of me b m] show ?thesis by (auto simp del: pull_receive.simps)
next
  case (3 b)
  with assms show ?thesis by (simp split: option.splits if_splits)
qed (use assms in simp)

lemma handed_next:
  assumes "handed js is" and "n = Drained \<and> js = [] \<and> js' = js \<or> (\<exists>d. n = Job d \<and> js = js' @ [d])"
  shows "handed js' (is @ [Message (ToPullWorker n)])"
proof -
  from assms(1) obtain out k where out: "DOCUMENTS = js @ out" "0 < k \<longrightarrow> js = []"
    "is = map (\<lambda>d. Message (ToPullWorker (Job d))) (rev out) @ replicate k (Message (ToPullWorker Drained))"
    unfolding handed_def by blast
  from assms(2) show ?thesis
  proof (elim disjE exE conjE)
    assume "n = Drained" "js = []" "js' = js"
    with out show ?thesis unfolding handed_def
      by (intro exI [of _ out] exI [of _ "Suc k"]) (simp add: replicate_append_same)
  next
    fix d
    assume "n = Job d" "js = js' @ [d]"
    with out show ?thesis unfolding handed_def by (intro exI [of _ "d # out"] exI [of _ 0]) auto
  qed
qed

lemma managed_request:
  assumes "managed me h l ds m" and "workers m' = workers m"
    and "n = Drained \<and> jobs m = [] \<and> m' = m \<or> (\<exists>d. n = Job d \<and> jobs m = jobs m' @ [d])"
    and call: "calls me (Tell a (ToPullWorker n) p) es ls ks p'"
  shows "managed me (es @ h) (ls @ l) (ds @ [Message (ToManager (RequestJob a))]) m' \<and> p' = p \<and> ks = [] \<and>
    watches me (es @ h) = watches me h \<and> delivered me (es @ h) = delivered me h \<and>
    (\<forall>q \<in> set (sends me (es @ h)). q \<in> set (sends me h) \<or> q = (a, Message (ToPullWorker n)))"
proof -
  have handed: "handed (jobs m) is \<Longrightarrow> handed (jobs m') (is @ [Message (ToPullWorker n)])" for "is"
    using handed_next [of "jobs m" "is" n "jobs m'"] assms(3) by auto
  from call show ?thesis
    by (cases rule: calls.cases)
       (use assms(1,2) handed in \<open>auto simp: managed_def sent_count_def requests_def\<close>)
qed

lemma mg_handling:
  "mg_inv me h l kids (Handling up p) \<Longrightarrow>
     (\<exists>ds i m. delivered me h = ds @ [i] \<and> managed me h l ds m \<and> p = snd (pull_receive Manager me i (ManagingState m))) \<or>
     (\<exists>m. managed me h l (delivered me h) m \<and> p = Ret (Return (Continue (ManagingState m))))"
  unfolding mg_inv_def by blast

lemma managed_signal:
  assumes "managed me h l ds m" and "checked_sub (workers m) 1 = Some k" and "0 < k"
  shows "managed me h l (ds @ [Terminated b]) (m\<lparr>workers := k\<rparr>)"
  using assms checked_sub_unat [OF assms(2)] by (auto simp: managed_def requests_def word_gt_0)

lemma mg_returned:
  assumes "mg_inv me h l kids (Handling up (Ret (Return (Continue s))))"
  shows "\<exists>m. s = ManagingState m \<and> managed me h l (delivered me h) m"
proof -
  from mg_handling [OF assms] consider ds i m where "delivered me h = ds @ [i]" "managed me h l ds m"
      "Ret (Return (Continue s)) = snd (pull_receive Manager me i (ManagingState m))"
    | m where "managed me h l (delivered me h) m" "s = ManagingState m" by auto
  then show ?thesis
  proof cases
    case (1 ds i m)
    show ?thesis
    proof (cases i rule: to_manager.cases)
      case (1 r)
      then show ?thesis using mg_code_request [of me _ m] \<open>Ret _ = _\<close> by (cases r) (metis prog.distinct(1))
    next
      case (2 n)
      with 1 show ?thesis by simp
    next
      case (3 b)
      with 1 obtain k where "checked_sub (workers m) 1 = Some k" "0 < k" "s = ManagingState (m\<lparr>workers := k\<rparr>)"
        by (cases "checked_sub (workers m) 1") (auto split: if_splits)
      with 1 3 managed_signal show ?thesis by fastforce
    qed
  qed blast
qed

lemma mg_call:
  assumes inv: "mg_inv me h l kids (Handling up p)" and call: "calls me p es ls ks p'"
  shows "mg_inv me (es @ h) (ls @ l) (ks @ kids) (Handling up p')"
proof -
  have "\<not> (\<exists>r. p = Ret r)" using call by (auto elim: calls.cases)
  with mg_handling [OF inv] obtain ds i m where d: "delivered me h = ds @ [i]" "managed me h l ds m"
    "p = snd (pull_receive Manager me i (ManagingState m))" by blast
  with \<open>\<not> (\<exists>r. p = Ret r)\<close> obtain a where i: "i = Message (ToManager (RequestJob a))"
    by (cases i rule: to_manager.cases) (auto split: option.splits if_splits prod.splits intro: request_job.exhaust)
  obtain n m' where p: "p = Tell a (ToPullWorker n) (Ret (Return (Continue (ManagingState m'))))" "workers m' = workers m"
    "n = Drained \<and> jobs m = [] \<and> m' = m \<or> (\<exists>d. n = Job d \<and> jobs m = jobs m' @ [d])"
    using mg_code_request [of me a m] d(3) i by auto
  note now = managed_request [OF d(2) p(2,3) call [unfolded p(1)]]
  have "\<forall>a. sent_count a (sends me (es @ h)) + sent_count a (ls @ l) \<le> requests a (delivered me (es @ h))"
    using now d(1) i by (simp add: managed_def)
  with now inv show ?thesis unfolding mg_inv_def d(1) i by fastforce
qed

lemma manager_spawning_call:
  assumes sp: "manager_spawning me h kids p" and call: "calls me p es ls ks p'"
  shows "manager_spawning me (es @ h) (ks @ kids) p' \<and> ls = [] \<and> delivered me (es @ h) = delivered me h \<and>
    sends me (es @ h) = sends me h \<and> (\<forall>(c, k, cfg) \<in> set ks. k = PullWorker me \<and> cfg = pull_config)"
proof -
  let ?ret = "Ret (Return (ManagingState \<lparr>jobs = DOCUMENTS, workers = 3\<rparr>))"
  let ?rest = "spawn_workers (WORKERS - length kids) me ?ret"
  from sp consider (spawn) "watches me h = map fst kids" "p = ?rest"
    | (watch) "kids \<noteq> []" "watches me h = map fst (tl kids)" "p = Watch (fst (hd kids)) ?rest"
    unfolding manager_spawning_def Let_def by blast
  then show ?thesis
  proof cases
    case spawn
    show ?thesis
    proof (cases "WORKERS - length kids")
      case 0
      with spawn call show ?thesis by (auto elim: calls.cases)
    next
      case (Suc n)
      then have n: "WORKERS - Suc (length kids) = n" by simp
      from spawn call Suc obtain c where "es = []" "ls = []" "ks = [(c, PullWorker me, pull_config)]" "p' = Watch c (spawn_workers n me ?ret)"
        by (auto elim: calls.cases)
      with spawn Suc n show ?thesis by (auto simp: manager_spawning_def Let_def)
    qed
  next
    case watch
    with call have "p' = ?rest" "ks = []" "ls = []" "es = [Watched me (fst (hd kids))]" by (auto elim: calls.cases)
    with watch sp show ?thesis by (cases kids) (auto simp: manager_spawning_def Let_def)
  qed
qed

lemma manager_spawned:
  assumes "manager_spawning me h kids (Ret r)"
  shows "length kids = WORKERS \<and> watches me h = map fst kids \<and> r = Return (ManagingState \<lparr>jobs = DOCUMENTS, workers = 3\<rparr>)"
  using assms by (cases "WORKERS - length kids") (auto simp: manager_spawning_def Let_def)

lemma mg_behaves:
  assumes "behaves env Manager actor_config_default me h l kids st g ph" and code: "pull_code env"
  shows "mg_inv me h l kids ph"
  using assms(1)
proof (induction rule: behaves.induct)
  case started
  have "init_code env Manager me = spawn_workers WORKERS me (Ret (Return (ManagingState \<lparr>jobs = DOCUMENTS, workers = 3\<rparr>)))"
    using code pull_init_manager by (simp add: pull_code_def del: pull_init.simps)
  then show ?case by (simp add: mg_inv_def manager_spawning_def Let_def sent_count_def)
next
  case (initializing h l kids st g p es ls ks p')
  with manager_spawning_call [of me h kids p es ls ks p'] show ?case by (auto simp: mg_inv_def)
next
  case (handling h l kids st g up p es ls ks p')
  then show ?case by (intro mg_call)
next
  case (init_ok h l kids st g r s now)
  then have "manager_spawning me h kids (Ret r)" "delivered me h = []" "l = []" "sends me h = []" by (simp_all add: mg_inv_def)
  with manager_spawned init_ok show ?case
    by (fastforce simp: mg_inv_def managed_def handed_def WORKERS_def sent_count_def)
next
  case (init_failed h l kids st g r)
  then have "manager_spawning me h kids (Ret r)" by (simp add: mg_inv_def)
  with manager_spawned init_failed(2) show ?case by fastforce
next
  case (receiving h l kids st g s up i)
  then obtain m where "s = ManagingState m" "managed me h l (delivered me h) m" by (auto simp: mg_inv_def)
  moreover have "requests a (delivered me h) \<le> requests a (delivered me (Delivered me i # h))" for a
    by (simp add: requests_def)
  moreover have "managed me (Delivered me i # h) l ds m = managed me h l ds m" for ds m by (simp add: managed_def)
  ultimately show ?case using receiving.IH code unfolding mg_inv_def
    by (auto simp: pull_code_def intro: le_trans simp del: pull_receive.simps)
next
  case (continues h l kids st g up r s)
  then have "r = Return (Continue s)" by (simp add: catch_and_log_Some)
  with mg_returned [of me h l kids up s] continues.IH obtain m where "s = ManagingState m" "managed me h l (delivered me h) m" by blast
  with continues.IH show ?case by (simp add: mg_inv_def)
next
  case (restarting h l kids st g up d)
  then show ?case by (simp add: actor_config_default_def)
next
  case (restarted h l kids st g d)
  with behaves_no_restart [OF restarted.hyps] show ?case by (simp add: actor_config_default_def)
next
  case (interrupted h l kids st g d)
  with behaves_no_restart [OF interrupted.hyps] show ?case by (simp add: actor_config_default_def)
next
  case (closing h l kids st g p q g')
  with rank_late [of q] show ?case by (simp add: mg_inv_def)
qed (auto simp: mg_inv_def sent_count_def)

section \<open>Together\<close>

lemma sent_by_count: "length (filter (\<lambda>p. fst p = Some b) (sent_to a es)) = sent_count a (sends b es)"
  by (induction a es rule: sent_to.induct) (auto simp: sent_count_def)

lemma requests_taken: "requests a (delivered b es) \<le> requests a (taken b es)"
  by (induction b es rule: taken.induct) (auto simp: requests_def)

lemma messages_taken: "length (filter is_message (delivered b es)) \<le> length (filter is_message (taken b es))"
  by (induction b es rule: taken.induct) auto

lemma messages_delivered: "mset (filter is_message (delivered b es)) \<subseteq># mset (filter is_message (taken b es))"
  by (induction b es rule: taken.induct) (auto intro: subset_mset.order_trans)

fun deliveries :: "'m event list \<Rightarrow> (actor_id \<times> 'm incoming) list" where
  "deliveries [] = []"
| "deliveries (Delivered a i # es) = deliveries es @ [(a, i)]"
| "deliveries (_ # es) = deliveries es"

text \<open>What the workers of the manager \<open>mgr\<close> have printed in a history.\<close>

definition worker_lines :: "actor_id \<Rightarrow> pull_message event list \<Rightarrow> pull_line list" where
  "worker_lines mgr es =
     concat (map (\<lambda>(a, i). fst (pull_receive (PullWorker mgr) a i PullWorkerState)) (filter (\<lambda>p. fst p \<noteq> mgr) (deliveries es)))"

lemma deliveries_to: "map snd (filter (\<lambda>p. fst p = a) (deliveries es)) = delivered a es"
  by (induction es rule: deliveries.induct) auto

lemma filter_other: "filter (\<lambda>p. fst p = a) (filter (\<lambda>p. fst p \<noteq> b) ps) = (if a = b then [] else filter (\<lambda>p. fst p = a) ps)"
  by (induction ps) auto

lemma count_pairs: "count (mset ps) (a, i) = count (mset (map snd (filter (\<lambda>p. fst p = a) ps))) i"
  by (induction ps) auto

lemma mset_concat_map: "mset xs = mset ys \<Longrightarrow> mset (concat (map f xs)) = mset (concat (map f ys))"
  by (metis mset_concat mset_map sum_mset_sum_list)

lemma handed_drained: "handed js is \<Longrightarrow> Message (ToPullWorker Drained) \<in> set is \<Longrightarrow> js = []"
  by (auto simp: handed_def)

lemma handed_lines:
  assumes "handed [] (map snd ps)"
  shows "mset (concat (map (\<lambda>(a, i). fst (pull_receive (PullWorker mgr) a i PullWorkerState)) ps)) =
    mset (map (\<lambda>d. WordsIn (count_words False d) d) DOCUMENTS)"
proof -
  let ?lines = "\<lambda>i. fst (pull_receive (PullWorker mgr) mgr i PullWorkerState)"
  have each: "(case p of (a, i) \<Rightarrow> fst (pull_receive (PullWorker mgr) a i PullWorkerState)) = ?lines (snd p)" for p
    by (cases p; cases "snd p" rule: is_job.cases) simp_all
  have eq: "map (\<lambda>(a, i). fst (pull_receive (PullWorker mgr) a i PullWorkerState)) ps = map ?lines (map snd ps)"
    by (induction ps) (simp_all only: list.map each)
  obtain k where "map snd ps =
      map (\<lambda>d. Message (ToPullWorker (Job d))) (rev DOCUMENTS) @ replicate k (Message (ToPullWorker Drained))"
    using assms by (auto simp: handed_def)
  moreover have "concat (map ?lines (replicate k (Message (ToPullWorker Drained)))) = []" by simp
  moreover have "concat (map ?lines (map (\<lambda>d. Message (ToPullWorker (Job d))) ds)) = map (\<lambda>d. WordsIn (count_words False d) d) ds" for ds
    by (induction ds) simp_all
  ultimately have "concat (map (\<lambda>(a, i). fst (pull_receive (PullWorker mgr) a i PullWorkerState)) ps) =
      map (\<lambda>d. WordsIn (count_words False d) d) (rev DOCUMENTS)"
    by (simp only: eq map_append concat_append append_Nil2)
  then show ?thesis by simp
qed

locale pull_runtime =
  actor_runtime env contents connected tx_alive receivers signalled sender_gone
  for env :: "('c, 'w, pull_actor, pull_message, pull_state, infallible) env"
    and contents :: "'c \<Rightarrow> pull_message incoming list" and connected tx_alive :: "'c \<Rightarrow> bool"
    and receivers :: "'w \<Rightarrow> nat" and signalled sender_gone :: "'w \<Rightarrow> bool" +
  assumes code: "pull_code env"
begin

lemma manager_state:
  assumes reach: "sys_reach env Manager actor_config_default root w"
  obtains t l kids where "tasks w root = Some t" and "mg_inv root (local_history root (trace w)) l kids (phase t)"
    and "kids_ok w root kids" and "1 \<le> rank (phase t) \<and> rank (phase t) \<le> 7 \<longrightarrow> generation w root = 0"
proof -
  obtain t where t: "tasks w root = Some t" "task_actor t = Manager" "task_config t = actor_config_default"
    using root_task [OF reach] by blast
  obtain l kids st where b: "behaves env Manager actor_config_default root (local_history root (trace w)) l kids st
      (generation w root) (phase t)" and k: "kids_ok w root kids"
    using reach_lives [OF reach t(1)] t by metis
  show ?thesis
    using that [OF t(1) mg_behaves [OF b code] k] behaves_no_restart [OF b]
    by (simp add: actor_config_default_def)
qed

lemma pull_workers:
  assumes reach: "sys_reach env Manager actor_config_default root w" and t: "tasks w a = Some t" and a: "a \<noteq> root"
  shows "task_actor t = PullWorker root \<and> task_config t = pull_config \<and> (\<exists>n. parent_stop t = (ActorOwner root, n))"
proof -
  obtain tr l kids where "tasks w root = Some tr" and g: "mg_inv root (local_history root (trace w)) l kids (phase tr)"
    and k: "kids_ok w root kids"
    by (rule manager_state [OF reach])
  have "\<forall>c t n. tasks w c = Some t \<and> parent_stop t = (ActorOwner root, n) \<longrightarrow>
      task_actor t = PullWorker root \<and> task_config t = pull_config"
    using kids_ok_kid [OF k] g by (fastforce simp: mg_inv_def)
  moreover have "parent_stop tc \<noteq> (ActorOwner b, n)"
    if b: "tasks w b = Some tb" "task_actor tb = PullWorker root" "task_config tb = pull_config" and c: "tasks w c = Some tc" for b tb c tc n
  proof
    assume p: "parent_stop tc = (ActorOwner b, n)"
    obtain l kids st where beh: "behaves env (PullWorker root) pull_config b (local_history b (trace w)) l kids st
        (generation w b) (phase tb)" and k: "kids_ok w b kids"
      using reach_lives [OF reach b(1)] b(2,3) by metis
    have "kids = []" using pw_behaves [OF beh code] by (simp add: pw_inv_def)
    with kids_ok_kid [OF k c p] show False by simp
  qed
  ultimately show ?thesis by (intro two_levels [OF reach _ _ t a]) blast+
qed

lemma pw_state:
  assumes reach: "sys_reach env Manager actor_config_default root w" and t: "tasks w a = Some t" and a: "a \<noteq> root"
  obtains st where "pw_inv root a (local_history a (trace w)) [] st (phase t)" and "st \<longrightarrow> 0 < generation w root"
proof -
  note wk = pull_workers [OF reach t a]
  obtain l kids st where b: "behaves env (PullWorker root) pull_config a (local_history a (trace w)) l kids st
      (generation w a) (phase t)" and st: "st \<Longrightarrow> abandoned w (parent_stop t)"
    using reach_lives [OF reach t] wk by metis
  from pw_behaves [OF b code] have inv: "pw_inv root a (local_history a (trace w)) kids st (phase t)" .
  then have "kids = []" by (simp add: pw_inv_def)
  with inv st wk show ?thesis by (intro that [of st]) (auto simp: abandoned_def)
qed

lemma pull_sent:
  assumes reach: "sys_reach env Manager actor_config_default root w" and sent: "Enqueued (Some a) x i \<in> set (trace w)"
  shows "if a = root then \<exists>n. i = Message (ToPullWorker n) else x = root \<and> i = Message (ToManager (RequestJob a))"
proof -
  have h: "(x, i) \<in> set (sends a (local_history a (trace w)))" using sent by (simp add: sends_local sends_iff)
  show ?thesis
  proof (cases "a = root")
    case True
    obtain t l kids where "tasks w root = Some t" "mg_inv root (local_history root (trace w)) l kids (phase t)"
      by (rule manager_state [OF reach])
    with True h show ?thesis by (fastforce simp: mg_inv_def)
  next
    case False
    obtain t where t: "tasks w a = Some t" using sender_task [OF reach sent, of a] by auto
    obtain st where "pw_inv root a (local_history a (trace w)) [] st (phase t)" by (rule pw_state [OF reach t False])
    with False h show ?thesis by (fastforce simp: pw_inv_def)
  qed
qed

text \<open>All messages in a worker's mailbox are from the manager, all requests in the manager's are from who they name.\<close>

lemma worker_mailbox:
  assumes reach: "sys_reach env Manager actor_config_default root w" and alone: "undisturbed (trace w)" and a: "a \<noteq> root"
  shows "filter is_message (enqueued a (trace w)) = map snd (filter (\<lambda>p. fst p = a) (sends root (trace w)))"
  by (intro mailbox_from [OF alone]) (use a sender_message [OF reach] in \<open>auto dest: pull_sent [OF reach] split: if_splits\<close>)

lemma manager_mailbox:
  assumes reach: "sys_reach env Manager actor_config_default root w" and alone: "undisturbed (trace w)"
  shows "requests a (enqueued root (trace w)) \<le> length (sends a (trace w)) \<and> (a = root \<longrightarrow> requests a (enqueued root (trace w)) = 0)"
proof -
  have who: "x = Some a \<and> a \<noteq> root" if "(x, Message (ToManager (RequestJob a))) \<in> set (sent_to root (trace w))" for x
  proof -
    have e: "Enqueued x root (Message (ToManager (RequestJob a))) \<in> set (trace w)" using that by (simp add: sent_to_iff)
    then obtain b where b: "x = Some b" using alone by (cases x) (auto simp: undisturbed_iff)
    with pull_sent [OF reach, of b root "Message (ToManager (RequestJob a))"] e show ?thesis by (auto split: if_splits)
  qed
  let ?L = "sent_to root (trace w)"
  have "requests a (enqueued root (trace w)) = length (filter (\<lambda>p. snd p = Message (ToManager (RequestJob a))) ?L)"
    by (simp add: requests_def filter_map comp_def flip: sent_to_enqueued)
  moreover have "filter (\<lambda>p. snd p = Message (ToManager (RequestJob a))) ?L =
      filter (\<lambda>p. snd p = Message (ToManager (RequestJob a))) (filter (\<lambda>p. fst p = Some a) ?L)"
    using who by (auto simp: filter_filter intro!: filter_cong)
  then have "length (filter (\<lambda>p. snd p = Message (ToManager (RequestJob a))) ?L) \<le> length (filter (\<lambda>p. fst p = Some a) ?L)"
    by (metis length_filter_le)
  moreover have "length (filter (\<lambda>p. fst p = Some a) ?L) \<le> length (sends a (trace w))"
    by (simp add: sent_by_count sent_count_def)
  moreover have "filter (\<lambda>p. snd p = Message (ToManager (RequestJob a))) ?L = []" if "a = root"
    using who that by (auto simp: filter_empty_conv)
  ultimately show ?thesis by auto
qed

lemma requests_enqueued:
  assumes reach: "sys_reach env Manager actor_config_default root w"
  shows "requests a (delivered root (trace w)) \<le> requests a (enqueued root (trace w))"
proof -
  have "requests a (delivered root (trace w)) \<le> requests a (taken root (trace w))" by (rule requests_taken)
  also have "\<dots> \<le> requests a (enqueued root (trace w))"
    using queue_invD [OF sys_reach_queue [OF reach], of root] by (simp add: requests_def)
  finally show ?thesis .
qed

lemma worker_delivered:
  assumes reach: "sys_reach env Manager actor_config_default root w" and alone: "undisturbed (trace w)"
    and t: "tasks w a = Some t" and a: "a \<noteq> root" and i: "i \<in> set (delivered a (trace w))"
  shows "is_job i \<or> i = Message (ToPullWorker Drained)"
proof (cases i rule: to_pull_worker.cases)
  case (1 n)
  then show ?thesis by (cases n) auto
next
  case (2 r)
  obtain x where x: "Enqueued x a i \<in> set (trace w)" using delivered_sent [OF reach] i by (auto simp: delivered_iff)
  with alone 2 obtain b where "x = Some b" by (cases x) (auto simp: undisturbed_iff)
  with pull_sent [OF reach, of b a i] x a 2 show ?thesis by (auto split: if_splits)
next
  case (3 b)
  obtain st where "pw_inv root a (local_history a (trace w)) [] st (phase t)" by (rule pw_state [OF reach t a])
  then have "watches a (local_history a (trace w)) = []" by (simp add: pw_inv_def)
  with no_signals [OF reach this] i 3 show ?thesis by blast
qed

text \<open>
  The balance of a worker: replies were sent for its requests, it has sent at most one request more
  than it has received jobs, and what it has received was sent.
\<close>

lemma worker_balance:
  assumes reach: "sys_reach env Manager actor_config_default root w" and alone: "undisturbed (trace w)"
    and t: "tasks w a = Some t" and a: "a \<noteq> root"
  shows "requests a (delivered root (trace w)) \<le> Suc (length (filter is_job (delivered a (trace w))))"
    and "length (delivered a (trace w)) \<le> length (filter is_message (taken a (trace w)))"
    and "length (filter is_message (taken a (trace w))) + length (filter is_message (contents (item_chan (mailboxes w a)))) =
      sent_count a (sends root (trace w))"
proof -
  obtain st where pw: "pw_inv root a (local_history a (trace w)) [] st (phase t)" by (rule pw_state [OF reach t a])
  have "requests a (delivered root (trace w)) \<le> requests a (enqueued root (trace w))" by (rule requests_enqueued [OF reach])
  also have "\<dots> \<le> length (sends a (trace w))" using manager_mailbox [OF reach alone] by blast
  also have "\<dots> \<le> Suc (length (filter is_job (delivered a (trace w))))"
    using pw by (simp add: pw_inv_def Let_def sends_local delivered_local)
  finally show "requests a (delivered root (trace w)) \<le> Suc (length (filter is_job (delivered a (trace w))))" .
  have "\<forall>i \<in> set (delivered a (trace w)). is_message i"
    using worker_delivered [OF reach alone t a] is_job_message by fastforce
  then have "filter is_message (delivered a (trace w)) = delivered a (trace w)" by simp
  then show "length (delivered a (trace w)) \<le> length (filter is_message (taken a (trace w)))"
    using messages_taken [of a "trace w"] by simp
  have "length (filter is_message (enqueued a (trace w))) =
      length (filter is_message (taken a (trace w))) + length (filter is_message (contents (item_chan (mailboxes w a))))"
    using queue_invD [OF sys_reach_queue [OF reach], of a] t by simp
  then show "length (filter is_message (taken a (trace w))) + length (filter is_message (contents (item_chan (mailboxes w a)))) =
      sent_count a (sends root (trace w))"
    using worker_mailbox [OF reach alone a] by (simp add: sent_count_def)
qed

lemma jobs_drained:
  assumes reach: "sys_reach env Manager actor_config_default root w" and alone: "undisturbed (trace w)"
    and t: "tasks w a = Some t" and a: "a \<noteq> root"
  shows "length (filter is_job (delivered a (trace w))) +
    length (filter (\<lambda>i. i = Message (ToPullWorker Drained)) (delivered a (trace w))) = length (delivered a (trace w))"
proof -
  have "filter (\<lambda>i. i = Message (ToPullWorker Drained)) (delivered a (trace w)) = filter (\<lambda>i. \<not> is_job i) (delivered a (trace w))"
    using worker_delivered [OF reach alone t a] by (intro filter_cong) auto
  then show ?thesis by (simp add: sum_length_filter_compl)
qed

lemma reply_fits:
  assumes reach: "sys_reach env Manager actor_config_default root w" and alone: "undisturbed (trace w)"
    and t: "tasks w root = Some t" "phase t = Handling up (Tell a m p)"
  shows "fst (try_send_message (env_flume env) m (mailboxes w a)) = Ok ()"
proof -
  obtain t0 l kids where "tasks w root = Some t0" "mg_inv root (local_history root (trace w)) l kids (phase t0)"
    and gen: "1 \<le> rank (phase t0) \<and> rank (phase t0) \<le> 7 \<longrightarrow> generation w root = 0" by (rule manager_state [OF reach])
  with t have "mg_inv root (local_history root (trace w)) l kids (Handling up (Tell a m p))" and gen0: "generation w root = 0" by auto
  from mg_handling [OF this(1)] obtain ds i ms where d: "delivered root (local_history root (trace w)) = ds @ [i]"
    "managed root (local_history root (trace w)) l ds ms" "Tell a m p = snd (pull_receive Manager root i (ManagingState ms))" by blast
  have i: "i = Message (ToManager (RequestJob a))" using mg_told [OF d(3)] by blast
  have more: "Suc (sent_count a (sends root (trace w))) \<le> requests a (delivered root (trace w))"
    using d(1,2) i by (auto simp: managed_def requests_def delivered_local sends_local dest: spec [of _ a])
  then have "0 < requests a (enqueued root (trace w))" using requests_enqueued [OF reach, of a] by simp
  with manager_mailbox [OF reach alone, of a] have a: "a \<noteq> root" and "sends a (trace w) \<noteq> []" by auto
  then obtain x j where "Enqueued (Some a) x j \<in> set (trace w)" by (metis list.set_intros(1) neq_Nil_conv sends_iff surj_pair)
  then obtain ta where ta: "tasks w a = Some ta" using sender_task [OF reach] by fastforce
  note bal = worker_balance [OF reach alone ta a]
  have le: "length (filter is_job (delivered a (trace w))) \<le> length (delivered a (trace w))" by simp
  have "length (filter is_message (contents (item_chan (mailboxes w a)))) = 0" using bal more le by linarith
  then have empty: "filter is_message (contents (item_chan (mailboxes w a))) = []" by simp
  have "length (filter (\<lambda>i. i = Message (ToPullWorker Drained)) (delivered a (trace w))) = 0"
    using bal more jobs_drained [OF reach alone ta a] by linarith
  then have none: "Message (ToPullWorker Drained) \<notin> set (delivered a (trace w))" by (auto simp: filter_empty_conv)
  obtain st where pw: "pw_inv root a (local_history a (trace w)) [] st (phase ta)" "st \<longrightarrow> 0 < generation w root"
    by (rule pw_state [OF reach ta a])
  have "rank (phase ta) \<le> 1"
  proof (rule ccontr)
    assume "\<not> rank (phase ta) \<le> 1"
    with pw gen0 none worker_delivered [OF reach alone ta a] show False
      by (auto simp: pw_inv_def Let_def delivered_local)
  qed
  moreover have "config_capacity (task_config ta) = Bounded 1"
    using pull_workers [OF reach ta a] by (simp add: pull_config_def with_mailbox_capacity_def)
  ultimately show ?thesis using empty by (intro sends_accepted [OF reach ta]) auto
qed

text \<open>A worker that was told that there is nothing left has received all that was sent to it.\<close>

lemma worker_finished:
  assumes reach: "sys_reach env Manager actor_config_default root w" and alone: "undisturbed (trace w)"
    and t: "tasks w a = Some t" and a: "a \<noteq> root" and d: "Message (ToPullWorker Drained) \<in> set (delivered a (trace w))"
    and answered: "sent_count a (sends root (trace w)) + lost \<le> requests a (delivered root (trace w))"
  shows "lost = 0" and "mset (delivered a (trace w)) = mset (map snd (filter (\<lambda>p. fst p = a) (sends root (trace w))))"
proof -
  note bal = worker_balance [OF reach alone t a]
  have "filter (\<lambda>i. i = Message (ToPullWorker Drained)) (delivered a (trace w)) \<noteq> []"
    using d by (auto simp: filter_empty_conv)
  then have some: "1 \<le> length (filter (\<lambda>i. i = Message (ToPullWorker Drained)) (delivered a (trace w)))"
    by (simp add: Suc_le_eq del: filter_empty_conv)
  show "lost = 0" using bal some answered jobs_drained [OF reach alone t a] by linarith
  have len: "length (delivered a (trace w)) = length (filter is_message (taken a (trace w)))"
    and "length (filter is_message (contents (item_chan (mailboxes w a)))) = 0"
    using bal some answered jobs_drained [OF reach alone t a] by linarith+
  then have "filter is_message (taken a (trace w)) = filter is_message (enqueued a (trace w))"
    using queue_invD [OF sys_reach_queue [OF reach], of a] t by simp
  then have all: "filter is_message (taken a (trace w)) = map snd (filter (\<lambda>p. fst p = a) (sends root (trace w)))"
    using worker_mailbox [OF reach alone a] by simp
  have "\<forall>i \<in> set (delivered a (trace w)). is_message i"
    using worker_delivered [OF reach alone t a] is_job_message by fastforce
  then have "filter is_message (delivered a (trace w)) = delivered a (trace w)" by simp
  then have "mset (delivered a (trace w)) \<subseteq># mset (filter is_message (taken a (trace w)))"
    using messages_delivered [of a "trace w"] by simp
  with len have "mset (delivered a (trace w)) = mset (filter is_message (taken a (trace w)))"
    by (metis mset_subset_size nat_less_le size_mset subset_mset.le_less)
  then show "mset (delivered a (trace w)) = mset (map snd (filter (\<lambda>p. fst p = a) (sends root (trace w))))"
    using all by simp
qed

lemma worker_drained:
  assumes reach: "sys_reach env Manager actor_config_default root w" and alone: "undisturbed (trace w)"
    and gen: "generation w root = 0" and a: "a \<noteq> root" and s: "signal_sent a (trace w)"
  shows "\<exists>t. tasks w a = Some t \<and> Message (ToPullWorker Drained) \<in> set (delivered a (trace w))"
proof -
  obtain t where t: "tasks w a = Some t" "12 \<le> rank (phase t)"
    using sys_reach_signal [OF reach] s by (auto simp: signal_inv_def)
  obtain st where "pw_inv root a (local_history a (trace w)) [] st (phase t)" "st \<longrightarrow> 0 < generation w root"
    by (rule pw_state [OF reach t(1) a])
  then have "Message (ToPullWorker Drained) \<in> set (delivered a (trace w)) \<or>
      (\<exists>i \<in> set (delivered a (trace w)). \<not> is_job i \<and> i \<noteq> Message (ToPullWorker Drained))"
    using t(2) gen by (auto simp: pw_inv_def Let_def delivered_local)
  with worker_delivered [OF reach alone t(1) a] t(1) show ?thesis by blast
qed

lemma mg_prints:
  assumes "line \<in> set (fst (pull_receive Manager root i (ManagingState m)))"
  obtains b where "line = AllProcessed" and "i = Terminated b" and "unat (workers m) = 1"
proof (cases i rule: to_manager.cases)
  case (1 r)
  with assms show ?thesis by (cases r) simp
next
  case (3 b)
  with assms obtain k where k: "checked_sub (workers m) 1 = Some k" "\<not> 0 < k" "line = AllProcessed"
    by (cases "checked_sub (workers m) 1") (auto split: if_splits)
  with checked_sub_unat [OF k(1)] 3 show ?thesis by (intro that [of b]) (auto simp: word_gt_0)
qed (use assms in simp)

text \<open>What was sent by the manager is what was received by the workers, once each worker has settled.\<close>

lemma deliveries_sent:
  assumes reach: "sys_reach env Manager actor_config_default root w" and alone: "undisturbed (trace w)" and k: "kids_ok w root kids"
    and settled: "\<forall>a \<in> fst ` set kids. mset (delivered a (trace w)) = mset (map snd (filter (\<lambda>p. fst p = a) (sends root (trace w))))"
    and others: "\<forall>a. a \<notin> fst ` set kids \<longrightarrow> sent_count a (sends root (trace w)) = 0"
    and kids: "\<forall>a t. tasks w a = Some t \<and> a \<noteq> root \<longrightarrow> a \<in> fst ` set kids"
  shows "mset (filter (\<lambda>p. fst p \<noteq> root) (deliveries (trace w))) = mset (sends root (trace w))"
proof (rule multiset_eqI)
  fix p :: "actor_id \<times> pull_message incoming"
  obtain a i where p: "p = (a, i)" by (cases p)
  let ?D = "filter (\<lambda>p. fst p \<noteq> root) (deliveries (trace w))"
  have to: "map snd (filter (\<lambda>p. fst p = a) ?D) = (if a = root then [] else delivered a (trace w))"
    unfolding filter_other using deliveries_to [of a "trace w"] by simp
  show "count (mset ?D) p = count (mset (sends root (trace w))) p"
  proof (cases "a \<in> fst ` set kids")
    case True
    then have "a \<noteq> root" using root_no_kid [OF reach k] by blast
    then show ?thesis unfolding p count_pairs to using bspec [OF settled True] by simp
  next
    case False
    then have "filter (\<lambda>p. fst p = a) (sends root (trace w)) = []" using others by (simp add: sent_count_def)
    moreover have "delivered a (trace w) = []" if "a \<noteq> root"
    proof (rule ccontr)
      assume "delivered a (trace w) \<noteq> []"
      then obtain j where "Delivered a j \<in> set (trace w)" by (metis delivered_iff list.set_intros(1) neq_Nil_conv)
      with sender_task [OF reach, of _ a] kids False that show False by fastforce
    qed
    ultimately show ?thesis unfolding p count_pairs to by simp
  qed
qed

lemma all_processed:
  assumes reach: "sys_reach env Manager actor_config_default root w" and alone: "undisturbed (trace w)"
    and t: "tasks w root = Some t" "phase t = Receiving s up"
    and polled: "next_incoming env root stopped w = Some (PolledIncoming i, w')"
    and line: "AllProcessed \<in> set (fst (pull_receive Manager root i s))"
  shows "mset (worker_lines root (trace w)) = mset (map (\<lambda>d. WordsIn (count_words False d) d) DOCUMENTS)"
proof -
  obtain t0 l kids where "tasks w root = Some t0" "mg_inv root (local_history root (trace w)) l kids (phase t0)"
    and k: "kids_ok w root kids" and "1 \<le> rank (phase t0) \<and> rank (phase t0) \<le> 7 \<longrightarrow> generation w root = 0"
    by (rule manager_state [OF reach])
  with t have inv: "mg_inv root (local_history root (trace w)) l kids (Receiving s up)" and gen: "generation w root = 0" by auto
  let ?d = "delivered root (trace w)" and ?S = "sends root (trace w)"
  from inv have kids: "length kids = WORKERS" "watches root (local_history root (trace w)) = map fst kids"
    and answered: "\<forall>a. sent_count a ?S + sent_count a l \<le> requests a ?d"
    and "\<exists>m. s = ManagingState m \<and> managed root (local_history root (trace w)) l ?d m"
    by (simp_all add: mg_inv_def delivered_local sends_local)
  then obtain m where m: "s = ManagingState m" "managed root (local_history root (trace w)) l ?d m" by blast
  obtain b where b: "i = Terminated b" "unat (workers m) = 1" using mg_prints line m(1) by metis
  obtain mb where mb: "mailbox_recv (env_flume env) (mailboxes w root) = Received (Terminated b) mb" and w: "b \<in> set (watched w root)"
    using polled_signal polled b(1) by blast
  have q: "contents (item_chan (mailboxes w root)) = Terminated b # contents (item_chan mb)" using mbx.recv_queue [OF mb] by simp
  have "insert b (set (signals ?d)) = set (map fst kids)"
    using m(2) b(2) kids t(2) by (intro last_signal [OF reach t(1) _ _ k w]) (auto simp: managed_def)
  then have ended: "\<exists>t. tasks w a = Some t \<and> Message (ToPullWorker Drained) \<in> set (delivered a (trace w))"
    if "a \<in> fst ` set kids" for a
    using signal_received [OF reach t(1) q, of a] worker_drained [OF reach alone gen, of a] root_no_kid [OF reach k] that by auto
  have worker: "a \<in> fst ` set kids" if "tasks w a = Some ta" "a \<noteq> root" for a ta
    using kids_ok_kid [OF k that(1)] pull_workers [OF reach that] by force
  have settled: "sent_count a l = 0 \<and> mset (delivered a (trace w)) = mset (map snd (filter (\<lambda>p. fst p = a) ?S))"
    if a: "a \<in> fst ` set kids" for a
  proof -
    have "a \<noteq> root" using a root_no_kid [OF reach k] by blast
    with ended [OF a] worker_finished [OF reach alone, of a _ "sent_count a l"] answered show ?thesis by blast
  qed
  have asked: "a \<in> fst ` set kids" if "0 < requests a ?d" for a
  proof -
    have "sends a (trace w) \<noteq> []" and "a \<noteq> root"
      using that requests_enqueued [OF reach, of a] manager_mailbox [OF reach alone, of a] by auto
    then obtain x j where "Enqueued (Some a) x j \<in> set (trace w)" by (metis list.set_intros(1) neq_Nil_conv sends_iff surj_pair)
    then obtain ta where "tasks w a = Some ta" using sender_task [OF reach] by fastforce
    with worker \<open>a \<noteq> root\<close> show ?thesis by blast
  qed
  have "l = []"
  proof (rule ccontr)
    assume "l \<noteq> []"
    then obtain x n where "(x, n) \<in> set l" by (cases l) auto
    then have "filter (\<lambda>p. fst p = x) l \<noteq> []" by (force simp: filter_empty_conv)
    then have "0 < sent_count x l" by (simp add: sent_count_def)
    with asked [of x] settled [of x] spec [OF answered, of x] show False by simp
  qed
  with m(2) have handed: "handed (jobs m) (map snd ?S)" by (simp add: managed_def sends_local)
  have others: "sent_count a ?S = 0" if "a \<notin> fst ` set kids" for a
    using asked [of a] spec [OF answered, of a] that by (cases "requests a ?d") auto
  have same: "mset (filter (\<lambda>p. fst p \<noteq> root) (deliveries (trace w))) = mset ?S"
    using settled others worker by (intro deliveries_sent [OF reach alone k]) auto
  obtain a where a: "a \<in> fst ` set kids" using kids(1) by (cases kids) (auto simp: WORKERS_def)
  then have "Message (ToPullWorker Drained) \<in># mset (map snd (filter (\<lambda>p. fst p = a) ?S))"
    using ended [OF a] settled [OF a] by (metis set_mset_mset)
  then have "jobs m = []" by (intro handed_drained [OF handed]) auto
  with handed have "handed [] (map snd ?S)" by simp
  from handed_lines [OF this, of root] show ?thesis unfolding worker_lines_def mset_concat_map [OF same] .
qed

end

section \<open>A run\<close>

definition pull_env ::
  "(pull_message incoming list_channel, watch_state, pull_actor, pull_message, pull_state, infallible) env" where
  "pull_env = list_env pull_init (\<lambda>k me i s. snd (pull_receive k me i s))"

interpretation list_pull: pull_runtime pull_env items rx_alive some_tx ws_receivers ws_sent ws_sender_gone
  unfolding pull_env_def
proof (intro pull_runtime.intro pull_runtime_axioms.intro list_rt.actor_runtime_axioms)
  show "pull_code (list_env pull_init (\<lambda>k me i s. snd (pull_receive k me i s)))"
    by (simp add: pull_code_def list_env_def)
qed

text \<open>
  The manager initializes. In the first run a worker asks for a job, and the manager is about to
  reply. In the second the workers take turns until they are told that there is no job left, stop
  one after the other, and the manager takes two of their signals. \<open>f\<close> is an ID no actor has.
\<close>

definition asking_schedule :: "actor_id \<Rightarrow> actor_id \<Rightarrow> actor_id \<Rightarrow> actor_id \<Rightarrow> actor_id \<Rightarrow> pull_message action list" where
  "asking_schedule r a b c f = map (\<lambda>i. run_with i r) [f, a, f, b, f, c, f, f] @ [run_with f a, run_with f a, run_with f r]"

definition pulling_schedule :: "actor_id \<Rightarrow> actor_id \<Rightarrow> actor_id \<Rightarrow> actor_id \<Rightarrow> actor_id \<Rightarrow> pull_message action list" where
  "pulling_schedule r a b c f =
     map (\<lambda>i. run_with i r) [f, a, f, b, f, c, f, f] @
     concat (map (\<lambda>j. map (run_with j) [a, a, a, b, b, b, c, c, c, r, r, r, r, r, r, r, r, r]) [f, f, f]) @
     concat (map (\<lambda>i. map (\<lambda>j. run_with j i) [f, f, f, f, f, f, f, f, f, f, f, f, f]) [a, b, c]) @
     map (run_with f) [r, r, r, r]"

lemmas pull_simps = pull_env_def manager_init_def WORKERS_def pull_worker_init_def request_def pull_config_def
  with_mailbox_capacity_def vec_pop_def checked_sub_def quota_bounded_def numeral_3_eq_3

lemma asking_run:
  assumes "distinct [r, a, b, c, f]"
  shows "\<exists>w t p. sys_run pull_env r (asking_schedule r a b c f) (spawn_root pull_env Manager actor_config_default r) = Some w \<and>
    tasks w r = Some t \<and> phase t = Handling 0 (Tell a (ToPullWorker (Job (last DOCUMENTS))) p) \<and> undisturbed (trace w)"
  using assms iffD2 [OF distinct_rev assms]
  by (simp add: asking_schedule_def DOCUMENTS_def pull_simps run_simps undisturbed_def)

lemma pulling_run:
  assumes docs: "DOCUMENTS = [d0, d1, d2, d3, d4, d5]" and "distinct [r, a, b, c, f]"
  shows "\<exists>w t. sys_run pull_env r (pulling_schedule r a b c f) (spawn_root pull_env Manager actor_config_default r) = Some w \<and>
    tasks w r = Some t \<and> phase t = Receiving (ManagingState \<lparr>jobs = [], workers = 1\<rparr>) 0 \<and> watched w r = [c] \<and>
    mailboxes w r = \<lparr>item_chan = \<lparr>items = [Terminated c], rx_alive = True, some_tx = True\<rparr>, chan_quota = QUnbounded, registry = Some []\<rparr> \<and>
    undisturbed (trace w)"
  using assms(2) iffD2 [OF distinct_rev assms(2)]
  by (simp add: docs pulling_schedule_def pull_simps run_simps undisturbed_def)

section \<open>Properties\<close>

text \<open>
  C22: a mailbox of capacity one is sufficient for a worker: in a system that no outside code sends
  messages to, whenever the manager is about to reply to a request, in whatever interleaving, the
  mailbox of the worker accepts the reply.
\<close>

theorem work_pulling_fits:
  assumes "actor_runtime env contents connected tx_alive receivers signalled sender_gone" and "pull_code env"
    and "sys_reach env Manager actor_config_default root w" and "undisturbed (trace w)"
    and "tasks w root = Some t" and "phase t = Handling up (Tell a m p)"
  shows "fst (try_send_message (env_flume env) m (mailboxes w a)) = Ok ()"
  using pull_runtime.reply_fits [OF pull_runtime.intro [OF assms(1) pull_runtime_axioms.intro [OF assms(2)]] assms(3-6)] .

theorem work_pulling_fits_witness:
  "\<exists>w t p. sys_reach pull_env Manager actor_config_default (ActorId 1) w \<and> undisturbed (trace w) \<and>
     tasks w (ActorId 1) = Some t \<and> phase t = Handling 0 (Tell (ActorId 2) (ToPullWorker (Job (last DOCUMENTS))) p) \<and>
     fst (try_send_message (env_flume pull_env) (ToPullWorker (Job (last DOCUMENTS))) (mailboxes w (ActorId 2))) = Ok ()"
proof -
  have "distinct [ActorId 1, ActorId 2, ActorId 3, ActorId 4, ActorId 9]" by simp
  from asking_run [OF this] obtain w t p where run: "sys_run pull_env (ActorId 1)
        (asking_schedule (ActorId 1) (ActorId 2) (ActorId 3) (ActorId 4) (ActorId 9))
        (spawn_root pull_env Manager actor_config_default (ActorId 1)) = Some w"
    and t: "tasks w (ActorId 1) = Some t" "phase t = Handling 0 (Tell (ActorId 2) (ToPullWorker (Job (last DOCUMENTS))) p)"
      "undisturbed (trace w)"
    by blast
  note reach = sys_run_reach [OF sys_reach.sys_start run]
  from work_pulling_fits [OF list_pull.actor_runtime_axioms list_pull.code reach t(3,1,2)] reach t show ?thesis by blast
qed

text \<open>
  C21: no work is dropped or done twice: in a system that no outside code sends messages to, when the
  manager prints that all documents are processed, the workers have printed the number of words of
  each document exactly once, in whatever order and by whichever worker.
\<close>

theorem work_pulling_complete:
  assumes "actor_runtime env contents connected tx_alive receivers signalled sender_gone" and "pull_code env"
    and "sys_reach env Manager actor_config_default root w" and "undisturbed (trace w)"
    and "tasks w root = Some t" and "phase t = Receiving s up"
    and "next_incoming env root stopped w = Some (PolledIncoming i, w')"
    and "AllProcessed \<in> set (fst (pull_receive Manager root i s))"
  shows "mset (worker_lines root (trace w)) = mset (map (\<lambda>d. WordsIn (count_words False d) d) DOCUMENTS)"
  using pull_runtime.all_processed [OF pull_runtime.intro [OF assms(1) pull_runtime_axioms.intro [OF assms(2)]] assms(3-8)] .

theorem work_pulling_complete_witness:
  "\<exists>w t s w'. sys_reach pull_env Manager actor_config_default (ActorId 1) w \<and> undisturbed (trace w) \<and>
     tasks w (ActorId 1) = Some t \<and> phase t = Receiving s 0 \<and>
     next_incoming pull_env (ActorId 1) None w = Some (PolledIncoming (Terminated (ActorId 4)), w') \<and>
     fst (pull_receive Manager (ActorId 1) (Terminated (ActorId 4)) s) = [AllProcessed] \<and>
     mset (worker_lines (ActorId 1) (trace w)) = mset (map (\<lambda>d. WordsIn (count_words False d) d) DOCUMENTS)"
proof -
  have "distinct [ActorId 1, ActorId 2, ActorId 3, ActorId 4, ActorId 9]" by simp
  from pulling_run [OF DOCUMENTS_def this] obtain w t where run: "sys_run pull_env (ActorId 1)
        (pulling_schedule (ActorId 1) (ActorId 2) (ActorId 3) (ActorId 4) (ActorId 9))
        (spawn_root pull_env Manager actor_config_default (ActorId 1)) = Some w"
    and t: "tasks w (ActorId 1) = Some t" "phase t = Receiving (ManagingState \<lparr>jobs = [], workers = 1\<rparr>) 0"
    and q: "watched w (ActorId 1) = [ActorId 4]" "mailboxes w (ActorId 1) =
        \<lparr>item_chan = \<lparr>items = [Terminated (ActorId 4)], rx_alive = True, some_tx = True\<rparr>, chan_quota = QUnbounded, registry = Some []\<rparr>"
      "undisturbed (trace w)"
    by blast
  obtain w' where polled: "next_incoming pull_env (ActorId 1) None w = Some (PolledIncoming (Terminated (ActorId 4)), w')"
    using q by (simp add: pull_env_def run_simps)
  have line: "fst (pull_receive Manager (ActorId 1) (Terminated (ActorId 4)) (ManagingState \<lparr>jobs = [], workers = 1\<rparr>)) = [AllProcessed]"
    by (simp add: checked_sub_def)
  note reach = sys_run_reach [OF sys_reach.sys_start run]
  have "mset (worker_lines (ActorId 1) (trace w)) = mset (map (\<lambda>d. WordsIn (count_words False d) d) DOCUMENTS)"
    by (rule work_pulling_complete [OF list_pull.actor_runtime_axioms list_pull.code reach q(3) t polled]) (simp only: line, simp)
  with reach q(3) t polled line show ?thesis by blast
qed

end
