(* ===== verification/SupervisionExample.thy ===== *)
theory SupervisionExample
  imports Delivery
begin

text \<open>
  \<^verbatim>\<open>tellus/examples/supervision.rs\<close>: a loader that fails on toxic values, under the \<^verbatim>\<open>Restart\<close>
  strategy, and the overseer that feeds it. The comments claim that the messages queued behind a
  toxic one are still processed by the next incarnation, and that only the count is lost. The
  message type of the overseer has no values; here it shares that of the loader, and its handler
  does not look at what it gets, like the code.
\<close>

section \<open>The actors\<close>

datatype sup_actor = Overseer (loader_config: actor_config) | Loader

datatype loader_message = Load u32 | Finish

datatype loader_error = ToxicValue u32

datatype sup_state = OverseerState | LoaderState u64

datatype sup_line = LoaderFinished | LoaderInitialized | Loaded u32 u64

definition LOADER_TOXIC :: u32 where
  "LOADER_TOXIC = 13"

definition MAX_RESTARTS :: u32 where
  "MAX_RESTARTS = 3"

text \<open>
  The configuration \<^verbatim>\<open>main\<close> builds: an error is the one \<^verbatim>\<open>Backoff::new\<close> would return, and the
  default policy's panic is \<^const>\<open>Panic\<close>.
\<close>

definition main_config :: "(actor_config, invalid_backoff) call" where
  "main_config =
     (case backoff_new (from_millis 50) (from_secs 1) of
        Err e \<Rightarrow> Fail e
      | Ok backoff \<Rightarrow>
          (case restart_policy_new MAX_RESTARTS of
             None \<Rightarrow> Panic
           | Some policy \<Rightarrow>
               Return (with_supervision_strategy actor_config_default (Restart (with_backoff policy backoff)))))"

definition VALUES :: "u32 list" where
  "VALUES = [1, 2, LOADER_TOXIC, 3, LOADER_TOXIC, 4]"

fun tell_all :: "actor_id \<Rightarrow> 'm list \<Rightarrow> ('k, 'm, 'r) prog \<Rightarrow> ('k, 'm, 'r) prog" where
  "tell_all a [] p = p"
| "tell_all a (m # ms) p = Tell a m (tell_all a ms p)"

definition overseer_init :: "actor_config \<Rightarrow> (sup_actor, loader_message, (sup_state, loader_error) call) prog" where
  "overseer_init cfg =
     Spawn Loader cfg (\<lambda>loader. Watch loader
       (tell_all loader (map Load VALUES) (Tell loader Finish (Ret (Return OverseerState)))))"

definition overseer_receive :: "sup_line list \<times> (sup_actor, loader_message, (sup_state control, loader_error) call) prog" where
  "overseer_receive = ([LoaderFinished], Ret (Return Stop))"

definition loader_init :: "sup_line list \<times> (u64, loader_error) call" where
  "loader_init = ([LoaderInitialized], Return 0)"

fun loader_receive :: "loader_message incoming \<Rightarrow> u64 \<Rightarrow> sup_line list \<times> (u64 control, loader_error) call" where
  "loader_receive (Message (Load v)) c =
     (if v = LOADER_TOXIC then ([], Fail (ToxicValue LOADER_TOXIC))
      else (case checked_add c 1 of
              Some c' \<Rightarrow> ([Loaded v c'], Return (Continue c'))
            | None \<Rightarrow> ([], Panic)))"
| "loader_receive (Message Finish) c = ([], Return Stop)"
| "loader_receive (Terminated _) c = ([], Panic)"

section \<open>The system\<close>

fun sup_init :: "sup_actor \<Rightarrow> actor_id \<Rightarrow> (sup_actor, loader_message, (sup_state, loader_error) call) prog" where
  "sup_init (Overseer cfg) me = overseer_init cfg"
| "sup_init Loader me = Ret (map_call LoaderState id (snd loader_init))"

fun sup_receive ::
  "sup_actor \<Rightarrow> loader_message incoming \<Rightarrow> sup_state
     \<Rightarrow> sup_line list \<times> (sup_actor, loader_message, (sup_state control, loader_error) call) prog" where
  "sup_receive (Overseer cfg) i s = overseer_receive"
| "sup_receive Loader i (LoaderState c) =
     (case loader_receive i c of (out, r) \<Rightarrow> (out, Ret (map_call (map_control LoaderState) id r)))"
| "sup_receive Loader i OverseerState = ([], Ret Panic)"

definition sup_code :: "('c, 'w, sup_actor, loader_message, sup_state, loader_error) env \<Rightarrow> bool" where
  "sup_code env \<longleftrightarrow> init_code env = sup_init \<and> receive_code env = (\<lambda>k me i s. snd (sup_receive k i s))"

text \<open>
  What a loader has printed in a history (newest first), and its count: each call of \<^verbatim>\<open>init\<close> and
  of \<^verbatim>\<open>receive\<close> prints.
\<close>

fun loader_run :: "actor_id \<Rightarrow> loader_message event list \<Rightarrow> sup_line list \<times> u64" where
  "loader_run a [] = ([], 0)"
| "loader_run a (InitCalled b # es) =
     (case loader_run a es of (out, c) \<Rightarrow>
        if b = a then (out @ fst loader_init, case snd loader_init of Return c' \<Rightarrow> c' | _ \<Rightarrow> c) else (out, c))"
| "loader_run a (Delivered b i # es) =
     (case loader_run a es of (out, c) \<Rightarrow>
        if b = a
        then (out @ fst (loader_receive i c), case snd (loader_receive i c) of Return (Continue c') \<Rightarrow> c' | _ \<Rightarrow> c)
        else (out, c))"
| "loader_run a (_ # es) = loader_run a es"

section \<open>The loader by itself\<close>

text \<open>
  What it should print for some messages, with its count and the failures so far: after a failure
  it starts anew.
\<close>

fun loads :: "loader_message incoming list \<Rightarrow> sup_line list \<times> u64 \<times> nat" where
  "loads [] = ([LoaderInitialized], 0, 0)"
| "loads (i # is) =
     (case loads is of (out, c, n) \<Rightarrow>
        (case loader_receive i c of
           (new, Return (Continue c')) \<Rightarrow> (out @ new, c', n)
         | (new, Return Stop) \<Rightarrow> (out @ new, c, n)
         | (new, _) \<Rightarrow> (out @ new @ [LoaderInitialized], 0, Suc n)))"

definition printed :: "loader_message incoming list \<Rightarrow> sup_line list" where
  "printed is = fst (loads (rev is))"

definition loaded :: "loader_message incoming list \<Rightarrow> u64" where
  "loaded is = fst (snd (loads (rev is)))"

definition failures :: "loader_message incoming list \<Rightarrow> nat" where
  "failures is = snd (snd (loads (rev is)))"

lemma loads_Nil [simp]: "printed [] = [LoaderInitialized]" "loaded [] = 0" "failures [] = 0"
  by (simp_all add: printed_def loaded_def failures_def)

lemma loads_snoc:
  "loader_receive i (loaded is) = (new, Return (Continue c)) \<Longrightarrow>
     printed (is @ [i]) = printed is @ new \<and> loaded (is @ [i]) = c \<and> failures (is @ [i]) = failures is"
  "loader_receive i (loaded is) = (new, Return Stop) \<Longrightarrow>
     printed (is @ [i]) = printed is @ new \<and> failures (is @ [i]) = failures is"
  "loader_receive i (loaded is) = (new, r) \<Longrightarrow> catch_and_log r = None \<Longrightarrow>
     printed (is @ [i]) = printed is @ new @ [LoaderInitialized] \<and> loaded (is @ [i]) = 0 \<and> failures (is @ [i]) = Suc (failures is)"
  by (auto simp: printed_def loaded_def failures_def catch_and_log_def catch_panic_and_log_def split: prod.splits call.splits)

text \<open>
  The phases of a loader: it is up to date, has just been handed an item, or has failed on one and
  not yet been restarted.
\<close>

definition ld_inv ::
  "actor_config \<Rightarrow> actor_id \<Rightarrow> loader_message event list \<Rightarrow> sup_actor kid list \<Rightarrow> bool
     \<Rightarrow> (sup_actor, loader_message, sup_state, loader_error) phase \<Rightarrow> bool" where
  "ld_inv cfg me h kids st ph \<longleftrightarrow> kids = [] \<and> sends me h = [] \<and> watches me h = [] \<and>
     (let ds = delivered me h;
          current = fst (loader_run me h) = printed ds \<and> snd (loader_run me h) = loaded ds \<and> inits h = Suc (failures ds);
          broken = fst (loader_run me h) @ [LoaderInitialized] = printed ds \<and> loaded ds = 0 \<and> inits h = failures ds in
      (case ph of
         Starting \<Rightarrow> h = []
       | Initializing p \<Rightarrow> p = Ret (Return (LoaderState (loaded ds))) \<and> current
       | Receiving s _ \<Rightarrow> s = LoaderState (loaded ds) \<and> current
       | Handling _ p \<Rightarrow>
           (\<exists>es i. ds = es @ [i] \<and> p = snd (sup_receive Loader i (LoaderState (loaded es))) \<and> inits h = Suc (failures es) \<and>
              fst (loader_run me h) = printed es @ fst (loader_receive i (loaded es)) \<and>
              (\<forall>c. snd (loader_receive i (loaded es)) = Return (Continue c) \<longrightarrow> snd (loader_run me h) = c))
       | Failed _ \<Rightarrow> broken
       | RestartStopping _ _ \<Rightarrow> broken
       | BackingOff _ \<Rightarrow> broken
       | _ \<Rightarrow> st \<or> (\<exists>es. ds = es @ [Message Finish]) \<and> fst (loader_run me h) = printed ds \<or> exhausted cfg (failures ds)))"

lemma ld_inv_closing:
  assumes "2 \<le> rank ph"
  shows "ld_inv cfg me h kids st ph \<longleftrightarrow> kids = [] \<and> sends me h = [] \<and> watches me h = [] \<and>
    (st \<or> (\<exists>es. delivered me h = es @ [Message Finish]) \<and> fst (loader_run me h) = printed (delivered me h) \<or>
     exhausted cfg (failures (delivered me h)))"
  using assms by (cases ph) (auto simp: ld_inv_def Let_def)

lemma stop_is_finish: "loader_receive i c = (new, Return Stop) \<Longrightarrow> i = Message Finish \<and> new = []"
  by (cases "(i, c)" rule: loader_receive.cases) (auto split: option.splits if_splits)

lemma ld_returned:
  assumes "ld_inv cfg me h kids st (Handling up (Ret r))"
  shows "\<exists>es i new r'. delivered me h = es @ [i] \<and> loader_receive i (loaded es) = (new, r') \<and>
    r = map_call (map_control LoaderState) id r' \<and> inits h = Suc (failures es) \<and> fst (loader_run me h) = printed es @ new \<and>
    (\<forall>c. r' = Return (Continue c) \<longrightarrow> snd (loader_run me h) = c)"
proof -
  from assms obtain es i where h: "delivered me h = es @ [i]" "Ret r = snd (sup_receive Loader i (LoaderState (loaded es)))"
      "inits h = Suc (failures es)" "fst (loader_run me h) = printed es @ fst (loader_receive i (loaded es))"
      "\<forall>c. snd (loader_receive i (loaded es)) = Return (Continue c) \<longrightarrow> snd (loader_run me h) = c"
    by (auto simp: ld_inv_def Let_def)
  obtain new r' where "loader_receive i (loaded es) = (new, r')" by fastforce
  with h show ?thesis by auto
qed

lemma map_call_log: "catch_and_log (map_call f id r) = map_option f (catch_and_log r)"
  by (cases r) (simp_all add: catch_and_log_def catch_panic_and_log_def)

lemma map_control_iff:
  "map_control f x = Continue s \<longleftrightarrow> (\<exists>c. x = Continue c \<and> s = f c)" "map_control f x = Stop \<longleftrightarrow> x = Stop"
  by (cases x; auto)+

lemma ld_behaves:
  assumes "behaves env Loader cfg me h l kids st g ph" and code: "sup_code env"
  shows "ld_inv cfg me h kids st ph"
  using assms(1)
proof (induction rule: behaves.induct)
  case (initializing h l kids st g p es ls ks p')
  then show ?case by (auto simp: ld_inv_def Let_def elim: calls.cases)
next
  case (handling h l kids st g up p es ls ks p')
  then obtain i c where "p = snd (sup_receive Loader i (LoaderState c))" by (auto simp: ld_inv_def Let_def)
  then have "\<exists>r. p = Ret r" by (cases "loader_receive i c") auto
  with handling show ?case by (auto elim: calls.cases)
next
  case (init_failed h l kids st g r)
  then show ?case by (auto simp: ld_inv_def Let_def catch_and_log_def catch_panic_and_log_def)
next
  case (init_ok h l kids st g r s now)
  then show ?case by (auto simp: ld_inv_def Let_def catch_and_log_def catch_panic_and_log_def)
next
  case (receiving h l kids st g s up i)
  then show ?case using code by (auto simp: ld_inv_def Let_def sup_code_def split: prod.splits)
next
  case (continues h l kids st g up r s)
  from ld_returned [OF continues.IH] obtain es i new r' where r: "delivered me h = es @ [i]" "loader_receive i (loaded es) = (new, r')"
    "r = map_call (map_control LoaderState) id r'" "inits h = Suc (failures es)" "fst (loader_run me h) = printed es @ new"
    "\<forall>c. r' = Return (Continue c) \<longrightarrow> snd (loader_run me h) = c" by blast
  with continues(2) obtain c where "r' = Return (Continue c)" "s = LoaderState c"
    by (auto simp: map_call_log catch_and_log_Some map_control_iff)
  with r loads_snoc(1) [of i es new c] continues.IH show ?case by (auto simp: ld_inv_def Let_def)
next
  case (stops_itself h l kids st g up r)
  from ld_returned [OF stops_itself.IH] obtain es i new r' where r: "delivered me h = es @ [i]" "loader_receive i (loaded es) = (new, r')"
    "r = map_call (map_control LoaderState) id r'" "fst (loader_run me h) = printed es @ new" by blast
  with stops_itself(2) have "r' = Return Stop"
    by (auto simp: map_call_log catch_and_log_Some map_control_iff)
  with r stop_is_finish loads_snoc(2) [of i es new] stops_itself.IH show ?case by (fastforce simp: ld_inv_def Let_def)
next
  case (fails h l kids st g up r)
  from ld_returned [OF fails.IH] obtain es i new r' where r: "delivered me h = es @ [i]" "loader_receive i (loaded es) = (new, r')"
    "r = map_call (map_control LoaderState) id r'" "inits h = Suc (failures es)" "fst (loader_run me h) = printed es @ new" by blast
  with fails(2) have "catch_and_log r' = None" by (simp add: map_call_log)
  with r loads_snoc(3) [of i es new r'] fails.IH show ?case by (auto simp: ld_inv_def Let_def)
next
  case (given_up h l kids st g up stp)
  then show ?case by (auto simp: ld_inv_def Let_def)
next
  case (closing h l kids st g p q g')
  then show ?case by (simp add: ld_inv_closing)
qed (use code in \<open>auto simp: ld_inv_def Let_def sup_code_def loader_init_def split: prod.split\<close>)

section \<open>The overseer by itself\<close>

definition MESSAGES :: "loader_message list" where
  "MESSAGES = map Load VALUES @ [Finish]"

lemma overseer_tells:
  "overseer_init cfg = Spawn Loader cfg (\<lambda>loader. Watch loader (tell_all loader MESSAGES (Ret (Return OverseerState))))"
proof -
  have "tell_all a (ms @ ms') p = tell_all a ms (tell_all a ms' p)"
    for a and ms ms' :: "loader_message list" and p :: "(sup_actor, loader_message, (sup_state, loader_error) call) prog"
    by (induction ms) simp_all
  then show ?thesis by (simp add: overseer_init_def MESSAGES_def)
qed

definition overseeing ::
  "actor_config \<Rightarrow> actor_id \<Rightarrow> loader_message event list \<Rightarrow> (actor_id \<times> loader_message) list \<Rightarrow> sup_actor kid list
     \<Rightarrow> (sup_actor, loader_message, (sup_state, loader_error) call) prog \<Rightarrow> bool" where
  "overseeing cfg me h l kids p \<longleftrightarrow>
     kids = [] \<and> sends me h = [] \<and> watches me h = [] \<and> p = overseer_init cfg \<or>
     (\<exists>c. kids = [(c, Loader, cfg)] \<and>
        (sends me h = [] \<and> watches me h = [] \<and> p = Watch c (tell_all c MESSAGES (Ret (Return OverseerState))) \<or>
         watches me h = [c] \<and> (\<forall>q \<in> set (sends me h). fst q = c) \<and>
         (\<exists>told ms. MESSAGES = told @ ms \<and> p = tell_all c ms (Ret (Return OverseerState)) \<and>
            (l = [] \<longrightarrow> sends me h = map (\<lambda>m. (c, Message m)) told))))"

definition ov_inv ::
  "actor_config \<Rightarrow> actor_id \<Rightarrow> loader_message event list \<Rightarrow> (actor_id \<times> loader_message) list \<Rightarrow> sup_actor kid list
     \<Rightarrow> (sup_actor, loader_message, sup_state, loader_error) phase \<Rightarrow> bool" where
  "ov_inv cfg me h l kids ph \<longleftrightarrow>
     (\<forall>(c, k, cf) \<in> set kids. k = Loader \<and> cf = cfg) \<and> (\<forall>q \<in> set (sends me h). fst q \<in> fst ` set kids) \<and>
     (ph = Starting \<longrightarrow> h = [] \<and> l = [] \<and> kids = []) \<and>
     (\<forall>p. ph = Initializing p \<longrightarrow> delivered me h = [] \<and> overseeing cfg me h l kids p) \<and>
     (rank ph = 1 \<and> (\<forall>p. ph \<noteq> Initializing p) \<longrightarrow>
        (\<exists>c. kids = [(c, Loader, cfg)] \<and> watches me h = [c] \<and> (l = [] \<longrightarrow> sends me h = map (\<lambda>m. (c, Message m)) MESSAGES))) \<and>
     (\<forall>up p. ph = Handling up p \<longrightarrow> p = snd overseer_receive) \<and> (\<forall>up. ph \<noteq> Failed up)"

lemma overseeing_call:
  assumes inv: "overseeing cfg me h l kids p" and call: "calls me p es ls ks p'"
  shows "overseeing cfg me (es @ h) (ls @ l) (ks @ kids) p' \<and> delivered me (es @ h) = delivered me h"
proof -
  let ?ret = "Ret (Return OverseerState)"
  from inv consider (spawn) "kids = []" "sends me h = []" "watches me h = []" "p = overseer_init cfg"
    | (watch) c where "kids = [(c, Loader, cfg)]" "sends me h = []" "watches me h = []" "p = Watch c (tell_all c MESSAGES ?ret)"
    | (tell) c told ms where "kids = [(c, Loader, cfg)]" "watches me h = [c]" "(\<forall>q \<in> set (sends me h). fst q = c)"
        "MESSAGES = told @ ms" "p = tell_all c ms ?ret" "l = [] \<longrightarrow> sends me h = map (\<lambda>m. (c, Message m)) told"
    unfolding overseeing_def by blast
  then show ?thesis
  proof cases
    case spawn
    with call obtain c where "es = []" "ls = []" "ks = [(c, Loader, cfg)]" "p' = Watch c (tell_all c MESSAGES ?ret)"
      by (auto simp: overseer_tells elim: calls.cases)
    with spawn show ?thesis by (simp add: overseeing_def)
  next
    case watch
    with call have "p' = tell_all c MESSAGES ?ret" "ks = []" "ls = []" "es = [Watched me c]" by (auto elim: calls.cases)
    with watch show ?thesis by (auto simp: overseeing_def intro: exI [of _ "[]"])
  next
    case tell
    with call obtain m ms' where ms: "ms = m # ms'" by (cases ms) (auto elim: calls.cases)
    with tell call have p': "p' = tell_all c ms' ?ret" "ks = []"
      and es: "es = [Enqueued (Some me) c (Message m)] \<and> ls = [] \<or> es = [] \<and> ls = [(c, m)]" by (auto elim: calls.cases)
    have "MESSAGES = (told @ [m]) @ ms'" using tell(4) ms by simp
    moreover have "ls @ l = [] \<longrightarrow> sends me (es @ h) = map (\<lambda>m. (c, Message m)) (told @ [m])" using tell(6) es by auto
    ultimately have "\<exists>told ms. MESSAGES = told @ ms \<and> p' = tell_all c ms ?ret \<and>
        (ls @ l = [] \<longrightarrow> sends me (es @ h) = map (\<lambda>m. (c, Message m)) told)"
      using p'(1) by blast
    moreover have "\<forall>q \<in> set (sends me (es @ h)). fst q = c" "watches me (es @ h) = [c]" "delivered me (es @ h) = delivered me h"
      using tell(2,3) es by auto
    ultimately show ?thesis using tell(1) p'(2) unfolding overseeing_def by simp
  qed
qed

lemma overseeing_kids:
  "overseeing cfg me h l kids p \<Longrightarrow> (\<forall>(c, k, cf) \<in> set kids. k = Loader \<and> cf = cfg) \<and> (\<forall>q \<in> set (sends me h). fst q \<in> fst ` set kids)"
  by (auto simp: overseeing_def)

lemma overseeing_done:
  assumes "overseeing cfg me h l kids (Ret r)"
  shows "r = Return OverseerState \<and>
    (\<exists>c. kids = [(c, Loader, cfg)] \<and> watches me h = [c] \<and> (l = [] \<longrightarrow> sends me h = map (\<lambda>m. (c, Message m)) MESSAGES))"
  using assms unfolding overseeing_def overseer_init_def
proof (elim disjE exE conjE)
  fix c told ms
  assume "kids = [(c, Loader, cfg)]" "watches me h = [c]" "MESSAGES = told @ ms"
    "Ret r = tell_all c ms (Ret (Return OverseerState))" "l = [] \<longrightarrow> sends me h = map (\<lambda>m. (c, Message m)) told"
  then show ?thesis by (cases ms) auto
qed simp_all

lemma ov_behaves:
  assumes "behaves env (Overseer cfg) actor_config_default me h l kids st g ph" and code: "sup_code env"
  shows "ov_inv cfg me h l kids ph"
  using assms(1)
proof (induction rule: behaves.induct)
  case (initializing h l kids st g p es ls ks p')
  with overseeing_call [of cfg me h l kids p es ls ks p'] overseeing_kids [of cfg me "es @ h" "ls @ l" "ks @ kids" p']
  show ?case by (simp add: ov_inv_def)
next
  case (handling h l kids st g up p es ls ks p')
  then show ?case by (auto simp: ov_inv_def overseer_receive_def elim: calls.cases)
next
  case (init_ok h l kids st g r s now)
  then have "overseeing cfg me h l kids (Ret r)" by (simp add: ov_inv_def)
  from overseeing_done [OF this] init_ok.IH show ?case by (simp add: ov_inv_def)
next
  case (init_failed h l kids st g r)
  then have "overseeing cfg me h l kids (Ret r)" by (simp add: ov_inv_def)
  from overseeing_done [OF this] init_failed show ?case by (simp add: catch_and_log_def catch_panic_and_log_def)
next
  case (fails h l kids st g up r)
  then show ?case by (auto simp: ov_inv_def overseer_receive_def catch_and_log_def catch_panic_and_log_def)
next
  case (continues h l kids st g up r s)
  then show ?case by (auto simp: ov_inv_def overseer_receive_def catch_and_log_def catch_panic_and_log_def)
next
  case (restarting h l kids st g up d)
  then show ?case by (simp add: actor_config_default_def)
next
  case (restarted h l kids st g d)
  with behaves_no_restart [OF restarted.hyps] show ?case by (simp add: actor_config_default_def)
next
  case (interrupted h l kids st g d)
  with behaves_no_restart [OF interrupted.hyps] show ?case by (simp add: actor_config_default_def)
next
  case (closing h l kids st g p q g')
  with rank_late [of q] show ?case by (simp add: ov_inv_def)
qed (use code in \<open>auto simp: ov_inv_def sup_code_def overseeing_def\<close>)

section \<open>Together\<close>

lemma loader_run_local: "loader_run a (local_history a es) = loader_run a es"
  by (induction a es rule: loader_run.induct) (auto split: prod.splits)

lemma failures_mono: "failures xs \<le> failures (xs @ ys)"
proof (induction ys rule: rev_induct)
  case (snoc y ys)
  obtain new r where r: "loader_receive y (loaded (xs @ ys)) = (new, r)" by fastforce
  have "failures (xs @ ys) \<le> failures ((xs @ ys) @ [y])"
  proof (cases "catch_and_log r")
    case None
    with loads_snoc(3) [OF r] show ?thesis by simp
  next
    case (Some x)
    then have "r = Return x" by (simp add: catch_and_log_Some)
    with loads_snoc(1,2) [of y "xs @ ys" new] r show ?thesis by (cases x) auto
  qed
  with snoc show ?case by simp
qed simp

lemma all_loads:
  "loads (rev (map Message MESSAGES)) =
     ([LoaderInitialized, Loaded 1 1, Loaded 2 2, LoaderInitialized, Loaded 3 1, LoaderInitialized, Loaded 4 1], 1, 2)"
  by (simp add: MESSAGES_def VALUES_def LOADER_TOXIC_def checked_add_def)

lemma few_failures: "map Message MESSAGES = ds @ rest \<Longrightarrow> failures ds \<le> 2"
  using failures_mono [of ds rest] all_loads by (simp add: failures_def)

lemma finish_last:
  assumes "map Message MESSAGES = ds @ rest" and "Message Finish \<in> set ds"
  shows "rest = []"
proof (rule ccontr)
  assume "rest \<noteq> []"
  then have "map Message (map Load VALUES) = ds @ butlast rest"
    using assms(1) by (metis MESSAGES_def butlast_append butlast_snoc map_butlast)
  then have "Message Finish \<in> set (map Message (map Load VALUES))" using assms(2) by (metis Un_iff set_append)
  then show False by auto
qed

lemma main_config_Return:
  assumes "main_config = Return cfg"
  shows "config_capacity cfg = Unbounded \<and> (n \<le> 3 \<longrightarrow> \<not> exhausted cfg n)"
proof -
  from assms obtain b p where "restart_policy_new MAX_RESTARTS = Some p"
    "cfg = with_supervision_strategy actor_config_default (Restart (with_backoff p b))"
    by (auto simp: main_config_def split: sum.splits option.splits)
  moreover have "max_restarts p = 3" if "restart_policy_new MAX_RESTARTS = Some p" for p
    using restart_policy_new_valid [of MAX_RESTARTS] that by (auto simp: MAX_RESTARTS_def)
  ultimately show ?thesis
    by (auto simp: with_supervision_strategy_def with_backoff_def actor_config_default_def exhausted_def)
qed

locale sup_runtime =
  actor_runtime env contents connected tx_alive receivers signalled sender_gone
  for env :: "('c, 'w, sup_actor, loader_message, sup_state, loader_error) env"
    and contents :: "'c \<Rightarrow> loader_message incoming list" and connected tx_alive :: "'c \<Rightarrow> bool"
    and receivers :: "'w \<Rightarrow> nat" and signalled sender_gone :: "'w \<Rightarrow> bool" +
  fixes cfg :: actor_config
  assumes code: "sup_code env" and config: "main_config = Return cfg"
begin

lemma ov_lives:
  assumes reach: "sys_reach env (Overseer cfg) actor_config_default root w" and t: "tasks w root = Some t"
    and live: "lives env w root t l kids st"
  shows "ov_inv cfg root (local_history root (trace w)) l kids (phase t)" and "kids_ok w root kids"
    and "rank (phase t) = 1 \<Longrightarrow> generation w root = 0"
proof -
  have "task_actor t = Overseer cfg" "task_config t = actor_config_default" using root_task [OF reach] t by auto
  with live have b: "behaves env (Overseer cfg) actor_config_default root (local_history root (trace w)) l kids st
      (generation w root) (phase t)" and k: "kids_ok w root kids" by (simp_all add: lives_def)
  show "ov_inv cfg root (local_history root (trace w)) l kids (phase t)" by (rule ov_behaves [OF b code])
  show "kids_ok w root kids" by (rule k)
  show "rank (phase t) = 1 \<Longrightarrow> generation w root = 0"
    using behaves_no_restart [OF b] by (simp add: actor_config_default_def)
qed

lemma ov_state:
  assumes reach: "sys_reach env (Overseer cfg) actor_config_default root w"
  obtains t l kids where "tasks w root = Some t" and "ov_inv cfg root (local_history root (trace w)) l kids (phase t)"
    and "kids_ok w root kids"
proof -
  obtain t where t: "tasks w root = Some t" using root_task [OF reach] by blast
  obtain l kids st where "lives env w root t l kids st" using sys_reach_live [OF reach] t unfolding all_live_def by blast
  with ov_lives [OF reach t] t that show ?thesis by blast
qed

lemma loaders:
  assumes reach: "sys_reach env (Overseer cfg) actor_config_default root w" and t: "tasks w a = Some t" and a: "a \<noteq> root"
  shows "task_actor t = Loader \<and> task_config t = cfg \<and> (\<exists>n. parent_stop t = (ActorOwner root, n))"
proof -
  obtain tr l kids where "tasks w root = Some tr" and g: "ov_inv cfg root (local_history root (trace w)) l kids (phase tr)"
    and k: "kids_ok w root kids"
    by (rule ov_state [OF reach])
  have "\<forall>c t n. tasks w c = Some t \<and> parent_stop t = (ActorOwner root, n) \<longrightarrow> task_actor t = Loader \<and> task_config t = cfg"
    using kids_ok_kid [OF k] g by (fastforce simp: ov_inv_def)
  moreover have "parent_stop tc \<noteq> (ActorOwner b, n)"
    if b: "tasks w b = Some tb" "task_actor tb = Loader" "task_config tb = cfg" and c: "tasks w c = Some tc" for b tb c tc n
  proof
    assume p: "parent_stop tc = (ActorOwner b, n)"
    obtain l kids st where beh: "behaves env Loader cfg b (local_history b (trace w)) l kids st (generation w b) (phase tb)"
      and k: "kids_ok w b kids"
      using reach_lives [OF reach b(1)] b(2,3) by metis
    have "kids = []" using ld_behaves [OF beh code] by (simp add: ld_inv_def)
    with kids_ok_kid [OF k c p] show False by simp
  qed
  ultimately show ?thesis by (intro two_levels [OF reach _ _ t a]) blast+
qed

lemma ld_state:
  assumes reach: "sys_reach env (Overseer cfg) actor_config_default root w" and t: "tasks w a = Some t" and a: "a \<noteq> root"
  obtains st where "ld_inv cfg a (local_history a (trace w)) [] st (phase t)" and "st \<longrightarrow> 0 < generation w root"
proof -
  note wk = loaders [OF reach t a]
  obtain l kids st where b: "behaves env Loader cfg a (local_history a (trace w)) l kids st (generation w a) (phase t)"
    and st: "st \<Longrightarrow> abandoned w (parent_stop t)"
    using reach_lives [OF reach t] wk by metis
  from ld_behaves [OF b code] have inv: "ld_inv cfg a (local_history a (trace w)) kids st (phase t)" .
  then have "kids = []" by (simp add: ld_inv_def)
  with inv st wk show ?thesis by (intro that [of st]) (auto simp: abandoned_def)
qed

lemma sup_sent:
  assumes reach: "sys_reach env (Overseer cfg) actor_config_default root w" and sent: "Enqueued (Some a) x i \<in> set (trace w)"
  shows "a = root \<and> x \<noteq> root"
proof -
  have h: "(x, i) \<in> set (sends a (local_history a (trace w)))" using sent by (simp add: sends_local sends_iff)
  have "a = root"
  proof (rule ccontr)
    assume a: "a \<noteq> root"
    obtain t where t: "tasks w a = Some t" using sender_task [OF reach sent, of a] by auto
    obtain st where "ld_inv cfg a (local_history a (trace w)) [] st (phase t)" by (rule ld_state [OF reach t a])
    with h show False by (simp add: ld_inv_def)
  qed
  obtain t l kids where "tasks w root = Some t" and ov: "ov_inv cfg root (local_history root (trace w)) l kids (phase t)"
    and k: "kids_ok w root kids"
    by (rule ov_state [OF reach])
  from ov have "\<forall>q \<in> set (sends root (local_history root (trace w))). fst q \<in> fst ` set kids" unfolding ov_inv_def by blast
  from bspec [OF this, of "(x, i)"] h \<open>a = root\<close> have "x \<in> fst ` set kids" by simp
  with root_no_kid [OF reach k] \<open>a = root\<close> show ?thesis by blast
qed

text \<open>What a loader was handed is the beginning of what the overseer has sent it.\<close>

lemma loader_delivered:
  assumes reach: "sys_reach env (Overseer cfg) actor_config_default root w" and alone: "undisturbed (trace w)"
    and t: "tasks w a = Some t" and a: "a \<noteq> root"
  shows "\<exists>rest. map snd (filter (\<lambda>p. fst p = a) (sends root (trace w))) = delivered a (trace w) @ rest"
proof -
  obtain st where "ld_inv cfg a (local_history a (trace w)) [] st (phase t)" by (rule ld_state [OF reach t a])
  then have "watches a (local_history a (trace w)) = []" by (simp add: ld_inv_def)
  from delivered_messages [OF reach t this] show ?thesis
    using mailbox_from [OF alone, of a root] sup_sent [OF reach] sender_message [OF reach] by metis
qed

text \<open>As long as the overseer runs and has not sent \<^const>\<open>Finish\<close>, the loader is not terminating.\<close>

lemma loader_up:
  assumes reach: "sys_reach env (Overseer cfg) actor_config_default root w" and alone: "undisturbed (trace w)"
    and t: "tasks w c = Some t" and c: "c \<noteq> root" and gen: "generation w root = 0"
    and sent: "sends root (trace w) = map (\<lambda>m. (c, Message m)) told" "MESSAGES = told @ m # ms"
  shows "rank (phase t) \<le> 1"
proof (rule ccontr)
  assume "\<not> rank (phase t) \<le> 1"
  then have late: "2 \<le> rank (phase t)" by simp
  obtain st where "ld_inv cfg c (local_history c (trace w)) [] st (phase t)" "st \<longrightarrow> 0 < generation w root"
    by (rule ld_state [OF reach t c])
  with late gen have why: "Message Finish \<in> set (delivered c (trace w)) \<or> exhausted cfg (failures (delivered c (trace w)))"
    by (auto simp: ld_inv_closing delivered_local)
  obtain rest where "map Message told = delivered c (trace w) @ rest"
    using loader_delivered [OF reach alone t c] sent(1) by (auto simp: filter_map comp_def)
  then have all: "map Message MESSAGES = delivered c (trace w) @ (rest @ Message m # map Message ms)"
    unfolding sent(2) map_append by simp
  then have "\<not> exhausted cfg (failures (delivered c (trace w)))"
    using few_failures [OF all] main_config_Return [OF config, of "failures (delivered c (trace w))"] by simp
  with why finish_last [OF all] show False by auto
qed

lemma overseer_fits:
  assumes reach: "sys_reach env (Overseer cfg) actor_config_default root w" and alone: "undisturbed (trace w)"
    and t: "tasks w root = Some t" and live: "lives env w root t [] kids st" and tell: "telling (phase t) = Some (x, m)"
  shows "fst (try_send_message (env_flume env) m (mailboxes w x)) = Ok ()"
proof -
  note ov = ov_lives [OF reach t live]
  obtain p where p: "phase t = Initializing (Tell x m p)"
    using tell ov(1) by (cases "phase t" rule: telling.cases) (auto simp: ov_inv_def overseer_receive_def)
  then have "overseeing cfg root (local_history root (trace w)) [] kids (Tell x m p)" using ov(1) by (simp add: ov_inv_def)
  then obtain c told ms where kids: "kids = [(c, Loader, cfg)]" and ms: "MESSAGES = told @ ms"
    "Tell x m p = tell_all c ms (Ret (Return OverseerState))" "sends root (trace w) = map (\<lambda>m. (c, Message m)) told"
    by (auto simp: overseeing_def overseer_init_def sends_local)
  then obtain ms' where m: "ms = m # ms'" "x = c" by (cases ms) auto
  obtain tc where tc: "tasks w c = Some tc" "task_config tc = cfg" using ov(2) kids by (auto simp: kids_ok_def)
  have "c \<noteq> root" using root_no_kid [OF reach ov(2)] kids by auto
  have "rank (phase tc) \<le> 1"
    using loader_up [OF reach alone tc(1) \<open>c \<noteq> root\<close>] ov(3) p ms m by simp
  then show ?thesis
    using main_config_Return [OF config] tc by (simp add: m(2) sends_accepted [OF reach tc(1)])
qed

lemma loader_signal:
  assumes reach: "sys_reach env (Overseer cfg) actor_config_default root w" and alone: "undisturbed (trace w)"
    and t: "tasks w root = Some t" "phase t = Receiving s up"
    and polled: "next_incoming env root stopped w = Some (PolledIncoming i, w')"
  shows "\<exists>c. i = Terminated c \<and> fst (loader_run c (trace w)) =
    [LoaderInitialized, Loaded 1 1, Loaded 2 2, LoaderInitialized, Loaded 3 1, LoaderInitialized, Loaded 4 1]"
proof -
  obtain kids st where live: "lives env w root t [] kids st"
    using root_lossless [OF reach alone] overseer_fits t(1) by fastforce
  note ov = ov_lives [OF reach t(1) live]
  obtain c where kids: "kids = [(c, Loader, cfg)]" "watches root (local_history root (trace w)) = [c]"
    "sends root (trace w) = map (\<lambda>m. (c, Message m)) MESSAGES"
    using ov(1) t(2) by (auto simp: ov_inv_def sends_local)
  have c: "c \<noteq> root" using root_no_kid [OF reach ov(2)] kids by auto
  obtain x where x: "Enqueued x root i \<in> set (trace w)" using polled_received [OF reach t(1) polled] by blast
  then have "x = None" using sup_sent [OF reach] by (cases x) auto
  with x alone obtain b where b: "i = Terminated b" by (cases i) (auto simp: undisturbed_iff)
  obtain mb where mb: "mailbox_recv (env_flume env) (mailboxes w root) = Received (Terminated b) mb" and "b \<in> set (watched w root)"
    using polled_signal polled b by blast
  then have "watching root b (local_history root (trace w))"
    using watching_invD(2) [OF sys_reach_watching [OF reach] t(1)] t(2) by (simp add: watching_local)
  then have bc: "b = c" using watching_watches kids(2) by fastforce
  have "contents (item_chan (mailboxes w root)) = Terminated b # contents (item_chan mb)" using mbx.recv_queue [OF mb] by simp
  then have "signal_sent c (trace w)" using signal_received [OF reach t(1)] bc by blast
  then obtain tc where tc: "tasks w c = Some tc" "12 \<le> rank (phase tc)" using sys_reach_signal [OF reach] by (auto simp: signal_inv_def)
  obtain rest where all: "map Message MESSAGES = delivered c (trace w) @ rest"
    using loader_delivered [OF reach alone tc(1) c] kids(3) by (auto simp: filter_map comp_def)
  have "\<not> exhausted cfg (failures (delivered c (trace w)))"
    using few_failures [OF all] main_config_Return [OF config, of "failures (delivered c (trace w))"] by simp
  moreover obtain st where "ld_inv cfg c (local_history c (trace w)) [] st (phase tc)" "st \<longrightarrow> 0 < generation w root"
    by (rule ld_state [OF reach tc(1) c])
  ultimately have "Message Finish \<in> set (delivered c (trace w))" and printed: "fst (loader_run c (trace w)) = printed (delivered c (trace w))"
    using tc(2) ov(3) t(2) by (auto simp: ld_inv_closing delivered_local loader_run_local)
  with finish_last [OF all] all have "delivered c (trace w) = map Message MESSAGES" by simp
  with printed all_loads b bc show ?thesis by (simp add: printed_def)
qed

end

section \<open>A run\<close>

definition sup_env ::
  "(loader_message incoming list_channel, watch_state, sup_actor, loader_message, sup_state, loader_error) env" where
  "sup_env = list_env sup_init (\<lambda>k me i s. snd (sup_receive k i s))"

definition sup_cfg :: actor_config where
  "sup_cfg =
     \<lparr>config_capacity = Unbounded,
      config_strategy = Restart \<lparr>max_restarts = 3, policy_backoff = \<lparr>bo_min = 50000000, bo_max = 1000000000\<rparr>, reset_after = 30000000000\<rparr>\<rparr>"

lemma main_config_eq: "main_config = Return sup_cfg"
  by (simp add: main_config_def backoff_new_def restart_policy_new_def backoff_default_def DEFAULT_MIN_def DEFAULT_MAX_def
      DEFAULT_RESET_AFTER_def from_millis_def from_secs_def MAX_RESTARTS_def sup_cfg_def
      with_supervision_strategy_def with_backoff_def actor_config_default_def)

lemma sup_restarts [simp]:
  "config_capacity sup_cfg = Unbounded" "next_restart (config_strategy sup_cfg) (Some 0) 0 0 = (After 50000000, 1)"
  "next_restart (config_strategy sup_cfg) (Some 0) 0 1 = (After 100000000, 2)"
  by (simp_all add: sup_cfg_def next_restart_def backoff_duration_def elapsed_def checked_shl_def
      duration_saturating_mul_def duration_max_def word_le_nat_alt)

interpretation list_sup: sup_runtime sup_env items rx_alive some_tx ws_receivers ws_sent ws_sender_gone sup_cfg
  unfolding sup_env_def
proof (intro sup_runtime.intro sup_runtime_axioms.intro list_rt.actor_runtime_axioms)
  show "sup_code (list_env sup_init (\<lambda>k me i s. snd (sup_receive k i s)))"
    by (simp add: sup_code_def list_env_def)
qed (rule main_config_eq)

text \<open>
  The overseer initializes, then the loader runs until it has finished, through both restarts; its
  sleeps are over at once. \<open>f\<close> is an ID no actor has.
\<close>

definition rested :: "actor_id \<Rightarrow> actor_id \<Rightarrow> 'm action" where
  "rested i me = DoTask \<lparr>obs_now = 0, obs_slept = Some (), obs_fresh = i\<rparr> me"

definition loading_schedule :: "actor_id \<Rightarrow> actor_id \<Rightarrow> actor_id \<Rightarrow> loader_message action list" where
  "loading_schedule r c f =
     map (\<lambda>i. run_with i r) [f, c, f, f, f, f, f, f, f, f, f] @
     concat (map (\<lambda>i. map (rested i) [c, c, c, c, c, c, c]) [f, f, f, f, f])"

lemma loading_run:
  assumes "distinct [r, c, f]"
  shows "\<exists>w t. sys_run sup_env r (loading_schedule r c f) (spawn_root sup_env (Overseer sup_cfg) actor_config_default r) = Some w \<and>
    tasks w r = Some t \<and> phase t = Receiving OverseerState 0 \<and> watched w r = [c] \<and>
    mailboxes w r = \<lparr>item_chan = \<lparr>items = [Terminated c], rx_alive = True, some_tx = True\<rparr>, chan_quota = QUnbounded, registry = Some []\<rparr> \<and>
    undisturbed (trace w)"
  using assms iffD2 [OF distinct_rev assms]
  by (simp add: loading_schedule_def rested_def sup_env_def run_simps undisturbed_def overseer_init_def VALUES_def LOADER_TOXIC_def loader_init_def
      checked_add_def await_restart_def parent_stopping_def backoff_step_def await_backoff_def
      catch_and_log_def catch_panic_and_log_def)

section \<open>Properties\<close>

text \<open>
  C23: the messages queued behind a failure are not lost, and nothing but the count is: in a system
  that no outside code sends messages to, in every interleaving, the only thing the overseer can
  receive is the signal of the loader, and by then the loader has loaded the values 1, 2, 3 and 4
  in order, has started over after each of the two toxic values, and has not been given up.
\<close>

theorem supervision_loads_all:
  assumes "actor_runtime env contents connected tx_alive receivers signalled sender_gone" and "sup_code env"
    and "main_config = Return cfg" and "sys_reach env (Overseer cfg) actor_config_default root w" and "undisturbed (trace w)"
    and "tasks w root = Some t" and "phase t = Receiving s up"
    and "next_incoming env root stopped w = Some (PolledIncoming i, w')"
  shows "\<exists>c. i = Terminated c \<and> fst (loader_run c (trace w)) =
    [LoaderInitialized, Loaded 1 1, Loaded 2 2, LoaderInitialized, Loaded 3 1, LoaderInitialized, Loaded 4 1]"
  using sup_runtime.loader_signal [OF sup_runtime.intro [OF assms(1) sup_runtime_axioms.intro [OF assms(2,3)]] assms(4-8)] .

theorem supervision_loads_all_witness:
  "\<exists>w t s w'. sys_reach sup_env (Overseer sup_cfg) actor_config_default (ActorId 1) w \<and> undisturbed (trace w) \<and>
     tasks w (ActorId 1) = Some t \<and> phase t = Receiving s 0 \<and>
     next_incoming sup_env (ActorId 1) None w = Some (PolledIncoming (Terminated (ActorId 2)), w') \<and>
     fst (loader_run (ActorId 2) (trace w)) =
       [LoaderInitialized, Loaded 1 1, Loaded 2 2, LoaderInitialized, Loaded 3 1, LoaderInitialized, Loaded 4 1]"
proof -
  have "distinct [ActorId 1, ActorId 2, ActorId 9]" by simp
  from loading_run [OF this] obtain w t where run: "sys_run sup_env (ActorId 1)
        (loading_schedule (ActorId 1) (ActorId 2) (ActorId 9)) (spawn_root sup_env (Overseer sup_cfg) actor_config_default (ActorId 1)) = Some w"
    and t: "tasks w (ActorId 1) = Some t" "phase t = Receiving OverseerState 0"
    and q: "watched w (ActorId 1) = [ActorId 2]" "mailboxes w (ActorId 1) =
        \<lparr>item_chan = \<lparr>items = [Terminated (ActorId 2)], rx_alive = True, some_tx = True\<rparr>, chan_quota = QUnbounded, registry = Some []\<rparr>"
      "undisturbed (trace w)"
    by blast
  obtain w' where polled: "next_incoming sup_env (ActorId 1) None w = Some (PolledIncoming (Terminated (ActorId 2)), w')"
    using q by (simp add: sup_env_def run_simps)
  note reach = sys_run_reach [OF sys_reach.sys_start run]
  from supervision_loads_all [OF list_sup.actor_runtime_axioms list_sup.code main_config_eq reach q(3) t polled] reach q(3) t polled
  show ?thesis by auto
qed

end
