(* ===== verification/PlainExamples.thy ===== *)
theory PlainExamples
  imports Delivery
begin

text \<open>
  \<^verbatim>\<open>tellus/examples/hello.rs\<close>, \<^verbatim>\<open>counter.rs\<close> and \<^verbatim>\<open>profile.rs\<close>: single actors that react to what
  \<^verbatim>\<open>main\<close> sends. A reply to an \<^verbatim>\<open>ask\<close> goes to the token of its \<^verbatim>\<open>ReplyTo\<close>; handlers return what
  they print and reply beside their result.
\<close>

section \<open>hello.rs\<close>

datatype greet = Greet string

definition greeter_init :: "(unit, infallible) call" where
  "greeter_init = Return ()"

fun greeter_receive :: "greet incoming \<Rightarrow> unit \<Rightarrow> string list \<times> (unit control, infallible) call" where
  "greeter_receive (Message (Greet name)) _ = ([''Hello, '' @ name @ ''!''], Return Stop)"
| "greeter_receive (Terminated _) _ = ([], Return Stop)"

section \<open>counter.rs\<close>

type_synonym token = nat

datatype counter_message = Increment | Get token | StopCounter

definition counter_init :: "(u64, infallible) call" where
  "counter_init = Return 0"

fun counter_receive :: "counter_message incoming \<Rightarrow> u64 \<Rightarrow> (token \<times> u64) list \<times> (u64 control, infallible) call" where
  "counter_receive (Message Increment) count =
     (case checked_add count 1 of Some c \<Rightarrow> ([], Return (Continue c)) | None \<Rightarrow> ([], Panic))"
| "counter_receive (Message (Get r)) count = ([(r, count)], Return (Continue count))"
| "counter_receive (Message StopCounter) count = ([], Return Stop)"
| "counter_receive (Terminated _) count = ([], Panic)"

section \<open>profile.rs\<close>

text \<open>\<^verbatim>\<open>checked_sub(1).filter(|n| *n > 0).map_or(Control::Stop, Control::Continue)\<close>\<close>

definition next_control :: "usize \<Rightarrow> usize control" where
  "next_control left =
     (case Option.bind (checked_sub left 1) (\<lambda>n. if 0 < n then Some n else None) of
        None \<Rightarrow> Stop
      | Some n \<Rightarrow> Continue n)"

definition countdown_receive :: "unit incoming \<Rightarrow> usize \<Rightarrow> (usize control, infallible) call" where
  "countdown_receive i left = Return (next_control left)"

fun echo_receive :: "token incoming \<Rightarrow> usize \<Rightarrow> (token \<times> usize) list \<times> (usize control, infallible) call" where
  "echo_receive (Message r) left = ([(r, left)], Return (next_control left))"
| "echo_receive (Terminated _) left = ([], Return (next_control left))"

text \<open>A countdown of \<open>n\<close> receives \<open>max 1 n\<close> items.\<close>

fun countdown_items :: "nat \<Rightarrow> usize \<Rightarrow> nat option" where
  "countdown_items 0 left = None"
| "countdown_items (Suc fuel) left =
     (case next_control left of Stop \<Rightarrow> Some 1 | Continue n \<Rightarrow> map_option Suc (countdown_items fuel n))"

lemma next_control_Continue: "next_control left = Continue n \<longleftrightarrow> 1 < unat left \<and> Suc (unat n) = unat left"
proof (cases "checked_sub left 1")
  case None
  then show ?thesis by (auto simp: next_control_def checked_sub_def word_le_nat_alt split: if_splits)
next
  case (Some k)
  then have "unat left = Suc (unat k)" using checked_sub_unat [of left 1 k] by (simp add: checked_sub_def split: if_splits)
  with Some show ?thesis by (auto simp: next_control_def word_gt_0 word_unat_eq_iff split: if_splits)
qed

lemma countdown_counts:
  "unat left \<le> fuel \<Longrightarrow> 0 < fuel \<Longrightarrow> countdown_items fuel left = Some (max 1 (unat left))"
proof (induction fuel arbitrary: left)
  case (Suc fuel)
  show ?case
  proof (cases "next_control left")
    case (Continue n)
    then have n: "1 < unat left" "Suc (unat n) = unat left" by (auto simp: next_control_Continue)
    with Suc.IH [of n] Suc.prems Continue show ?thesis by simp
  next
    case Stop
    have "\<not> 1 < unat left"
    proof
      assume l: "1 < unat left"
      then have "unat (left - 1) = unat left - 1" by (simp add: unat_sub word_le_nat_alt)
      with l have "next_control left = Continue (left - 1)" by (simp add: next_control_Continue)
      with Stop show False by simp
    qed
    with Stop show ?thesis by simp
  qed
qed simp

section \<open>A running counter\<close>

definition counter_code :: "('c, 'w, unit, counter_message, u64, infallible) env \<Rightarrow> bool" where
  "counter_code env \<longleftrightarrow> init_code env = (\<lambda>_ _. Ret counter_init) \<and>
     receive_code env = (\<lambda>_ _ i s. Ret (snd (counter_receive i s)))"

definition increments :: "counter_message incoming list \<Rightarrow> nat" where
  "increments is = length (filter (\<lambda>i. i = Message Increment) is)"

definition counter_inv ::
  "actor_id \<Rightarrow> counter_message event list \<Rightarrow> (unit, counter_message, u64, infallible) phase \<Rightarrow> bool" where
  "counter_inv me h ph \<longleftrightarrow>
     (case ph of
        Starting \<Rightarrow> h = []
      | Initializing p \<Rightarrow> p = Ret (Return 0) \<and> delivered me h = []
      | Receiving c _ \<Rightarrow> unat c = increments (delivered me h)
      | Handling _ p \<Rightarrow> (\<exists>c i is. delivered me h = is @ [i] \<and> p = Ret (snd (counter_receive i c)) \<and> unat c = increments is)
      | _ \<Rightarrow> True)"

lemma counter_next: "snd (counter_receive i c) = Return (Continue c') \<Longrightarrow> unat c' = unat c + increments [i]"
  by (cases "(i, c)" rule: counter_receive.cases) (auto simp: increments_def checked_add_unat split: option.splits)

lemma counter_behaves:
  assumes "behaves env k actor_config_default me h l kids st g ph" and code: "counter_code env"
  shows "counter_inv me h ph"
  using assms(1)
proof (induction rule: behaves.induct)
  case (initializing h l kids st g p es ls ks p')
  then show ?case by (auto simp: counter_inv_def elim: calls.cases)
next
  case (handling h l kids st g up p es ls ks p')
  then show ?case by (auto simp: counter_inv_def elim: calls.cases)
next
  case (init_ok h l kids st g r s now)
  then show ?case by (auto simp: counter_inv_def catch_and_log_Some increments_def)
next
  case (receiving h l kids st g s up i)
  then show ?case using code by (auto simp: counter_inv_def counter_code_def)
next
  case (continues h l kids st g up r s)
  then obtain c i "is" where "delivered me h = is @ [i]" "r = snd (counter_receive i c)" "unat c = increments is"
    by (auto simp: counter_inv_def)
  with continues(2) counter_next [of i c s] show ?case by (simp add: counter_inv_def catch_and_log_Some increments_def)
next
  case (restarting h l kids st g up d)
  then show ?case by (simp add: actor_config_default_def)
next
  case (restarted h l kids st g d)
  with behaves_no_restart [OF restarted.hyps] show ?case by (simp add: actor_config_default_def)
next
  case (closing h l kids st g p q g')
  then show ?case by (cases q) (simp_all add: counter_inv_def)
qed (use code in \<open>auto simp: counter_inv_def counter_code_def counter_init_def\<close>)

locale counter_runtime =
  actor_runtime env contents connected tx_alive receivers signalled sender_gone
  for env :: "('c, 'w, unit, counter_message, u64, infallible) env"
    and contents :: "'c \<Rightarrow> counter_message incoming list" and connected tx_alive :: "'c \<Rightarrow> bool"
    and receivers :: "'w \<Rightarrow> nat" and signalled sender_gone :: "'w \<Rightarrow> bool" +
  assumes code: "counter_code env"
begin

lemma counted:
  assumes reach: "sys_reach env () actor_config_default root w" and t: "tasks w root = Some t" "phase t = Receiving c up"
    and polled: "next_incoming env root stopped w = Some (PolledIncoming i, w')"
  shows "unat c = increments (taken root (trace w)) \<and> (\<exists>later. enqueued root (trace w) = taken root (trace w) @ i # later)"
proof -
  have "task_actor t = ()" "task_config t = actor_config_default" using root_task [OF reach] t(1) by auto
  then obtain l kids st where "behaves env () actor_config_default root (local_history root (trace w)) l kids st (generation w root) (phase t)"
    using reach_lives [OF reach t(1)] by metis
  from counter_behaves [OF this code] have "unat c = increments (delivered root (trace w))"
    by (simp add: counter_inv_def t(2) delivered_local)
  also have "\<dots> = increments (taken root (trace w))"
  proof -
    have "filter is_message (taken root (trace w)) = filter is_message (delivered root (trace w))"
      using sys_reach_loss [OF reach] t by (intro taken_messages) (fastforce simp: loss_inv_def)
    moreover have "increments is = increments (filter is_message is)" for "is"
      by (auto simp: increments_def intro!: arg_cong [of _ _ length] filter_cong)
    ultimately show ?thesis by metis
  qed
  finally have "unat c = increments (taken root (trace w))" .
  moreover obtain mb where "mailbox_recv (env_flume env) (mailboxes w root) = Received i mb"
    using polled_recv [OF polled] by blast
  then have "contents (item_chan (mailboxes w root)) = i # contents (item_chan mb)" by (simp add: mbx.recv_queue)
  then have "enqueued root (trace w) = taken root (trace w) @ i # contents (item_chan mb)"
    using queue_invD [OF sys_reach_queue [OF reach], of root] t(1) by simp
  ultimately show ?thesis by blast
qed

end

definition counter_env ::
  "(counter_message incoming list_channel, watch_state, unit, counter_message, u64, infallible) env" where
  "counter_env = list_env (\<lambda>_ _. Ret counter_init) (\<lambda>_ _ i s. Ret (snd (counter_receive i s)))"

interpretation list_counter: counter_runtime counter_env items rx_alive some_tx ws_receivers ws_sent ws_sender_gone
  unfolding counter_env_def
proof (intro counter_runtime.intro counter_runtime_axioms.intro list_rt.actor_runtime_axioms)
  show "counter_code (list_env (\<lambda>_ _. Ret counter_init) (\<lambda>_ _ i s. Ret (snd (counter_receive i s))))"
    by (simp add: counter_code_def list_env_def)
qed

text \<open>\<^verbatim>\<open>main\<close> sends three increments and asks; the counter starts and handles the increments.\<close>

definition counting_schedule :: "actor_id \<Rightarrow> actor_id \<Rightarrow> counter_message action list" where
  "counting_schedule r f =
     map (DoTell r) [Increment, Increment, Increment, Get 7] @ map (run_with f) [r, r, r, r, r, r, r, r]"

lemma counting_run:
  assumes "r \<noteq> f"
  shows "\<exists>w t. sys_run counter_env r (counting_schedule r f) (spawn_root counter_env () actor_config_default r) = Some w \<and>
    tasks w r = Some t \<and> phase t = Receiving 3 0 \<and> increments (taken r (trace w)) = 3 \<and>
    mailboxes w r = \<lparr>item_chan = \<lparr>items = [Message (Get 7)], rx_alive = True, some_tx = True\<rparr>, chan_quota = QUnbounded, registry = Some []\<rparr>"
  using assms not_sym [OF assms]
  by (simp add: counting_schedule_def counter_env_def run_simps counter_init_def checked_add_def increments_def)

section \<open>Properties\<close>

text \<open>
  C24: the reply to an \<^verbatim>\<open>ask\<close> of the counter reflects every increment told before it: whoever sends
  in whatever interleaving, when the counter gets to a request, it replies the number of increments
  that are before the request in its mailbox's history, and this number has not overflowed.
\<close>

theorem counter_reply_reflects:
  assumes "actor_runtime env contents connected tx_alive receivers signalled sender_gone" and "counter_code env"
    and "sys_reach env () actor_config_default root w" and "tasks w root = Some t" and "phase t = Receiving c up"
    and "next_incoming env root stopped w = Some (PolledIncoming (Message (Get r)), w')"
  shows "\<exists>before later. enqueued root (trace w) = before @ Message (Get r) # later \<and> before = taken root (trace w) \<and>
    counter_receive (Message (Get r)) c = ([(r, of_nat (increments before))], Return (Continue c)) \<and> increments before < 2 ^ 64"
proof -
  have "counter_runtime env contents connected tx_alive receivers signalled sender_gone"
    by (intro counter_runtime.intro counter_runtime_axioms.intro assms(1,2))
  from counter_runtime.counted [OF this assms(3-6)]
  have n: "increments (taken root (trace w)) = unat c" and e: "\<exists>later. enqueued root (trace w) = taken root (trace w) @ Message (Get r) # later"
    by simp_all
  have "unat c < 2 ^ 64" using unsigned_less [of c] by simp
  with e show ?thesis by (simp add: n)
qed

theorem counter_reply_reflects_witness:
  "\<exists>w t w'. sys_reach counter_env () actor_config_default (ActorId 1) w \<and> tasks w (ActorId 1) = Some t \<and> phase t = Receiving 3 0 \<and>
     next_incoming counter_env (ActorId 1) None w = Some (PolledIncoming (Message (Get 7)), w') \<and>
     increments (taken (ActorId 1) (trace w)) = 3 \<and>
     counter_receive (Message (Get 7)) 3 = ([(7, of_nat (increments (taken (ActorId 1) (trace w))))], Return (Continue 3))"
proof -
  have "ActorId 1 \<noteq> ActorId 9" by simp
  from counting_run [OF this] obtain w t where run: "sys_run counter_env (ActorId 1) (counting_schedule (ActorId 1) (ActorId 9))
        (spawn_root counter_env () actor_config_default (ActorId 1)) = Some w"
    and t: "tasks w (ActorId 1) = Some t" "phase t = Receiving 3 0" and n: "increments (taken (ActorId 1) (trace w)) = 3"
    and q: "mailboxes w (ActorId 1) =
        \<lparr>item_chan = \<lparr>items = [Message (Get 7)], rx_alive = True, some_tx = True\<rparr>, chan_quota = QUnbounded, registry = Some []\<rparr>"
    by blast
  obtain w' where polled: "next_incoming counter_env (ActorId 1) None w = Some (PolledIncoming (Message (Get 7)), w')"
    using q by (simp add: counter_env_def run_simps)
  note reach = sys_run_reach [OF sys_reach.sys_start run]
  from counter_reply_reflects [OF list_counter.actor_runtime_axioms list_counter.code reach t polled] reach t n polled
  show ?thesis by auto
qed

end
