(* ===== verification/Devices.thy ===== *)
theory Devices
  imports World "HOL-Library.Multiset"
begin

text \<open>
  \<^verbatim>\<open>tellus/examples/device_manager.rs\<close>: the root routes readings to groups and those to devices, and
  a query per request computes the average of a group. The actors are programs on the modelled
  API. The operations on \<^verbatim>\<open>f64\<close> are an argument: nothing below depends on their rounding. Hash
  maps are association lists, and \<^verbatim>\<open>values()\<close> visits them in the order of the list.
\<close>

section \<open>Messages and states\<close>

record 'f f64_ops =
  f64_zero :: 'f
  f64_add :: "'f \<Rightarrow> 'f \<Rightarrow> 'f"
  f64_div :: "'f \<Rightarrow> 'f \<Rightarrow> 'f"
  f64_from_u32 :: "u32 \<Rightarrow> 'f"
  f64_is_nan :: "'f \<Rightarrow> bool"

text \<open>
  A \<^verbatim>\<open>ReplyTo<Option<f64>>\<close> is the token of an \<^verbatim>\<open>ask\<close>, or was made by a query for one of the
  devices.
\<close>

datatype reading_to = ToAsker nat | ToQuery actor_id actor_id

datatype 'f command =
    Record string string 'f
  | Average string reading_to
  | Shutdown

datatype 'f group_message = GroupRecord string 'f | GroupAverage reading_to

datatype 'f query_message = Start "actor_id list" reading_to | Reading actor_id "'f option"

datatype 'f device_message = DeviceRecord 'f | Read reading_to

datatype 'f home_message =
    ToDeviceManager "'f command"
  | ToGroup "'f group_message"
  | ToQueryActor "'f query_message"
  | ToDevice "'f device_message"

datatype home_actor = DeviceManager | Group (group_name: string) | Query | Device (device_group: string) (device_name: string)

datatype 'f query_state =
    QueryStarting
  | QueryRunning (pending: "(actor_id \<times> actor_id) list") (sum_of: 'f) (count_of: u32) (query_reply: reading_to)

datatype invalid_reading = InvalidReading

text \<open>What handlers do outside of the API: replies to askers, and lines on the terminal.\<close>

datatype 'f home_output = Replied nat "'f option" | Recorded string string 'f

type_synonym ('f, 's, 'e) handled =
  "'f home_output list \<times> (home_actor, 'f home_message, ('s control, 'e) call) prog"

fun reply_reading ::
  "reading_to \<Rightarrow> 'f option \<Rightarrow> (home_actor, 'f home_message, 'r) prog
     \<Rightarrow> 'f home_output list \<times> (home_actor, 'f home_message, 'r) prog" where
  "reply_reading (ToAsker r) v p = ([Replied r v], p)"
| "reply_reading (ToQuery q d) v p = ([], Tell q (ToQueryActor (Reading d v)) p)"

section \<open>The device manager\<close>

type_synonym registry_map = "(string \<times> actor_id) list"

definition retain_others :: "actor_id \<Rightarrow> registry_map \<Rightarrow> registry_map" where
  "retain_others a m = filter (\<lambda>(_, b). b \<noteq> a) m"

text \<open>\<^verbatim>\<open>entry(key).or_insert_with(..)\<close>, then the rest of the handler with the reference.\<close>

definition entry_or_spawn ::
  "registry_map \<Rightarrow> string \<Rightarrow> home_actor \<Rightarrow> actor_config
     \<Rightarrow> (actor_id \<Rightarrow> registry_map \<Rightarrow> (home_actor, 'f home_message, 'r) prog) \<Rightarrow> (home_actor, 'f home_message, 'r) prog" where
  "entry_or_spawn m key actor config p =
     (case map_of m key of
        Some a \<Rightarrow> p a m
      | None \<Rightarrow> Spawn actor config (\<lambda>a. Watch a (p a (AList.update key a m))))"

definition device_manager_init :: "(registry_map, infallible) call" where
  "device_manager_init = Return []"

fun device_manager_receive :: "'f command incoming \<Rightarrow> registry_map \<Rightarrow> ('f, registry_map, infallible) handled" where
  "device_manager_receive (Message (Record name device degrees)) groups =
     ([], entry_or_spawn groups name (Group name) actor_config_default (\<lambda>group_ref groups.
        Tell group_ref (ToGroup (GroupRecord device degrees)) (Ret (Return (Continue groups)))))"
| "device_manager_receive (Message (Average name r)) groups =
     (case map_of groups name of
        Some group_ref \<Rightarrow> ([], Tell group_ref (ToGroup (GroupAverage r)) (Ret (Return (Continue groups))))
      | None \<Rightarrow> reply_reading r None (Ret (Return (Continue groups))))"
| "device_manager_receive (Message Shutdown) groups = ([], Ret (Return Stop))"
| "device_manager_receive (Terminated a) groups = ([], Ret (Return (Continue (retain_others a groups))))"

section \<open>Groups\<close>

definition DEVICE_MAX_RESTARTS :: u32 where
  "DEVICE_MAX_RESTARTS = 3"

text \<open>\<^const>\<open>None\<close> is the panic of the default backoff.\<close>

definition device_config :: "actor_config option" where
  "device_config =
     map_option (\<lambda>policy. with_supervision_strategy actor_config_default (Restart policy))
       (restart_policy_new DEVICE_MAX_RESTARTS)"

definition group_init :: "(registry_map, infallible) call" where
  "group_init = Return []"

fun group_receive :: "string \<Rightarrow> 'f group_message incoming \<Rightarrow> registry_map \<Rightarrow> ('f, registry_map, infallible) handled" where
  "group_receive name (Message (GroupRecord device degrees)) devices =
     ([], case (map_of devices device, device_config) of
            (None, None) \<Rightarrow> Ret Panic
          | (_, config) \<Rightarrow>
              entry_or_spawn devices device (Device name device) (case config of Some c \<Rightarrow> c | None \<Rightarrow> actor_config_default)
                (\<lambda>device_ref devices. Tell device_ref (ToDevice (DeviceRecord degrees)) (Ret (Return (Continue devices)))))"
| "group_receive name (Message (GroupAverage r)) devices =
     ([], Spawn Query actor_config_default (\<lambda>query.
        Tell query (ToQueryActor (Start (map snd devices) r)) (Ret (Return (Continue devices)))))"
| "group_receive name (Terminated a) devices = ([], Ret (Return (Continue (retain_others a devices))))"

section \<open>Queries\<close>

definition query_init :: "('f query_state, infallible) call" where
  "query_init = Return QueryStarting"

fun ask_devices ::
  "actor_id \<Rightarrow> actor_id list \<Rightarrow> (actor_id \<times> actor_id) list
     \<Rightarrow> ((actor_id \<times> actor_id) list \<Rightarrow> (home_actor, 'f home_message, 'r) prog) \<Rightarrow> (home_actor, 'f home_message, 'r) prog" where
  "ask_devices me [] asked p = p asked"
| "ask_devices me (d # ds) asked p =
     Watch d (Tell d (ToDevice (Read (ToQuery me d))) (ask_devices me ds (AList.update d d asked) p))"

definition conclude ::
  "'f f64_ops \<Rightarrow> (actor_id \<times> actor_id) list \<Rightarrow> 'f \<Rightarrow> u32 \<Rightarrow> reading_to \<Rightarrow> ('f, 'f query_state, infallible) handled" where
  "conclude F left acc n r =
     (if left = []
      then reply_reading r (if 0 < n then Some (f64_div F acc (f64_from_u32 F n)) else None) (Ret (Return Stop))
      else ([], Ret (Return (Continue (QueryRunning left acc n r)))))"

fun query_receive ::
  "'f f64_ops \<Rightarrow> actor_id \<Rightarrow> 'f query_message incoming \<Rightarrow> 'f query_state \<Rightarrow> ('f, 'f query_state, infallible) handled" where
  "query_receive F me (Message (Start devices r)) state =
     (if devices = [] then reply_reading r None (Ret (Return Stop))
      else ([], ask_devices me devices [] (\<lambda>asked. Ret (Return (Continue (QueryRunning asked (f64_zero F) 0 r))))))"
| "query_receive F me (Message (Reading d reading)) (QueryRunning left acc n r) =
     (let left' = AList.delete d left;
          unwatching = (case map_of left d of Some device \<Rightarrow> Unwatch device | None \<Rightarrow> (\<lambda>p. p))
      in case reading of
           None \<Rightarrow> apsnd unwatching (conclude F left' acc n r)
         | Some degrees \<Rightarrow>
             (case checked_add n 1 of
                None \<Rightarrow> ([], unwatching (Ret Panic))
              | Some n' \<Rightarrow> apsnd unwatching (conclude F left' (f64_add F acc degrees) n' r)))"
| "query_receive F me (Terminated d) (QueryRunning left acc n r) = conclude F (AList.delete d left) acc n r"
| "query_receive F me _ QueryStarting = ([], Ret Panic)"

section \<open>Devices\<close>

definition device_init :: "('f option, invalid_reading) call" where
  "device_init = Return None"

fun device_receive ::
  "'f f64_ops \<Rightarrow> string \<Rightarrow> string \<Rightarrow> 'f device_message incoming \<Rightarrow> 'f option \<Rightarrow> ('f, 'f option, invalid_reading) handled" where
  "device_receive F grp name (Message (DeviceRecord degrees)) last_reading =
     (if f64_is_nan F degrees then ([], Ret (Fail InvalidReading))
      else ([Recorded grp name degrees], Ret (Return (Continue (Some degrees)))))"
| "device_receive F grp name (Message (Read r)) last_reading =
     reply_reading r last_reading (Ret (Return (Continue last_reading)))"
| "device_receive F grp name (Terminated _) last_reading = ([], Ret Panic)"

section \<open>A query from its start to its reply\<close>

text \<open>The calls of a program that spawns nothing, with its result.\<close>

datatype 'm did = DidTell actor_id 'm | DidWatch actor_id | DidUnwatch actor_id

primrec perform :: "('k, 'm, 'r) prog \<Rightarrow> ('m did list \<times> 'r) option" where
  "perform (Ret r) = Some ([], r)"
| "perform (Tell a m p) = map_option (apfst (Cons (DidTell a m))) (perform p)"
| "perform (Watch a p) = map_option (apfst (Cons (DidWatch a))) (perform p)"
| "perform (Unwatch a p) = map_option (apfst (Cons (DidUnwatch a))) (perform p)"
| "perform (Spawn k c p) = None"

text \<open>
  A query that receives some items one after the other: its replies to askers, its calls, whether
  it goes on, has stopped or failed (\<^const>\<open>None\<close>), and the items it did not get to.
\<close>

fun query_run ::
  "'f f64_ops \<Rightarrow> actor_id \<Rightarrow> 'f query_state \<Rightarrow> 'f query_message incoming list
     \<Rightarrow> 'f home_output list \<times> 'f home_message did list \<times> 'f query_state control option \<times> 'f query_message incoming list" where
  "query_run F me s [] = ([], [], Some (Continue s), [])"
| "query_run F me s (i # is) =
     (case query_receive F me i s of (out, p) \<Rightarrow>
        (case perform p of
           Some (did, Return (Continue s')) \<Rightarrow>
             (case query_run F me s' is of (out', did', c, rest) \<Rightarrow> (out @ out', did @ did', c, rest))
         | Some (did, Return Stop) \<Rightarrow> (out, did, Some Stop, is)
         | _ \<Rightarrow> (out, [], None, is)))"

text \<open>What a device does for a query: it answers once, or it has terminated.\<close>

datatype 'f response = Answer (responder: actor_id) "'f option" | Gone (responder: actor_id)

fun as_incoming :: "'f response \<Rightarrow> 'f query_message incoming" where
  "as_incoming (Answer d v) = Message (Reading d v)"
| "as_incoming (Gone d) = Terminated d"

fun readings :: "'f response list \<Rightarrow> 'f list" where
  "readings [] = []"
| "readings (Answer _ (Some v) # rs) = v # readings rs"
| "readings (_ # rs) = readings rs"

fun unwatches :: "'f response list \<Rightarrow> 'f home_message did list" where
  "unwatches [] = []"
| "unwatches (Answer d _ # rs) = DidUnwatch d # unwatches rs"
| "unwatches (Gone _ # rs) = unwatches rs"

definition average :: "'f f64_ops \<Rightarrow> 'f \<Rightarrow> u32 \<Rightarrow> 'f option" where
  "average F acc n = (if 0 < n then Some (f64_div F acc (f64_from_u32 F n)) else None)"

lemma perform_ask:
  "perform (ask_devices me ds asked p) =
     map_option (apfst ((@) (concat (map (\<lambda>d. [DidWatch d, DidTell d (ToDevice (Read (ToQuery me d)))]) ds))))
       (perform (p (fold (\<lambda>d. AList.update d d) ds asked)))"
proof (induction ds arbitrary: asked)
  case Nil
  show ?case by (cases "perform (p asked)") auto
next
  case (Cons d ds)
  then show ?case by (cases "perform (p (fold (\<lambda>d. AList.update d d) ds (AList.update d d asked)))") auto
qed

lemma pending_asked: "fst ` set (fold (\<lambda>d. AList.update d d) ds asked) = fst ` set asked \<union> set ds"
  by (induction ds arbitrary: asked) auto

lemma pending_self:
  "\<forall>d. d \<in> fst ` set asked \<longrightarrow> map_of asked d = Some d \<Longrightarrow> d \<in> fst ` set (fold (\<lambda>d. AList.update d d) ds asked) \<Longrightarrow>
     map_of (fold (\<lambda>d. AList.update d d) ds asked) d = Some d"
proof (induction ds arbitrary: asked)
  case (Cons e ds)
  have "\<forall>d. d \<in> fst ` set (AList.update e e asked) \<longrightarrow> map_of (AList.update e e asked) d = Some d"
    using Cons.prems(1) by (auto simp: update_conv')
  with Cons show ?case by simp
qed simp

lemma query_step:
  assumes "map_of left (responder x) = Some (responder x)" and "unat n < 2 ^ 32 - 1"
  shows "\<exists>did acc' n'. query_receive F me (as_incoming x) (QueryRunning left acc n r) =
      apsnd did (conclude F (AList.delete (responder x) left) acc' n' r) \<and>
    acc' = foldl (f64_add F) acc (readings [x]) \<and> n' = n + of_nat (length (readings [x])) \<and>
    (\<forall>p. perform (did p) = map_option (apfst ((@) (unwatches [x]))) (perform p))"
proof (cases x)
  case (Answer d v)
  show ?thesis
  proof (cases v)
    case None
    with Answer assms(1) show ?thesis by (intro exI [of _ "Unwatch d"]) (auto intro: option.map_cong)
  next
    case (Some y)
    have "checked_add n 1 = Some (n + 1)" using assms(2) by (simp add: checked_add_def)
    with Answer Some assms(1) show ?thesis by (intro exI [of _ "Unwatch d"]) (auto intro: option.map_cong)
  qed
next
  case (Gone d)
  show ?thesis unfolding Gone by (intro exI [of _ "\<lambda>p. p"]) (auto simp: apsnd_def apfst_def map_prod_def option.map_id)
qed

lemma readings_Cons: "readings (x # rs) = readings [x] @ readings rs"
  by (cases "x # rs" rule: readings.cases) auto

lemma readings_single: "length (readings [x]) \<le> 1"
  by (cases "[x]" rule: readings.cases) auto

lemma unwatches_Cons: "unwatches (x # rs) = unwatches [x] @ unwatches rs"
  by (cases x) auto

lemma query_responds:
  assumes "distinct (map responder rs)" and "set (map responder rs) \<subseteq> fst ` set left"
    and "\<forall>d \<in> fst ` set left. map_of left d = Some d" and "unat n + length rs < 2 ^ 32"
  shows "query_run F me (QueryRunning left acc n (ToAsker k)) (map as_incoming rs) =
    (let left' = fold AList.delete (map responder rs) left; acc' = foldl (f64_add F) acc (readings rs);
         n' = n + of_nat (length (readings rs))
     in if left' = [] \<and> rs \<noteq> [] then ([Replied k (average F acc' n')], unwatches rs, Some Stop, [])
        else ([], unwatches rs, Some (Continue (QueryRunning left' acc' n' (ToAsker k))), []))"
  using assms
proof (induction rs arbitrary: left acc n)
  case (Cons x rs)
  let ?left = "AList.delete (responder x) left" and ?n = "n + of_nat (length (readings [x]))"
    and ?acc = "foldl (f64_add F) acc (readings [x])"
  have "map_of left (responder x) = Some (responder x)" "unat n < 2 ^ 32 - 1" using Cons.prems by auto
  from query_step [OF this, of F me acc "ToAsker k"] obtain did where
    step: "query_receive F me (as_incoming x) (QueryRunning left acc n (ToAsker k)) = apsnd did (conclude F ?left ?acc ?n (ToAsker k))"
    and did: "\<forall>p. perform (did p) = map_option (apfst ((@) (unwatches [x]))) (perform p)" by blast
  show ?case
  proof (cases "?left = []")
    case True
    then have "fst ` set left \<subseteq> {responder x}" using fst_set_delete [of "responder x" left] by auto
    then have "rs = []" using Cons.prems(1,2) by (cases rs) auto
    with True step did show ?thesis by (simp add: conclude_def average_def)
  next
    case False
    have "unat ?n \<le> unat n + 1"
      using readings_single [of x] unat_word_ariths(1) [of n "of_nat (length (readings [x]))"] by (cases "length (readings [x])") (auto intro: mod_less_eq_dividend)
    moreover have "set (map responder rs) \<subseteq> fst ` set ?left" using Cons.prems(1,2) by (simp add: subset_Diff_insert)
    ultimately have "query_run F me (QueryRunning ?left ?acc ?n (ToAsker k)) (map as_incoming rs) =
      (let left' = fold AList.delete (map responder rs) ?left; acc' = foldl (f64_add F) ?acc (readings rs);
           n' = ?n + of_nat (length (readings rs))
       in if left' = [] \<and> rs \<noteq> [] then ([Replied k (average F acc' n')], unwatches rs, Some Stop, [])
          else ([], unwatches rs, Some (Continue (QueryRunning left' acc' n' (ToAsker k))), []))"
      using Cons.prems by (intro Cons.IH) (auto simp: delete_conv')
    with False step did show ?thesis
      by (auto simp: conclude_def readings_Cons [of x rs] unwatches_Cons [of x rs] Let_def add.assoc)
  qed
qed simp

lemma deleted_all: "fst ` set (fold AList.delete ds al) = fst ` set al - set ds"
  by (induction ds arbitrary: al) auto

section \<open>Registries\<close>

text \<open>
  What a registry promises: one entry per name, one name per actor. A spawned actor is new, and the
  signal of an actor removes its entry and no other.
\<close>

definition registry_ok :: "registry_map \<Rightarrow> bool" where
  "registry_ok m \<longleftrightarrow> distinct (map fst m) \<and> distinct (map snd m)"

lemma registry_spawn:
  assumes "registry_ok m" and "map_of m key = None" and "a \<notin> snd ` set m"
  shows "registry_ok (AList.update key a m) \<and> map_of (AList.update key a m) = (map_of m)(key \<mapsto> a)"
proof -
  have "AList.update key a m = m @ [(key, a)]" using assms(2)
    by (induction m) (auto split: if_splits)
  with assms have "registry_ok (AList.update key a m)" by (auto simp: registry_ok_def map_of_eq_None_iff)
  then show ?thesis by (simp add: update_conv')
qed

lemma registry_retain:
  assumes "registry_ok m"
  shows "registry_ok (retain_others a m) \<and> a \<notin> snd ` set (retain_others a m) \<and>
    (\<forall>key b. map_of (retain_others a m) key = Some b \<longleftrightarrow> map_of m key = Some b \<and> b \<noteq> a)"
proof -
  have d: "distinct (map fst m)" "distinct (map snd m)" using assms by (simp_all add: registry_ok_def)
  have "distinct (map fst (retain_others a m))" "distinct (map snd (retain_others a m))"
    unfolding retain_others_def using d by (auto intro: distinct_map_filter)
  with d show ?thesis by (auto simp: registry_ok_def map_of_eq_Some_iff retain_others_def)
qed

section \<open>Properties\<close>

text \<open>
  C25: a query replies once, with the average of the readings. Started for some devices, of which each
  answers once or has terminated, in any order, it asks and watches each device, does not reply
  before the last response, then replies the mean of the readings it got (none if there were none)
  and stops; it unwatches exactly the devices that answered, and it never fails.
\<close>

theorem query_replies_average:
  assumes "devices \<noteq> []" and "distinct devices" and "length devices < 2 ^ 32"
    and "mset (map responder rs) = mset devices"
  shows "query_run F me QueryStarting (Message (Start devices (ToAsker k)) # map as_incoming rs) =
      ([Replied k (average F (foldl (f64_add F) (f64_zero F) (readings rs)) (of_nat (length (readings rs))))],
       concat (map (\<lambda>d. [DidWatch d, DidTell d (ToDevice (Read (ToQuery me d)))]) devices) @ unwatches rs, Some Stop, []) \<and>
    (\<forall>n < length rs. \<exists>did s. query_run F me QueryStarting (Message (Start devices (ToAsker k)) # map as_incoming (take n rs)) =
      ([], did, Some (Continue s), []))"
proof -
  let ?asked = "fold (\<lambda>d. AList.update d d) devices []"
  let ?told = "concat (map (\<lambda>d. [DidWatch d, DidTell d (ToDevice (Read (ToQuery me d)))]) devices)"
  have asked: "fst ` set ?asked = set devices" by (simp add: pending_asked)
  have self: "\<forall>d \<in> fst ` set ?asked. map_of ?asked d = Some d" using pending_self [of "[]" _ devices] by simp
  have set_rs: "set (map responder rs) = set devices" using assms(4) mset_eq_setD by blast
  have dist: "distinct (map responder rs)" using assms(2,4) mset_eq_imp_distinct_iff by blast
  have len: "length rs = length devices" using assms(4) by (metis length_map mset_eq_length)
  have run: "query_run F me QueryStarting (Message (Start devices (ToAsker k)) # map as_incoming qs) =
      (case query_run F me (QueryRunning ?asked (f64_zero F) 0 (ToAsker k)) (map as_incoming qs) of
         (out, did, c, rest) \<Rightarrow> (out, ?told @ did, c, rest))" for qs
    using assms(1) by (simp add: perform_ask split: prod.split)
  note responds = query_responds [OF _ _ self, of _ 0 F me "f64_zero F" k]
  have "fold AList.delete (map responder rs) ?asked = []"
    using deleted_all [of "map responder rs" ?asked] asked set_rs by auto
  moreover have "rs \<noteq> []" using assms(1) len by auto
  ultimately have whole: "query_run F me QueryStarting (Message (Start devices (ToAsker k)) # map as_incoming rs) =
      ([Replied k (average F (foldl (f64_add F) (f64_zero F) (readings rs)) (of_nat (length (readings rs))))],
       ?told @ unwatches rs, Some Stop, [])"
    unfolding run using responds [of rs] dist set_rs asked assms(3) len by simp
  have "\<exists>did s. query_run F me QueryStarting (Message (Start devices (ToAsker k)) # map as_incoming (take n rs)) = ([], did, Some (Continue s), [])"
    if n: "n < length rs" for n
  proof -
    have "responder (rs ! n) \<notin> set (map responder (take n rs))"
    proof -
      have "distinct (map responder (take n rs @ rs ! n # drop (Suc n) rs))" using dist id_take_nth_drop [OF n] by metis
      then show ?thesis by auto
    qed
    moreover have "responder (rs ! n) \<in> fst ` set ?asked" using n asked set_rs by (metis image_eqI nth_mem set_map)
    ultimately have "fold AList.delete (map responder (take n rs)) ?asked \<noteq> []"
      using deleted_all [of "map responder (take n rs)" ?asked] by auto
    moreover have "distinct (map responder (take n rs))" "set (map responder (take n rs)) \<subseteq> fst ` set ?asked"
      using dist set_rs asked by (auto simp: take_map [symmetric] dest: in_set_takeD)
    ultimately show ?thesis unfolding run using responds [of "take n rs"] assms(3) len n by (auto simp: Let_def)
  qed
  with whole show ?thesis by blast
qed

definition int_ops :: "int f64_ops" where
  "int_ops = \<lparr>f64_zero = 0, f64_add = (+), f64_div = (div), f64_from_u32 = uint, f64_is_nan = (\<lambda>_. False)\<rparr>"

theorem query_replies_average_witness:
  "let devices = [ActorId 1, ActorId 2, ActorId 3]; rs = [Answer (ActorId 2) (Some 20), Gone (ActorId 1), Answer (ActorId 3) (Some 10)] in
   mset (map responder rs) = mset devices \<and>
   fst (query_run int_ops (ActorId 9) QueryStarting (Message (Start devices (ToAsker 5)) # map as_incoming rs)) = [Replied 5 (Some 15)]"
proof -
  let ?devices = "[ActorId 1, ActorId 2, ActorId 3]"
  let ?rs = "[Answer (ActorId 2) (Some 20), Gone (ActorId 1), Answer (ActorId 3) (Some 10)] :: int response list"
  have "mset (map responder ?rs) = mset ?devices" by (simp add: add_mset_commute)
  with query_replies_average [of ?devices ?rs int_ops "ActorId 9" 5] show ?thesis
    by (simp add: average_def int_ops_def)
qed

end
