(* ===== verification/PersistenceIds.thy ===== *)
theory PersistenceIds
  imports Prelude
begin

text \<open>
  The identifiers of persistence: positions in an event stream (\<^verbatim>\<open>seq_no.rs\<close>), schema versions
  (\<^verbatim>\<open>schema_version.rs\<close>) and persistence IDs with their string form (\<^verbatim>\<open>persistence_id.rs\<close>). A
  Rust \<^verbatim>\<open>str\<close> is its UTF-8 bytes, so a \<^typ>\<open>string\<close> here is a list of bytes and its length is
  \<^verbatim>\<open>str::len\<close>.
\<close>

section \<open>Sequence numbers and schema versions\<close>

datatype seq_no = SeqNo (as_u64: u64)

definition seq_no_zero :: seq_no where
  "seq_no_zero = SeqNo 0"

definition seq_no_succ :: "seq_no \<Rightarrow> seq_no" where
  "seq_no_succ n = SeqNo (saturating_add (as_u64 n) 1)"

definition advanced_by :: "seq_no \<Rightarrow> nat \<Rightarrow> seq_no" where
  "advanced_by n count = SeqNo (saturating_add (as_u64 n) (of_nat count))"

datatype schema_version = SchemaVersion (as_u16: u16)

text \<open>Positions are ordered by their number, the derived \<^verbatim>\<open>Ord\<close>.\<close>

instantiation seq_no :: linorder
begin

definition less_eq_seq_no :: "seq_no \<Rightarrow> seq_no \<Rightarrow> bool" where
  "less_eq_seq_no a b \<longleftrightarrow> as_u64 a \<le> as_u64 b"

definition less_seq_no :: "seq_no \<Rightarrow> seq_no \<Rightarrow> bool" where
  "less_seq_no a b \<longleftrightarrow> as_u64 a < as_u64 b"

instance
  by standard (auto simp: less_eq_seq_no_def less_seq_no_def seq_no.expand)

end

text \<open>The position as a number, and the position of a number.\<close>

definition position :: "seq_no \<Rightarrow> nat" where
  "position n = unat (as_u64 n)"

definition at_position :: "nat \<Rightarrow> seq_no" where
  "at_position n = SeqNo (of_nat n)"

lemma position_less [simp]: "position n < 2 ^ 64"
  using unat_less_exp [of "as_u64 n"] by (simp add: position_def)

lemma position_at [simp]: "n < 2 ^ 64 \<Longrightarrow> position (at_position n) = n"
  by (simp add: position_def at_position_def unat_of_nat_small)

lemma at_position_position [simp]: "at_position (position n) = n"
  by (simp add: position_def at_position_def)

lemma position_inject: "position a = position b \<longleftrightarrow> a = b"
  by (metis at_position_position)

lemma position_zero [simp]: "position seq_no_zero = 0"
  by (simp add: position_def seq_no_zero_def)

lemma at_position_0: "at_position 0 = seq_no_zero"
  by (simp add: at_position_def seq_no_zero_def)

lemma position_advanced_by:
  assumes "count < 2 ^ 64"
  shows "position (advanced_by n count) = min (position n + count) (2 ^ 64 - 1)"
  using assms
  by (simp add: position_def advanced_by_def unat_saturating_add unat_of_nat_small)

lemma position_succ: "position (seq_no_succ n) = min (Suc (position n)) (2 ^ 64 - 1)"
  by (simp add: position_def seq_no_succ_def unat_saturating_add)

lemma advanced_by_at:
  assumes "position n + count < 2 ^ 64"
  shows "advanced_by n count = at_position (position n + count)"
proof -
  have "position (advanced_by n count) = position n + count"
    using assms by (subst position_advanced_by) simp_all
  then show ?thesis by (metis at_position_position)
qed

lemma succ_at:
  assumes "Suc (position n) < 2 ^ 64"
  shows "seq_no_succ n = at_position (Suc (position n))"
proof -
  have "position (seq_no_succ n) = Suc (position n)"
    using assms by (subst position_succ) simp
  then show ?thesis by (metis at_position_position)
qed

section \<open>Persistence IDs\<close>

definition MAX_SEGMENT_LEN :: nat where
  "MAX_SEGMENT_LEN = 255"

datatype segment = EntityType | EntityId

datatype invalid_persistence_id =
  EmptySegment segment | SegmentTooLong segment | SlashInSegment segment | MissingSeparator

record persistence_id =
  entity_type :: string
  entity_id :: string

definition valid_segment :: "string \<Rightarrow> segment \<Rightarrow> (string, invalid_persistence_id) result" where
  "valid_segment v segment =
     (if v = [] then Err (EmptySegment segment)
      else if MAX_SEGMENT_LEN < length v then Err (SegmentTooLong segment)
      else if CHR ''/'' \<in> set v then Err (SlashInSegment segment)
      else Ok v)"

definition persistence_id_new ::
  "string \<Rightarrow> string \<Rightarrow> (persistence_id, invalid_persistence_id) result" where
  "persistence_id_new ty eid =
     result_bind (valid_segment ty EntityType) (\<lambda>ty.
     result_bind (valid_segment eid EntityId) (\<lambda>eid.
       Ok \<lparr>entity_type = ty, entity_id = eid\<rparr>))"

text \<open>\<^verbatim>\<open>Display\<close>, and \<^verbatim>\<open>From<PersistenceId> for String\<close>.\<close>

definition to_string :: "persistence_id \<Rightarrow> string" where
  "to_string p = entity_type p @ ''/'' @ entity_id p"

text \<open>\<^verbatim>\<open>str::split_once\<close> at the first occurrence of a byte.\<close>

fun split_once :: "char \<Rightarrow> string \<Rightarrow> (string \<times> string) option" where
  "split_once c [] = None"
| "split_once c (x # xs) =
     (if x = c then Some ([], xs)
      else map_option (\<lambda>(a, b). (x # a, b)) (split_once c xs))"

text \<open>\<^verbatim>\<open>FromStr\<close>, and \<^verbatim>\<open>TryFrom<String>\<close>, which parses.\<close>

definition from_str :: "string \<Rightarrow> (persistence_id, invalid_persistence_id) result" where
  "from_str s =
     (case split_once (CHR ''/'') s of
        None \<Rightarrow> Err MissingSeparator
      | Some (ty, eid) \<Rightarrow> persistence_id_new ty eid)"

definition persistence_id_try_from :: "string \<Rightarrow> (persistence_id, invalid_persistence_id) result" where
  "persistence_id_try_from s = from_str s"

definition string_from :: "persistence_id \<Rightarrow> string" where
  "string_from p = to_string p"

text \<open>What a segment accepted by \<^const>\<open>valid_segment\<close> is, and a well-formed ID.\<close>

definition segment_ok :: "string \<Rightarrow> bool" where
  "segment_ok v \<longleftrightarrow> 0 < length v \<and> length v \<le> MAX_SEGMENT_LEN \<and> CHR ''/'' \<notin> set v"

definition persistence_id_ok :: "persistence_id \<Rightarrow> bool" where
  "persistence_id_ok p \<longleftrightarrow> segment_ok (entity_type p) \<and> segment_ok (entity_id p)"

lemma valid_segment_Ok: "valid_segment v sg = Ok r \<longleftrightarrow> r = v \<and> segment_ok v"
  by (auto simp: valid_segment_def segment_ok_def)

lemma segment_ok_valid: "segment_ok v \<Longrightarrow> valid_segment v sg = Ok v"
  by (simp add: valid_segment_Ok)

lemma persistence_id_new_Ok:
  "persistence_id_new ty eid = Ok p \<longleftrightarrow>
     p = \<lparr>entity_type = ty, entity_id = eid\<rparr> \<and> segment_ok ty \<and> segment_ok eid"
  by (auto simp: persistence_id_new_def result_bind_Ok_iff valid_segment_Ok)

lemma split_once_append: "c \<notin> set a \<Longrightarrow> split_once c (a @ c # b) = Some (a, b)"
  by (induction a) auto

lemma split_once_Some: "split_once c s = Some (a, b) \<longleftrightarrow> s = a @ c # b \<and> c \<notin> set a"
proof
  show "split_once c s = Some (a, b) \<Longrightarrow> s = a @ c # b \<and> c \<notin> set a"
    by (induction s arbitrary: a) (auto split: if_splits)
qed (auto simp: split_once_append)

lemma split_once_None: "split_once c s = None \<longleftrightarrow> c \<notin> set s"
  by (induction s) auto

text \<open>
  C40: Parsing is the exact inverse of printing: a string parses to an ID exactly if it is the
  printed form of that ID and the ID is well-formed. So every accepted string is reproduced by
  \<^verbatim>\<open>Display\<close>, and every ID made by \<^verbatim>\<open>PersistenceId::new\<close> parses back to itself.
\<close>

theorem persistence_id_round_trip:
  "persistence_id_try_from s = Ok p \<longleftrightarrow> persistence_id_ok p \<and> s = string_from p"
proof
  assume "persistence_id_try_from s = Ok p"
  then obtain ty eid where split: "split_once (CHR ''/'') s = Some (ty, eid)"
    and new: "persistence_id_new ty eid = Ok p"
    by (auto simp: persistence_id_try_from_def from_str_def split: option.splits)
  then show "persistence_id_ok p \<and> s = string_from p"
    by (auto simp: persistence_id_new_Ok split_once_Some persistence_id_ok_def string_from_def
        to_string_def)
next
  assume ok: "persistence_id_ok p \<and> s = string_from p"
  then have "split_once (CHR ''/'') s = Some (entity_type p, entity_id p)"
    by (simp add: string_from_def to_string_def split_once_append persistence_id_ok_def segment_ok_def)
  with ok show "persistence_id_try_from s = Ok p"
    by (simp add: persistence_id_try_from_def from_str_def persistence_id_new_Ok persistence_id_ok_def)
qed

text \<open>
  Positions never wrap. Advancing by a count is advancing one by one that many times, and it
  never lands below where it started, also at the end of the number range, where both saturate.
\<close>

lemma advanced_by_is_iterated_succ:
  assumes "count < 2 ^ 64"
  shows "advanced_by n count = (seq_no_succ ^^ count) n \<and> n \<le> advanced_by n count"
proof -
  have iter: "position ((seq_no_succ ^^ k) n) = min (position n + k) (2 ^ 64 - 1)" for k
    by (induction k) (use position_less [of n] in \<open>simp_all add: position_succ\<close>)
  have pos: "position (advanced_by n count) = min (position n + count) (2 ^ 64 - 1)"
    using assms by (rule position_advanced_by)
  with iter have "advanced_by n count = (seq_no_succ ^^ count) n"
    by (metis position_inject)
  moreover have "position n \<le> position (advanced_by n count)"
    unfolding pos using position_less [of n] by simp
  ultimately show ?thesis
    by (simp add: less_eq_seq_no_def word_le_nat_alt position_def)
qed

end
