(* ===== verification/Codecs.thy ===== *)
theory Codecs
  imports PersistenceIds
begin

text \<open>
  Payloads and their schema evolution: \<^verbatim>\<open>codec.rs\<close> and \<^verbatim>\<open>versioned.rs\<close>. A codec is given at
  the one type it is used for (the trait's methods are generic, each use fixes the type). The
  third-party serializers behind \<^verbatim>\<open>Cbor\<close> and \<^verbatim>\<open>Json\<close> are arguments; an underlying error is
  represented by its message. A \<^verbatim>\<open>Versioned\<close> type is a record with the codec already supplied
  to its \<^verbatim>\<open>decode\<close>.
\<close>

type_synonym bytes = "8 word list"

datatype encode_error = EncodeError string
datatype payload_error = PayloadError string

record 't codec =
  codec_encode :: "'t \<Rightarrow> (bytes, encode_error) call"
  codec_decode :: "bytes \<Rightarrow> ('t, payload_error) call"

definition Cbor ::
  "('t \<Rightarrow> bytes \<Rightarrow> (unit, string) call \<times> bytes) \<Rightarrow> (bytes \<Rightarrow> ('t, string) call) \<Rightarrow> 't codec" where
  "Cbor into_writer from_reader =
     \<lparr>codec_encode = (\<lambda>v. case into_writer v [] of (written, payload) \<Rightarrow>
        call_bind (call_map_err EncodeError written) (\<lambda>_. Return payload)),
      codec_decode = (\<lambda>payload. call_map_err PayloadError (from_reader payload))\<rparr>"

definition Json ::
  "('t \<Rightarrow> (bytes, string) call) \<Rightarrow> (bytes \<Rightarrow> ('t, string) call) \<Rightarrow> 't codec" where
  "Json to_vec from_slice =
     \<lparr>codec_encode = (\<lambda>v. call_map_err EncodeError (to_vec v)),
      codec_decode = (\<lambda>payload. call_map_err PayloadError (from_slice payload))\<rparr>"

datatype decode_error =
    Payload payload_error
  | ManifestMismatch (mismatch_stored: string) (mismatch_expected: string)
  | UnsupportedSchemaVersion (unsupported_manifest: string) (unsupported_version: schema_version)

record 't versioned =
  MANIFEST :: string
  VERSION :: schema_version
  versioned_decode :: "schema_version \<Rightarrow> bytes \<Rightarrow> ('t, decode_error) call"

text \<open>The provided method \<^verbatim>\<open>Versioned::decode\<close>, and a type that does not override it.\<close>

definition default_decode ::
  "string \<Rightarrow> schema_version \<Rightarrow> 't codec \<Rightarrow> schema_version \<Rightarrow> bytes \<Rightarrow> ('t, decode_error) call" where
  "default_decode manifest current codec schema_version payload =
     (if schema_version = current then call_map_err Payload (codec_decode codec payload)
      else Fail (UnsupportedSchemaVersion manifest schema_version))"

definition default_versioned :: "string \<Rightarrow> schema_version \<Rightarrow> 't codec \<Rightarrow> 't versioned" where
  "default_versioned manifest current codec =
     \<lparr>MANIFEST = manifest, VERSION = current, versioned_decode = default_decode manifest current codec\<rparr>"

definition decode_versioned ::
  "'t versioned \<Rightarrow> string \<Rightarrow> schema_version \<Rightarrow> bytes \<Rightarrow> ('t, decode_error) call" where
  "decode_versioned T manifest schema_version payload =
     (if manifest \<noteq> MANIFEST T then Fail (ManifestMismatch manifest (MANIFEST T))
      else versioned_decode T schema_version payload)"

text \<open>
  What the crate relies on of a codec and a versioned type: a value encoded by the codec decodes,
  at the current version, to itself.
\<close>

definition round_trips :: "'t codec \<Rightarrow> 't versioned \<Rightarrow> bool" where
  "round_trips C T \<longleftrightarrow>
     (\<forall>v b. codec_encode C v = Return b \<longrightarrow> versioned_decode T (VERSION T) b = Return v)"

lemma round_trips_decode:
  assumes "round_trips C T" and "codec_encode C v = Return b"
  shows "decode_versioned T (MANIFEST T) (VERSION T) b = Return v"
  using assms by (simp add: round_trips_def decode_versioned_def)

lemma default_round_trips:
  assumes "\<And>v b. codec_encode C v = Return b \<Longrightarrow> codec_decode C b = Return v"
  shows "round_trips C (default_versioned m n C)"
  using assms by (simp add: round_trips_def default_versioned_def default_decode_def)

text \<open>
  Reading a stored payload of a type with the provided \<^verbatim>\<open>decode\<close>: a payload stored under
  another manifest or another schema version is rejected, with the error that names what was
  stored, whatever its bytes are; only with the manifest and version of the current code is it
  given to the codec, and the codec's failure is passed on.
\<close>

lemma decode_versioned_gate:
  "decode_versioned (default_versioned m n C) manifest version payload =
     (if manifest \<noteq> m then Fail (ManifestMismatch manifest m)
      else if version \<noteq> n then Fail (UnsupportedSchemaVersion m version)
      else case codec_decode C payload of
             Return v \<Rightarrow> Return v | Fail e \<Rightarrow> Fail (Payload e) | Panic \<Rightarrow> Panic)"
  by (auto simp: decode_versioned_def default_versioned_def default_decode_def split: call.splits)

text \<open>
  The round trip of a payload through the default codec: if the serializer's reader reads
  back what its writer wrote to an empty buffer, then a value that \<^verbatim>\<open>Cbor\<close> encodes is decoded
  to the same value under the manifest and version written beside it.
\<close>

lemma cbor_round_trip:
  assumes serializer: "\<And>v b. into_writer v [] = (Return (), b) \<Longrightarrow> from_reader b = Return v"
    and encoded: "codec_encode (Cbor into_writer from_reader) v = Return b"
  shows "decode_versioned (default_versioned m n (Cbor into_writer from_reader)) m n b = Return v"
proof -
  have "codec_encode (Cbor into_writer from_reader) v = Return b \<Longrightarrow>
      codec_decode (Cbor into_writer from_reader) b = Return v" for v b
    using serializer by (auto simp: Cbor_def split: prod.splits)
  from round_trips_decode [OF default_round_trips [OF this] encoded]
  show ?thesis by (simp add: default_versioned_def)
qed

end
