(* ===== verification/Stores.thy ===== *)
theory Stores
  imports Codecs
begin

text \<open>
  The storage of event-sourced actors: \<^verbatim>\<open>store.rs\<close>, \<^verbatim>\<open>in_memory_store.rs\<close> and the wiring of
  \<^verbatim>\<open>persistence.rs\<close>. A store is a record of operations on a storage state; every operation
  returns how its call ended and the storage afterwards, so a failing operation may still have
  changed the storage. The contracts the traits document are the locales \<open>event_store\<close> and
  \<open>snapshot_store\<close>, stated against the stream and the snapshot a storage holds for an ID.
\<close>

section \<open>Stored data\<close>

record encoded_event =
  event_manifest :: string
  event_version :: schema_version
  event_payload :: bytes

record stored_event =
  stored_seq_no :: seq_no
  stored_payload :: encoded_event

record encoded_snapshot =
  snapshot_manifest :: string
  snapshot_version :: schema_version
  snapshot_payload :: bytes

record stored_snapshot =
  stored_next_seq_no :: seq_no
  stored_encoded :: encoded_snapshot

datatype 'x append_error = Conflict | Store 'x

record ('st, 'x) event_store =
  es_append :: "persistence_id \<Rightarrow> seq_no \<Rightarrow> encoded_event list \<Rightarrow> 'st \<Rightarrow> (unit, 'x append_error) call \<times> 'st"
  es_read :: "persistence_id \<Rightarrow> seq_no \<Rightarrow> nat \<Rightarrow> 'st \<Rightarrow> (stored_event list, 'x) call \<times> 'st"

record ('st, 'x) snapshot_store =
  ss_save :: "persistence_id \<Rightarrow> seq_no \<Rightarrow> encoded_snapshot \<Rightarrow> 'st \<Rightarrow> (unit, 'x) call \<times> 'st"
  ss_load :: "persistence_id \<Rightarrow> 'st \<Rightarrow> (stored_snapshot option, 'x) call \<times> 'st"

definition no_snapshots :: "('st, infallible) snapshot_store" where
  "no_snapshots =
     \<lparr>ss_save = (\<lambda>pid next_seq_no snapshot st. (Return (), st)),
      ss_load = (\<lambda>pid st. (Return None, st))\<rparr>"

section \<open>The in-memory store\<close>

record in_memory_store =
  streams :: "(persistence_id \<times> stored_event list) list"
  snapshots :: "(persistence_id \<times> stored_snapshot) list"

definition in_memory_default :: in_memory_store where
  "in_memory_default = \<lparr>streams = [], snapshots = []\<rparr>"

definition in_memory_events :: "in_memory_store \<Rightarrow> persistence_id \<Rightarrow> stored_event list" where
  "in_memory_events st pid = (case map_of (streams st) pid of Some s \<Rightarrow> s | None \<Rightarrow> [])"

definition in_memory_snapshot :: "in_memory_store \<Rightarrow> persistence_id \<Rightarrow> stored_snapshot option" where
  "in_memory_snapshot st pid = map_of (snapshots st) pid"

definition in_memory_append ::
  "persistence_id \<Rightarrow> seq_no \<Rightarrow> encoded_event list \<Rightarrow> in_memory_store
     \<Rightarrow> (unit, infallible append_error) call \<times> in_memory_store" where
  "in_memory_append pid next_seq_no events st =
     (let stream = in_memory_events st pid;
          st = st\<lparr>streams := AList.update pid stream (streams st)\<rparr>
      in if SeqNo (of_nat (length stream)) \<noteq> next_seq_no then (Fail Conflict, st)
         else (Return (), st\<lparr>streams := AList.update pid
                 (stream @ map (\<lambda>(n, event). \<lparr>stored_seq_no = advanced_by next_seq_no n, stored_payload = event\<rparr>)
                             (enumerate 0 events)) (streams st)\<rparr>))"

text \<open>\<^verbatim>\<open>start.saturating_add(limit)\<close> cannot saturate below the length it is bounded by.\<close>

definition in_memory_read ::
  "persistence_id \<Rightarrow> seq_no \<Rightarrow> nat \<Rightarrow> in_memory_store
     \<Rightarrow> (stored_event list, infallible) call \<times> in_memory_store" where
  "in_memory_read pid from_seq_no limit st =
     (Return (case map_of (streams st) pid of
        None \<Rightarrow> []
      | Some stream \<Rightarrow>
          (let start = min (unat (as_u64 from_seq_no)) (length stream);
               finish = min (start + limit) (length stream)
           in take (finish - start) (drop start stream))), st)"

definition in_memory_save ::
  "persistence_id \<Rightarrow> seq_no \<Rightarrow> encoded_snapshot \<Rightarrow> in_memory_store
     \<Rightarrow> (unit, infallible) call \<times> in_memory_store" where
  "in_memory_save pid next_seq_no snapshot st =
     (Return (), st\<lparr>snapshots := AList.update pid
        \<lparr>stored_next_seq_no = next_seq_no, stored_encoded = snapshot\<rparr> (snapshots st)\<rparr>)"

definition in_memory_load ::
  "persistence_id \<Rightarrow> in_memory_store \<Rightarrow> (stored_snapshot option, infallible) call \<times> in_memory_store" where
  "in_memory_load pid st = (Return (map_of (snapshots st) pid), st)"

definition in_memory_event_store :: "(in_memory_store, infallible) event_store" where
  "in_memory_event_store = \<lparr>es_append = in_memory_append, es_read = in_memory_read\<rparr>"

definition in_memory_snapshot_store :: "(in_memory_store, infallible) snapshot_store" where
  "in_memory_snapshot_store = \<lparr>ss_save = in_memory_save, ss_load = in_memory_load\<rparr>"

section \<open>The wiring\<close>

record ('st, 'x, 'y, 'c) persistence =
  event_store :: "('st, 'x) event_store"
  snapshot_store :: "('st, 'y) snapshot_store"
  codec :: 'c

definition persistence_new :: "('st, 'x) event_store \<Rightarrow> 'c \<Rightarrow> ('st, 'x, infallible, 'c) persistence" where
  "persistence_new es cbor = \<lparr>event_store = es, snapshot_store = no_snapshots, codec = cbor\<rparr>"

definition with_snapshot_store ::
  "('st, 'y2) snapshot_store \<Rightarrow> ('st, 'x, 'y, 'c) persistence \<Rightarrow> ('st, 'x, 'y2, 'c) persistence" where
  "with_snapshot_store ss P = \<lparr>event_store = event_store P, snapshot_store = ss, codec = codec P\<rparr>"

definition with_codec :: "'c2 \<Rightarrow> ('st, 'x, 'y, 'c) persistence \<Rightarrow> ('st, 'x, 'y, 'c2) persistence" where
  "with_codec c P = \<lparr>event_store = event_store P, snapshot_store = snapshot_store P, codec = c\<rparr>"

section \<open>Contracts\<close>

text \<open>A stream as it is read: gapless, from position 0 on.\<close>

definition numbered :: "encoded_event list \<Rightarrow> stored_event list" where
  "numbered es = map (\<lambda>(n, e). \<lparr>stored_seq_no = at_position n, stored_payload = e\<rparr>) (enumerate 0 es)"

lemma length_numbered [simp]: "length (numbered es) = length es"
  by (simp add: numbered_def)

lemma nth_numbered:
  "i < length es \<Longrightarrow> numbered es ! i = \<lparr>stored_seq_no = at_position i, stored_payload = es ! i\<rparr>"
  by (simp add: numbered_def nth_enumerate_eq)

lemma payloads_numbered [simp]: "map stored_payload (numbered es) = es"
  by (rule nth_equalityI) (simp_all add: nth_numbered)

lemma numbered_append:
  "numbered (es @ fs) =
     numbered es @ map (\<lambda>(n, e). \<lparr>stored_seq_no = at_position (length es + n), stored_payload = e\<rparr>) (enumerate 0 fs)"
  by (rule nth_equalityI) (auto simp: nth_numbered nth_append nth_enumerate_eq)

text \<open>
  The contract of \<^verbatim>\<open>EventStore\<close> for a storage whose stream of an ID is \<open>stream st pid\<close>: an
  append that returns was made at the end of the stream and added exactly the given events; a
  conflict left the stream untouched; any other failure is all or nothing; a read changes nothing
  and returns a page of the stream.
\<close>

locale event_store_contract =
  fixes es :: "('st, 'x) event_store"
    and stream :: "'st \<Rightarrow> persistence_id \<Rightarrow> encoded_event list"
    and inv :: "'st \<Rightarrow> bool"
  assumes append_ok:
      "\<lbrakk>inv st; length (stream st pid) + length events < 2 ^ 64;
        es_append es pid n events st = (Return (), st')\<rbrakk>
       \<Longrightarrow> n = at_position (length (stream st pid)) \<and>
           stream st' = (stream st)(pid := stream st pid @ events) \<and> inv st'"
    and append_conflict:
      "\<lbrakk>inv st; length (stream st pid) + length events < 2 ^ 64;
        es_append es pid n events st = (Fail Conflict, st')\<rbrakk>
       \<Longrightarrow> stream st' = stream st \<and> inv st'"
    and append_failed:
      "\<lbrakk>inv st; length (stream st pid) + length events < 2 ^ 64;
        es_append es pid n events st = (r, st'); r \<noteq> Return ()\<rbrakk>
       \<Longrightarrow> inv st' \<and> (stream st' = stream st \<or>
             n = at_position (length (stream st pid)) \<and>
             stream st' = (stream st)(pid := stream st pid @ events))"
    and read_page:
      "\<lbrakk>inv st; limit < 2 ^ 63; es_read es pid n limit st = (p, st')\<rbrakk>
       \<Longrightarrow> stream st' = stream st \<and> inv st' \<and>
           (\<forall>page. p = Return page \<longrightarrow> page = take limit (drop (position n) (numbered (stream st pid))))"
begin

lemma append_cases:
  assumes "inv st" and "length (stream st pid) + length events < 2 ^ 64"
    and "es_append es pid n events st = (r, st')"
  shows "stream st' = stream st \<or>
    n = at_position (length (stream st pid)) \<and> stream st' = (stream st)(pid := stream st pid @ events)"
  using append_ok [OF assms(1,2)] append_failed [OF assms] assms(3) by (cases "r = Return ()") auto

lemma append_inv:
  assumes "inv st" and "length (stream st pid) + length events < 2 ^ 64"
    and "es_append es pid n events st = (r, st')"
  shows "inv st'"
  using append_ok [OF assms(1,2)] append_failed [OF assms] assms(3) by (cases "r = Return ()") auto

text \<open>A stale writer is fenced off: it neither appends nor changes anything.\<close>

lemma append_stale:
  assumes "inv st" and "length (stream st pid) + length events < 2 ^ 64"
    and "es_append es pid n events st = (r, st')"
    and "n \<noteq> at_position (length (stream st pid))"
  shows "r \<noteq> Return () \<and> stream st' = stream st"
  using append_ok [OF assms(1,2)] append_cases [OF assms(1,2,3)] assms(3,4) by auto

text \<open>No operation ever takes back an event.\<close>

lemma append_prefix:
  assumes "inv st" and "length (stream st pid) + length events < 2 ^ 64"
    and "es_append es pid n events st = (r, st')" and "k \<le> length (stream st pid')"
  shows "take k (stream st' pid') = take k (stream st pid') \<and> k \<le> length (stream st' pid')"
  using append_cases [OF assms(1,2,3)] assms(4) by auto

end

text \<open>
  The contract of \<^verbatim>\<open>SnapshotStore\<close>: a snapshot that is loaded is the one held, and a save
  replaces it or, where it fails or is dropped, leaves it.
\<close>

locale snapshot_store_contract =
  fixes ss :: "('st, 'y) snapshot_store"
    and snap :: "'st \<Rightarrow> persistence_id \<Rightarrow> stored_snapshot option"
  assumes save_snap:
      "ss_save ss pid n snapshot st = (r, st') \<Longrightarrow>
         snap st' = snap st \<or>
         snap st' = (snap st)(pid \<mapsto> \<lparr>stored_next_seq_no = n, stored_encoded = snapshot\<rparr>)"
    and load_snap:
      "ss_load ss pid st = (l, st') \<Longrightarrow>
         snap st' = snap st \<and> (\<forall>s. l = Return s \<longrightarrow> s = snap st pid)"

text \<open>A store that keeps what it confirmed; the dropping one is not of this kind.\<close>

locale keeping_snapshot_store = snapshot_store_contract +
  assumes save_ok:
      "ss_save ss pid n snapshot st = (Return (), st') \<Longrightarrow>
         snap st' = (snap st)(pid \<mapsto> \<lparr>stored_next_seq_no = n, stored_encoded = snapshot\<rparr>)"
begin

lemma load_after_save:
  assumes "ss_save ss pid n snapshot st = (Return (), st')"
    and "ss_load ss pid' st' = (Return s, st'')"
  shows "s = (if pid' = pid then Some \<lparr>stored_next_seq_no = n, stored_encoded = snapshot\<rparr> else snap st pid')"
  using save_ok [OF assms(1)] load_snap [OF assms(2)] by auto

end

text \<open>Both kinds of store on one storage, which keep out of each other's way.\<close>

locale storage = event_store_contract es stream inv + snapshot_store_contract ss snap
  for es :: "('st, 'x) event_store" and stream :: "'st \<Rightarrow> persistence_id \<Rightarrow> encoded_event list"
    and inv :: "'st \<Rightarrow> bool" and ss :: "('st, 'y) snapshot_store"
    and snap :: "'st \<Rightarrow> persistence_id \<Rightarrow> stored_snapshot option" +
  assumes append_snap: "es_append es pid n events st = (r, st') \<Longrightarrow> snap st' = snap st"
    and read_snap: "es_read es pid n limit st = (r2, st') \<Longrightarrow> snap st' = snap st"
    and save_stream: "ss_save ss pid n snapshot st = (r3, st') \<Longrightarrow> stream st' = stream st \<and> (inv st \<longrightarrow> inv st')"
    and load_stream: "ss_load ss pid st = (r4, st') \<Longrightarrow> stream st' = stream st \<and> (inv st \<longrightarrow> inv st')"

section \<open>The in-memory store keeps the contracts\<close>

definition in_memory_stream :: "in_memory_store \<Rightarrow> persistence_id \<Rightarrow> encoded_event list" where
  "in_memory_stream st pid = map stored_payload (in_memory_events st pid)"

definition in_memory_inv :: "in_memory_store \<Rightarrow> bool" where
  "in_memory_inv st \<longleftrightarrow>
     (\<forall>pid. in_memory_events st pid = numbered (in_memory_stream st pid) \<and>
            length (in_memory_stream st pid) < 2 ^ 64)"

lemma in_memory_events_update:
  "in_memory_events (st\<lparr>streams := AList.update pid s al\<rparr>) pid' =
     (if pid' = pid then s else in_memory_events (st\<lparr>streams := al\<rparr>) pid')"
  by (simp add: in_memory_events_def update_conv)

lemma in_memory_events_id [simp]: "in_memory_events (st\<lparr>streams := streams st\<rparr>) = in_memory_events st"
  by (simp add: fun_eq_iff in_memory_events_def)

lemma in_memory_events_snapshots [simp]:
  "in_memory_events (st\<lparr>snapshots := x\<rparr>) = in_memory_events st"
  by (simp add: fun_eq_iff in_memory_events_def)

lemma in_memory_snapshot_streams [simp]:
  "in_memory_snapshot (st\<lparr>streams := x\<rparr>) = in_memory_snapshot st"
  by (simp add: fun_eq_iff in_memory_snapshot_def)

lemma in_memory_inv_default [simp]: "in_memory_inv in_memory_default"
  by (simp add: in_memory_inv_def in_memory_stream_def in_memory_events_def in_memory_default_def numbered_def)

lemma in_memory_append_stale:
  assumes "in_memory_inv st" and "n \<noteq> at_position (length (in_memory_stream st pid))"
  shows "fst (in_memory_append pid n events st) = Fail Conflict"
    and "in_memory_events (snd (in_memory_append pid n events st)) = in_memory_events st"
  using assms
  by (auto simp: in_memory_append_def Let_def at_position_def in_memory_stream_def
      in_memory_events_update fun_eq_iff)

lemma in_memory_append_events:
  assumes inv: "in_memory_inv st"
    and fits: "length (in_memory_stream st pid) + length events < 2 ^ 64"
    and n: "n = at_position (length (in_memory_stream st pid))"
  shows "fst (in_memory_append pid n events st) = Return ()"
    and "in_memory_events (snd (in_memory_append pid n events st)) =
      (in_memory_events st)(pid := numbered (in_memory_stream st pid @ events))"
proof -
  let ?len = "length (in_memory_stream st pid)"
  have events: "in_memory_events st pid = numbered (in_memory_stream st pid)"
    using inv by (simp add: in_memory_inv_def)
  have seq: "SeqNo (of_nat (length (in_memory_events st pid))) = n"
    by (simp add: n at_position_def in_memory_stream_def)
  have "advanced_by n i = at_position (?len + i)" if "i < length events" for i
    using fits that by (simp add: n advanced_by_at)
  then have "map (\<lambda>(i, event). \<lparr>stored_seq_no = advanced_by n i, stored_payload = event\<rparr>) (enumerate 0 events)
      = map (\<lambda>(i, event). \<lparr>stored_seq_no = at_position (?len + i), stored_payload = event\<rparr>) (enumerate 0 events)"
    by (auto simp: in_set_enumerate_eq)
  then have "in_memory_events st pid @
      map (\<lambda>(i, event). \<lparr>stored_seq_no = advanced_by n i, stored_payload = event\<rparr>) (enumerate 0 events)
      = numbered (in_memory_stream st pid @ events)"
    by (simp only: events numbered_append)
  with seq show "fst (in_memory_append pid n events st) = Return ()"
    and "in_memory_events (snd (in_memory_append pid n events st)) =
      (in_memory_events st)(pid := numbered (in_memory_stream st pid @ events))"
    by (simp_all add: in_memory_append_def Let_def in_memory_events_update fun_eq_iff)
qed

lemma in_memory_read_page:
  assumes "in_memory_inv st"
  shows "in_memory_read pid n limit st =
    (Return (take limit (drop (position n) (numbered (in_memory_stream st pid)))), st)"
proof -
  have "take (min (min p l + limit) l - min p l) (drop (min p l) xs) = take limit (drop p xs)"
    if "length xs = l" for p l and xs :: "stored_event list"
    using that by (cases "p \<le> l") (auto simp: min_def)
  then have "in_memory_read pid n limit st =
      (Return (take limit (drop (position n) (in_memory_events st pid))), st)"
    by (simp add: in_memory_read_def in_memory_events_def position_def Let_def split: option.splits)
  with assms show ?thesis by (simp add: in_memory_inv_def)
qed

lemma in_memory_append_keeps:
  assumes inv: "in_memory_inv st" and fits: "length (in_memory_stream st pid) + length events < 2 ^ 64"
    and append: "in_memory_append pid n events st = (r, st')"
  shows "in_memory_inv st' \<and>
    (if n = at_position (length (in_memory_stream st pid))
     then r = Return () \<and> in_memory_stream st' = (in_memory_stream st)(pid := in_memory_stream st pid @ events)
     else r = Fail Conflict \<and> in_memory_stream st' = in_memory_stream st)"
proof (cases "n = at_position (length (in_memory_stream st pid))")
  case True
  have ev: "in_memory_events st' = (in_memory_events st)(pid := numbered (in_memory_stream st pid @ events))"
    and r: "r = Return ()"
    using in_memory_append_events [OF inv fits True] append by simp_all
  then have s: "in_memory_stream st' = (in_memory_stream st)(pid := in_memory_stream st pid @ events)"
    by (simp add: fun_eq_iff in_memory_stream_def)
  have "in_memory_inv st'"
    using inv fits by (auto simp: in_memory_inv_def ev s)
  with True r s show ?thesis by simp
next
  case False
  have ev: "in_memory_events st' = in_memory_events st" and r: "r = Fail Conflict"
    using in_memory_append_stale [OF inv False] append by (metis fst_conv snd_conv)+
  have "in_memory_stream st' = in_memory_stream st"
    by (simp add: fun_eq_iff in_memory_stream_def ev)
  with False r ev inv show ?thesis by (simp add: in_memory_inv_def)
qed

lemmas in_memory_ops = in_memory_event_store_def in_memory_snapshot_store_def

interpretation memory: storage in_memory_event_store in_memory_stream in_memory_inv
  in_memory_snapshot_store in_memory_snapshot
proof unfold_locales
  fix st st' :: in_memory_store and pid n and events :: "encoded_event list"
  assume "in_memory_inv st" and "length (in_memory_stream st pid) + length events < 2 ^ 64"
  note keeps = in_memory_append_keeps [OF this]
  show "es_append in_memory_event_store pid n events st = (Return (), st') \<Longrightarrow>
      n = at_position (length (in_memory_stream st pid)) \<and>
      in_memory_stream st' = (in_memory_stream st)(pid := in_memory_stream st pid @ events) \<and>
      in_memory_inv st'"
    using keeps by (fastforce simp: in_memory_ops split: if_splits)
  show "es_append in_memory_event_store pid n events st = (Fail Conflict, st') \<Longrightarrow>
      in_memory_stream st' = in_memory_stream st \<and> in_memory_inv st'"
    using keeps by (fastforce simp: in_memory_ops split: if_splits)
  show "es_append in_memory_event_store pid n events st = (r, st') \<Longrightarrow> r \<noteq> Return () \<Longrightarrow>
      in_memory_inv st' \<and> (in_memory_stream st' = in_memory_stream st \<or>
        n = at_position (length (in_memory_stream st pid)) \<and>
        in_memory_stream st' = (in_memory_stream st)(pid := in_memory_stream st pid @ events))" for r
    using keeps by (fastforce simp: in_memory_ops split: if_splits)
next
  fix st st' :: in_memory_store and pid n limit r
  assume "in_memory_inv st" and "es_read in_memory_event_store pid n limit st = (r, st')"
  then show "in_memory_stream st' = in_memory_stream st \<and> in_memory_inv st' \<and>
      (\<forall>page. r = Return page \<longrightarrow> page = take limit (drop (position n) (numbered (in_memory_stream st pid))))"
    by (auto simp: in_memory_ops in_memory_read_page)
next
  fix pid n snapshot and st st' :: in_memory_store and r
  assume save: "ss_save in_memory_snapshot_store pid n snapshot st = (r, st')"
  then show "in_memory_snapshot st' = in_memory_snapshot st \<or>
      in_memory_snapshot st' = (in_memory_snapshot st)
        (pid \<mapsto> \<lparr>stored_next_seq_no = n, stored_encoded = snapshot\<rparr>)"
    by (auto simp: in_memory_ops in_memory_save_def in_memory_snapshot_def fun_eq_iff update_conv)
  from save show "in_memory_stream st' = in_memory_stream st \<and> (in_memory_inv st \<longrightarrow> in_memory_inv st')"
    by (auto simp: in_memory_ops in_memory_save_def in_memory_stream_def in_memory_inv_def fun_eq_iff)
next
  fix pid and st st' :: in_memory_store and r
  assume load: "ss_load in_memory_snapshot_store pid st = (r, st')"
  then show "in_memory_snapshot st' = in_memory_snapshot st \<and> (\<forall>s. r = Return s \<longrightarrow> s = in_memory_snapshot st pid)"
    by (auto simp: in_memory_ops in_memory_load_def in_memory_snapshot_def)
  from load show "in_memory_stream st' = in_memory_stream st \<and> (in_memory_inv st \<longrightarrow> in_memory_inv st')"
    by (auto simp: in_memory_ops in_memory_load_def)
next
  fix pid n events and st st' :: in_memory_store and r
  assume "es_append in_memory_event_store pid n events st = (r, st')"
  then show "in_memory_snapshot st' = in_memory_snapshot st"
    by (auto simp: in_memory_ops in_memory_append_def Let_def split: if_splits)
next
  fix pid n limit and st st' :: in_memory_store and r
  assume "es_read in_memory_event_store pid n limit st = (r, st')"
  then show "in_memory_snapshot st' = in_memory_snapshot st"
    by (auto simp: in_memory_ops in_memory_read_def)
qed

interpretation memory_keeps: keeping_snapshot_store in_memory_snapshot_store in_memory_snapshot
  by unfold_locales
    (auto simp: in_memory_ops in_memory_save_def in_memory_snapshot_def fun_eq_iff update_conv)

text \<open>Any event store whose storage has no snapshots runs with \<^verbatim>\<open>NoSnapshots\<close>.\<close>

interpretation memory_only: storage in_memory_event_store in_memory_stream in_memory_inv
  no_snapshots "\<lambda>_ _. None"
  by unfold_locales (auto simp: no_snapshots_def)

end
