(* ===== verification/EventSourcing.thy ===== *)
theory EventSourcing
  imports Stores Actor Supervision
begin

text \<open>
  Event-sourced actors: \<^verbatim>\<open>effect.rs\<close>, \<^verbatim>\<open>event_sourced.rs\<close> and \<^verbatim>\<open>spawn.rs\<close>. The code
  between two awaits is one definition each; \<open>recover\<close> and \<open>settle\<close> compose them for an
  actor that has the storage to itself, and \<open>es_step\<close> runs them one await at a time, so that
  incarnations of one entity and other writers interleave on a shared storage. What
  \<^verbatim>\<open>next_incoming!\<close>, \<^verbatim>\<open>stop_children\<close> and the sleep of a backoff yield is observed from
  outside; their code is the theory \<open>Task\<close>. A call that cannot fail but panic has the value
  \<^const>\<open>None\<close> for the panic.
\<close>

section \<open>Effects\<close>

record ('s, 'ev, 'o) effect =
  effect_events :: "'ev list"
  effect_stop :: bool
  effect_thens :: "('s \<Rightarrow> 'o option) list"

definition persist_all :: "'ev list \<Rightarrow> ('s, 'ev, 'o) effect" where
  "persist_all events = \<lparr>effect_events = events, effect_stop = False, effect_thens = []\<rparr>"

definition persist_none :: "('s, 'ev, 'o) effect" where
  "persist_none = persist_all []"

definition persist :: "'ev \<Rightarrow> ('s, 'ev, 'o) effect" where
  "persist event = persist_all [event]"

definition and_stop :: "('s, 'ev, 'o) effect \<Rightarrow> ('s, 'ev, 'o) effect" where
  "and_stop e = e\<lparr>effect_stop := True\<rparr>"

definition stop_effect :: "('s, 'ev, 'o) effect" where
  "stop_effect = and_stop persist_none"

definition and_then :: "('s \<Rightarrow> 'o option) \<Rightarrow> ('s, 'ev, 'o) effect \<Rightarrow> ('s, 'ev, 'o) effect" where
  "and_then f e = e\<lparr>effect_thens := effect_thens e @ [f]\<rparr>"

section \<open>The trait\<close>

record ('m, 's, 'ev, 'sn, 'e, 'o) event_sourced =
  es_persistence_id :: "persistence_id option"
  es_init :: "('s, 'e) call"
  init_from_snapshot :: "'sn \<Rightarrow> ('s, 'e) call"
  es_recovered :: "'s \<Rightarrow> ('s, 'e) call"
  es_handle :: "'m incoming \<Rightarrow> 's \<Rightarrow> (('s, 'ev, 'o) effect, 'e) call"
  es_apply :: "'s \<Rightarrow> 'ev \<Rightarrow> 's option"
  es_snapshot :: "'s \<Rightarrow> ('sn option, 'e) call"
  event_type :: "'ev versioned"
  snapshot_type :: "'sn versioned"

text \<open>The provided methods \<^verbatim>\<open>recovered\<close> and \<^verbatim>\<open>snapshot\<close>.\<close>

definition default_recovered :: "'s \<Rightarrow> ('s, 'e) call" where
  "default_recovered s = Return s"

definition default_snapshot :: "'s \<Rightarrow> ('sn option, 'e) call" where
  "default_snapshot s = Return None"

text \<open>The one codec of a wiring at the types of events and of snapshots.\<close>

record ('ev, 'sn) codecs =
  event_codec :: "'ev codec"
  snapshot_codec :: "'sn codec"

type_synonym ('st, 'x, 'y, 'ev, 'sn) wiring = "('st, 'x, 'y, ('ev, 'sn) codecs) persistence"

section \<open>Caught calls\<close>

definition catch_unwind_async :: "('a, 'e) call \<Rightarrow> (('a, 'e) result, unit) result" where
  "catch_unwind_async c =
     (case c of Return a \<Rightarrow> Ok (Ok a) | Fail e \<Rightarrow> Ok (Err e) | Panic \<Rightarrow> Err ())"

definition catch_panic_and_log_async :: "('a, 'e) call \<Rightarrow> ('a, 'e) result option" where
  "catch_panic_and_log_async c =
     (case catch_unwind_async c of Ok v \<Rightarrow> Some v | Err _ \<Rightarrow> None)"

definition warn_unless_snapshot_saved :: "(('t, 'e) result, unit) result \<Rightarrow> 't option" where
  "warn_unless_snapshot_saved r =
     (case r of Ok (Ok v) \<Rightarrow> Some v | Ok (Err _) \<Rightarrow> None | Err _ \<Rightarrow> None)"

section \<open>Recovery\<close>

definition REPLAY_PAGE :: nat where
  "REPLAY_PAGE = 512"

lemma REPLAY_PAGE_small: "REPLAY_PAGE < 2 ^ 63"
  by (simp add: REPLAY_PAGE_def)

datatype replay_error = DecodeFailed decode_error | Gap (gap_seq_no: seq_no) (gap_expected: seq_no)

definition decode_event :: "'ev versioned \<Rightarrow> encoded_event \<Rightarrow> ('ev, decode_error) call" where
  "decode_event T e = decode_versioned T (event_manifest e) (event_version e) (event_payload e)"

definition es_read_page ::
  "('st, 'x) event_store \<Rightarrow> persistence_id \<Rightarrow> seq_no \<Rightarrow> 'st \<Rightarrow> (stored_event list, 'x) call \<times> 'st" where
  "es_read_page es pid from_seq_no st = es_read es pid from_seq_no REPLAY_PAGE st"

fun replay_page ::
  "('m, 's, 'ev, 'sn, 'e, 'o) event_sourced \<Rightarrow> 's \<Rightarrow> seq_no \<Rightarrow> stored_event list
     \<Rightarrow> ('s \<times> seq_no, replay_error) call" where
  "replay_page A s next_seq_no [] = Return (s, next_seq_no)"
| "replay_page A s next_seq_no (stored # page) =
     (if stored_seq_no stored \<noteq> next_seq_no then Fail (Gap (stored_seq_no stored) next_seq_no)
      else call_bind (call_map_err DecodeFailed (decode_event (event_type A) (stored_payload stored)))
             (\<lambda>event. case es_apply A s event of
                None \<Rightarrow> Panic
              | Some s' \<Rightarrow> replay_page A s' (seq_no_succ next_seq_no) page))"

text \<open>A loaded snapshot that does not decode, or whose decoder panics, is discarded.\<close>

definition decoded_snapshot ::
  "('m, 's, 'ev, 'sn, 'e, 'o) event_sourced \<Rightarrow> stored_snapshot option \<Rightarrow> ('sn \<times> seq_no) option" where
  "decoded_snapshot A loaded =
     (case loaded of
        None \<Rightarrow> None
      | Some stored \<Rightarrow>
          (case decode_versioned (snapshot_type A) (snapshot_manifest (stored_encoded stored))
                  (snapshot_version (stored_encoded stored)) (snapshot_payload (stored_encoded stored)) of
             Return snapshot \<Rightarrow> Some (snapshot, stored_next_seq_no stored)
           | Fail _ \<Rightarrow> None
           | Panic \<Rightarrow> None))"

text \<open>\<^verbatim>\<open>recover\<close> up to its replay loop: the identity, the snapshot and the seed of the replay.\<close>

definition recover_seed ::
  "('m, 's, 'ev, 'sn, 'e, 'o) event_sourced \<Rightarrow> stored_snapshot option \<Rightarrow> ('s \<times> seq_no) option" where
  "recover_seed A loaded =
     (case decoded_snapshot A loaded of
        Some (snapshot, n) \<Rightarrow> map_option (\<lambda>s. (s, n)) (catch_and_log (init_from_snapshot A snapshot))
      | None \<Rightarrow> map_option (\<lambda>s. (s, seq_no_zero)) (catch_and_log (es_init A)))"

definition recover_begin ::
  "('m, 's, 'ev, 'sn, 'e, 'o) event_sourced \<Rightarrow> ('st, 'x, 'y, 'ev, 'sn) wiring \<Rightarrow> 'st
     \<Rightarrow> (persistence_id \<times> 's \<times> seq_no) option \<times> 'st" where
  "recover_begin A P st =
     (case es_persistence_id A of
        None \<Rightarrow> (None, st)
      | Some pid \<Rightarrow>
          (case ss_load (snapshot_store P) pid st of (loaded, st') \<Rightarrow>
             (case catch_panic_and_log_async loaded of
                Some (Ok snapshot) \<Rightarrow> (map_option (Pair pid) (recover_seed A snapshot), st')
              | Some (Err _) \<Rightarrow> (None, st')
              | None \<Rightarrow> (None, st'))))"

text \<open>One iteration of the replay loop: a page shorter than the limit is the last one.\<close>

datatype 's replayed = Replayed 's seq_no | MorePages 's seq_no | ReplayFailed

definition recover_page ::
  "('m, 's, 'ev, 'sn, 'e, 'o) event_sourced \<Rightarrow> ('st, 'x, 'y, 'ev, 'sn) wiring \<Rightarrow> persistence_id
     \<Rightarrow> 's \<Rightarrow> seq_no \<Rightarrow> 'st \<Rightarrow> 's replayed \<times> 'st" where
  "recover_page A P pid s next_seq_no st =
     (case es_read_page (event_store P) pid next_seq_no st of (read, st') \<Rightarrow>
        (case catch_panic_and_log_async read of
           Some (Ok page) \<Rightarrow>
             (case catch_and_log (replay_page A s next_seq_no page) of
                None \<Rightarrow> (ReplayFailed, st')
              | Some (s', n') \<Rightarrow>
                  (if length page < REPLAY_PAGE then (Replayed s' n', st') else (MorePages s' n', st')))
         | Some (Err _) \<Rightarrow> (ReplayFailed, st')
         | None \<Rightarrow> (ReplayFailed, st')))"

text \<open>
  The replay loop of an actor that has the storage to itself. A store may return full pages for
  ever, so the loop is partial: \<^const>\<open>None\<close> is a loop that never ends, the inner \<^const>\<open>None\<close> a
  recovery that failed.
\<close>

partial_function (option) replay_loop ::
  "('m, 's, 'ev, 'sn, 'e, 'o) event_sourced \<Rightarrow> ('st, 'x, 'y, 'ev, 'sn) wiring \<Rightarrow> persistence_id
     \<Rightarrow> 's \<Rightarrow> seq_no \<Rightarrow> 'st \<Rightarrow> (('s \<times> seq_no) option \<times> 'st) option" where
  [code]: "replay_loop A P pid s next_seq_no st =
     (case recover_page A P pid s next_seq_no st of
        (Replayed s' n', st') \<Rightarrow> Some (Some (s', n'), st')
      | (MorePages s' n', st') \<Rightarrow> replay_loop A P pid s' n' st'
      | (ReplayFailed, st') \<Rightarrow> Some (None, st'))"

record 's recovered =
  recovered_id :: persistence_id
  recovered_state :: 's
  recovered_next :: seq_no

definition recover ::
  "('m, 's, 'ev, 'sn, 'e, 'o) event_sourced \<Rightarrow> ('st, 'x, 'y, 'ev, 'sn) wiring \<Rightarrow> 'st
     \<Rightarrow> ('s recovered option \<times> 'st) option" where
  "recover A P st =
     (case recover_begin A P st of
        (None, st') \<Rightarrow> Some (None, st')
      | (Some (pid, s, n), st') \<Rightarrow>
          (case replay_loop A P pid s n st' of
             None \<Rightarrow> None
           | Some (None, st'') \<Rightarrow> Some (None, st'')
           | Some (Some (s', n'), st'') \<Rightarrow>
               Some (Some \<lparr>recovered_id = pid, recovered_state = s', recovered_next = n'\<rparr>, st'')))"

section \<open>Settling an effect\<close>

fun encode_events :: "'ev codec \<Rightarrow> 'ev versioned \<Rightarrow> 'ev list \<Rightarrow> (encoded_event list, encode_error) call" where
  "encode_events C T [] = Return []"
| "encode_events C T (event # events) =
     call_bind (codec_encode C event) (\<lambda>payload.
     call_bind (encode_events C T events) (\<lambda>encoded.
       Return (\<lparr>event_manifest = MANIFEST T, event_version = VERSION T, event_payload = payload\<rparr> # encoded)))"

definition append_events ::
  "('st, 'x) event_store \<Rightarrow> persistence_id \<Rightarrow> seq_no \<Rightarrow> encoded_event list \<Rightarrow> 'st
     \<Rightarrow> (unit, 'x append_error) call \<times> 'st" where
  "append_events es pid next_seq_no events st = es_append es pid next_seq_no events st"

fun apply_events :: "('m, 's, 'ev, 'sn, 'e, 'o) event_sourced \<Rightarrow> 's \<Rightarrow> 'ev list \<Rightarrow> 's option" where
  "apply_events A s [] = Some s"
| "apply_events A s (event # events) =
     (case es_apply A s event of None \<Rightarrow> None | Some s' \<Rightarrow> apply_events A s' events)"

datatype 'e snapshot_error = SnapshotActor 'e | SnapshotEncode encode_error

definition encode_snapshot ::
  "('m, 's, 'ev, 'sn, 'e, 'o) event_sourced \<Rightarrow> 'sn codec \<Rightarrow> 's
     \<Rightarrow> (encoded_snapshot option, 'e snapshot_error) call" where
  "encode_snapshot A C s =
     call_bind (call_map_err SnapshotActor (es_snapshot A s)) (\<lambda>offered.
       case offered of
         None \<Rightarrow> Return None
       | Some snapshot \<Rightarrow>
           call_bind (call_map_err SnapshotEncode (codec_encode C snapshot)) (\<lambda>payload.
             Return (Some \<lparr>snapshot_manifest = MANIFEST (snapshot_type A),
                           snapshot_version = VERSION (snapshot_type A),
                           snapshot_payload = payload\<rparr>)))"

definition save_snapshot ::
  "('st, 'y) snapshot_store \<Rightarrow> persistence_id \<Rightarrow> seq_no \<Rightarrow> encoded_snapshot \<Rightarrow> 'st
     \<Rightarrow> (unit, 'y) call \<times> 'st" where
  "save_snapshot ss pid next_seq_no snapshot st = ss_save ss pid next_seq_no snapshot st"

text \<open>The continuations in order; the first panic ends them. The actions already taken stay taken.\<close>

fun run_thens :: "'s \<Rightarrow> ('s \<Rightarrow> 'o option) list \<Rightarrow> 'o list \<times> bool" where
  "run_thens s [] = ([], True)"
| "run_thens s (f # thens) =
     (case f s of
        None \<Rightarrow> ([], False)
      | Some out \<Rightarrow> (case run_thens s thens of (outs, all_ran) \<Rightarrow> (out # outs, all_ran)))"

text \<open>\<^verbatim>\<open>settle\<close> up to the append: nothing to append, events that do not encode, or a batch.\<close>

datatype to_append = NothingToAppend | NotEncodable | ToAppend "encoded_event list"

definition settle_begin ::
  "('m, 's, 'ev, 'sn, 'e, 'o) event_sourced \<Rightarrow> ('st, 'x, 'y, 'ev, 'sn) wiring
     \<Rightarrow> ('s, 'ev, 'o) effect \<Rightarrow> to_append" where
  "settle_begin A P eff =
     (if effect_events eff = [] then NothingToAppend
      else case catch_and_log (encode_events (event_codec (codec P)) (event_type A) (effect_events eff)) of
             None \<Rightarrow> NotEncodable
           | Some encoded \<Rightarrow> ToAppend encoded)"

text \<open>\<^verbatim>\<open>settle\<close> after the append: only appended events are applied.\<close>

definition settle_applied ::
  "('m, 's, 'ev, 'sn, 'e, 'o) event_sourced \<Rightarrow> 's \<Rightarrow> seq_no \<Rightarrow> 'ev list
     \<Rightarrow> (unit, 'x append_error) call \<Rightarrow> ('s \<times> seq_no) option" where
  "settle_applied A s next_seq_no events appended =
     (case catch_panic_and_log_async appended of
        Some (Ok _) \<Rightarrow>
          map_option (\<lambda>s'. (s', advanced_by next_seq_no (length events))) (apply_events A s events)
      | Some (Err _) \<Rightarrow> None
      | None \<Rightarrow> None)"

text \<open>
  \<^verbatim>\<open>settle\<close> from the continuations on: what they did, and unless one panicked the snapshot to
  save, if one is offered after an append.
\<close>

definition offered_snapshot ::
  "('m, 's, 'ev, 'sn, 'e, 'o) event_sourced \<Rightarrow> ('st, 'x, 'y, 'ev, 'sn) wiring \<Rightarrow> 's
     \<Rightarrow> encoded_snapshot option" where
  "offered_snapshot A P s =
     (case warn_unless_snapshot_saved
             (catch_unwind_async (encode_snapshot A (snapshot_codec (codec P)) s)) of
        Some (Some snapshot) \<Rightarrow> Some snapshot
      | Some None \<Rightarrow> None
      | None \<Rightarrow> None)"

definition settle_then ::
  "('m, 's, 'ev, 'sn, 'e, 'o) event_sourced \<Rightarrow> ('st, 'x, 'y, 'ev, 'sn) wiring \<Rightarrow> 's
     \<Rightarrow> ('s, 'ev, 'o) effect \<Rightarrow> 'o list \<times> encoded_snapshot option option" where
  "settle_then A P s eff =
     (case run_thens s (effect_thens eff) of (outs, all_ran) \<Rightarrow>
        (outs, if \<not> all_ran then None
               else if effect_events eff = [] then Some None
               else Some (offered_snapshot A P s)))"

record 's settled =
  settled_state :: 's
  settled_next :: seq_no
  settled_stop :: bool

text \<open>The whole of \<^verbatim>\<open>settle\<close>, with the actions its continuations took.\<close>

definition settle_end ::
  "('m, 's, 'ev, 'sn, 'e, 'o) event_sourced \<Rightarrow> ('st, 'x, 'y, 'ev, 'sn) wiring \<Rightarrow> persistence_id
     \<Rightarrow> 's \<Rightarrow> seq_no \<Rightarrow> ('s, 'ev, 'o) effect \<Rightarrow> 'st \<Rightarrow> 's settled option \<times> 'o list \<times> 'st" where
  "settle_end A P pid s n eff st =
     (case settle_then A P s eff of
        (outs, None) \<Rightarrow> (None, outs, st)
      | (outs, Some None) \<Rightarrow>
          (Some \<lparr>settled_state = s, settled_next = n, settled_stop = effect_stop eff\<rparr>, outs, st)
      | (outs, Some (Some snapshot)) \<Rightarrow>
          (case save_snapshot (snapshot_store P) pid n snapshot st of (_, st') \<Rightarrow>
             (Some \<lparr>settled_state = s, settled_next = n, settled_stop = effect_stop eff\<rparr>, outs, st')))"

definition settle ::
  "('m, 's, 'ev, 'sn, 'e, 'o) event_sourced \<Rightarrow> ('st, 'x, 'y, 'ev, 'sn) wiring \<Rightarrow> persistence_id
     \<Rightarrow> 's \<Rightarrow> seq_no \<Rightarrow> ('s, 'ev, 'o) effect \<Rightarrow> 'st \<Rightarrow> 's settled option \<times> 'o list \<times> 'st" where
  "settle A P pid s n eff st =
     (case settle_begin A P eff of
        NothingToAppend \<Rightarrow> settle_end A P pid s n eff st
      | NotEncodable \<Rightarrow> (None, [], st)
      | ToAppend encoded \<Rightarrow>
          (case append_events (event_store P) pid n encoded st of (appended, st') \<Rightarrow>
             (case settle_applied A s n (effect_events eff) appended of
                None \<Rightarrow> (None, [], st')
              | Some (s', n') \<Rightarrow> settle_end A P pid s' n' eff st')))"

end
