(* ===== verification/Incarnations.thy ===== *)
theory Incarnations
  imports EventSourcing
begin

text \<open>
  The task of an event-sourced actor, the run loop of \<^verbatim>\<open>spawn_event_sourced\<close> in \<^verbatim>\<open>spawn.rs\<close>:
  \<open>es_step\<close> runs it up to the next await. Incarnations of one entity run interleaved on a shared
  storage, which other entities write too; any of them may crash at any await (\<open>es_reach\<close>).
\<close>

datatype ('s, 'ev, 'o) es_phase =
    Recovering
  | Replaying persistence_id 's seq_no
  | Up persistence_id 's seq_no instant
  | Appending persistence_id 's seq_no instant "('s, 'ev, 'o) effect" "encoded_event list"
  | Saving persistence_id 's seq_no instant bool encoded_snapshot
  | EsFailed "instant option"
  | Restarting duration
  | Terminating

record ('s, 'ev, 'o) es_task =
  es_phase :: "('s, 'ev, 'o) es_phase"
  es_restarts :: u32
  es_config :: actor_config

text \<open>
  What a task observes when it is polled: the parent's stop, the mailbox, the clock, and the end of
  \<^verbatim>\<open>stop_children\<close> and of the backoff's sleep.
\<close>

record 'm es_obs =
  see_stop :: "unit option"
  see_incoming :: "'m incoming option"
  see_now :: instant
  see_has_changed :: "(bool, unit) result"
  see_children_gone :: bool
  see_slept :: "unit option"

text \<open>
  What a run of \<open>es_step\<close> did: the hook \<^verbatim>\<open>recovered\<close> ran on a state, a command was handed to
  \<^verbatim>\<open>handle\<close>, a batch was appended, or a continuation acted, each with the position it was at.
\<close>

datatype ('m, 's, 'ev, 'o) es_event =
    RecoveredRun seq_no 's
  | Handled seq_no "'m incoming"
  | Appended seq_no "'ev list"
  | Acted seq_no "'ev list" 'o

definition es_goto ::
  "('s, 'ev, 'o) es_task \<Rightarrow> ('s, 'ev, 'o) es_phase \<Rightarrow> ('s, 'ev, 'o) es_task" where
  "es_goto t ph = t\<lparr>es_phase := ph\<rparr>"

text \<open>After \<^verbatim>\<open>settle\<close>: the loop goes on, or the actor decided to stop.\<close>

definition es_settled ::
  "persistence_id \<Rightarrow> 's \<Rightarrow> seq_no \<Rightarrow> instant \<Rightarrow> bool \<Rightarrow> ('s, 'ev, 'o) es_phase" where
  "es_settled pid s n up_since stop = (if stop then Terminating else Up pid s n up_since)"

text \<open>The part of \<^verbatim>\<open>settle\<close> from the continuations to the next await, or to its end.\<close>

definition es_continue ::
  "('m, 's, 'ev, 'sn, 'e, 'o) event_sourced \<Rightarrow> ('st, 'x, 'y, 'ev, 'sn) wiring \<Rightarrow> persistence_id
     \<Rightarrow> 's \<Rightarrow> seq_no \<Rightarrow> instant \<Rightarrow> ('s, 'ev, 'o) effect
     \<Rightarrow> ('s, 'ev, 'o) es_phase \<times> ('m, 's, 'ev, 'o) es_event list" where
  "es_continue A P pid s n up_since eff =
     (case settle_then A P s eff of (outs, ran_to) \<Rightarrow>
        (case ran_to of
           None \<Rightarrow> EsFailed (Some up_since)
         | Some None \<Rightarrow> es_settled pid s n up_since (effect_stop eff)
         | Some (Some snapshot) \<Rightarrow> Saving pid s n up_since (effect_stop eff) snapshot,
         map (Acted n (effect_events eff)) outs))"

definition es_recover_step ::
  "('m, 's, 'ev, 'sn, 'e, 'o) event_sourced \<Rightarrow> ('st, 'x, 'y, 'ev, 'sn) wiring \<Rightarrow> 'st
     \<Rightarrow> ('s, 'ev, 'o) es_phase \<times> 'st" where
  "es_recover_step A P st =
     (case recover_begin A P st of
        (None, st') \<Rightarrow> (EsFailed None, st')
      | (Some (pid, s, n), st') \<Rightarrow> (Replaying pid s n, st'))"

definition es_replay_step ::
  "('m, 's, 'ev, 'sn, 'e, 'o) event_sourced \<Rightarrow> ('st, 'x, 'y, 'ev, 'sn) wiring \<Rightarrow> persistence_id
     \<Rightarrow> 's \<Rightarrow> seq_no \<Rightarrow> instant \<Rightarrow> 'st
     \<Rightarrow> (('s, 'ev, 'o) es_phase \<times> ('m, 's, 'ev, 'o) es_event list) \<times> 'st" where
  "es_replay_step A P pid s n now st =
     (case recover_page A P pid s n st of
        (ReplayFailed, st') \<Rightarrow> ((EsFailed None, []), st')
      | (MorePages s' n', st') \<Rightarrow> ((Replaying pid s' n', []), st')
      | (Replayed s' n', st') \<Rightarrow>
          ((case catch_and_log (es_recovered A s') of
              None \<Rightarrow> EsFailed None
            | Some s'' \<Rightarrow> Up pid s'' n' now, [RecoveredRun n' s']), st'))"

definition es_handle_step ::
  "('m, 's, 'ev, 'sn, 'e, 'o) event_sourced \<Rightarrow> ('st, 'x, 'y, 'ev, 'sn) wiring \<Rightarrow> persistence_id
     \<Rightarrow> 's \<Rightarrow> seq_no \<Rightarrow> instant \<Rightarrow> 'm incoming
     \<Rightarrow> ('s, 'ev, 'o) es_phase \<times> ('m, 's, 'ev, 'o) es_event list" where
  "es_handle_step A P pid s n up_since incoming =
     (case catch_and_log (es_handle A incoming s) of
        None \<Rightarrow> (EsFailed (Some up_since), [Handled n incoming])
      | Some eff \<Rightarrow>
          (case settle_begin A P eff of
             NothingToAppend \<Rightarrow>
               (case es_continue A P pid s n up_since eff of (ph, log) \<Rightarrow> (ph, Handled n incoming # log))
           | NotEncodable \<Rightarrow> (EsFailed (Some up_since), [Handled n incoming])
           | ToAppend encoded \<Rightarrow> (Appending pid s n up_since eff encoded, [Handled n incoming])))"

definition es_append_step ::
  "('m, 's, 'ev, 'sn, 'e, 'o) event_sourced \<Rightarrow> ('st, 'x, 'y, 'ev, 'sn) wiring \<Rightarrow> persistence_id
     \<Rightarrow> 's \<Rightarrow> seq_no \<Rightarrow> instant \<Rightarrow> ('s, 'ev, 'o) effect \<Rightarrow> encoded_event list \<Rightarrow> 'st
     \<Rightarrow> (('s, 'ev, 'o) es_phase \<times> ('m, 's, 'ev, 'o) es_event list) \<times> 'st" where
  "es_append_step A P pid s n up_since eff encoded st =
     (case append_events (event_store P) pid n encoded st of (appended, st') \<Rightarrow>
        (case settle_applied A s n (effect_events eff) appended of
           None \<Rightarrow> (EsFailed (Some up_since),
                   if appended = Return () then [Appended n (effect_events eff)] else [])
         | Some (s', n') \<Rightarrow>
             (case es_continue A P pid s' n' up_since eff of (ph, log) \<Rightarrow>
                (ph, Appended n (effect_events eff) # log)), st'))"

text \<open>\<^verbatim>\<open>await_restart\<close> up to \<^verbatim>\<open>stop_children\<close>, and from there on.\<close>

definition es_failed_step ::
  "'m es_obs \<Rightarrow> ('s, 'ev, 'o) es_task \<Rightarrow> instant option \<Rightarrow> ('s, 'ev, 'o) es_task" where
  "es_failed_step ob t up_since =
     (case next_restart (config_strategy (es_config t)) up_since (see_now ob) (es_restarts t) of
        (After delay, n) \<Rightarrow>
          t\<lparr>es_restarts := n,
            es_phase := (if parent_stopping (see_has_changed ob) then Terminating else Restarting delay)\<rparr>
      | (_, n) \<Rightarrow> t\<lparr>es_restarts := n, es_phase := Terminating\<rparr>)"

definition es_backoff_step :: "'m es_obs \<Rightarrow> duration \<Rightarrow> ('s, 'ev, 'o) es_phase option" where
  "es_backoff_step ob delay =
     (if \<not> see_children_gone ob then None
      else case await_backoff delay (see_has_changed ob) (see_stop ob) (see_slept ob) of
             None \<Rightarrow> None
           | Some NotInterrupted \<Rightarrow> Some Recovering
           | Some StoppedByParent \<Rightarrow> Some Terminating)"

text \<open>
  One poll of the task. Recovery and the wait for the next command are raced with the parent's
  stop, which wins; settling is not.
\<close>

definition es_step ::
  "('m, 's, 'ev, 'sn, 'e, 'o) event_sourced \<Rightarrow> ('st, 'x, 'y, 'ev, 'sn) wiring \<Rightarrow> 'm es_obs
     \<Rightarrow> ('s, 'ev, 'o) es_task \<Rightarrow> 'st
     \<Rightarrow> (('s, 'ev, 'o) es_task \<times> ('m, 's, 'ev, 'o) es_event list \<times> 'st) option" where
  "es_step A P ob t st =
     (case es_phase t of
        Recovering \<Rightarrow>
          (case see_stop ob of
             Some _ \<Rightarrow> Some (es_goto t Terminating, [], st)
           | None \<Rightarrow> (case es_recover_step A P st of (ph, st') \<Rightarrow> Some (es_goto t ph, [], st')))
      | Replaying pid s n \<Rightarrow>
          (case see_stop ob of
             Some _ \<Rightarrow> Some (es_goto t Terminating, [], st)
           | None \<Rightarrow> (case es_replay_step A P pid s n (see_now ob) st of
                       ((ph, log), st') \<Rightarrow> Some (es_goto t ph, log, st')))
      | Up pid s n up_since \<Rightarrow>
          (case select_biased (see_stop ob) (see_incoming ob) of
             None \<Rightarrow> None
           | Some (Inl _) \<Rightarrow> Some (es_goto t Terminating, [], st)
           | Some (Inr incoming) \<Rightarrow>
               (case es_handle_step A P pid s n up_since incoming of
                  (ph, log) \<Rightarrow> Some (es_goto t ph, log, st)))
      | Appending pid s n up_since eff encoded \<Rightarrow>
          (case es_append_step A P pid s n up_since eff encoded st of
             ((ph, log), st') \<Rightarrow> Some (es_goto t ph, log, st'))
      | Saving pid s n up_since stop snapshot \<Rightarrow>
          (case save_snapshot (snapshot_store P) pid n snapshot st of
             (_, st') \<Rightarrow> Some (es_goto t (es_settled pid s n up_since stop), [], st'))
      | EsFailed up_since \<Rightarrow> Some (es_failed_step ob t up_since, [], st)
      | Restarting delay \<Rightarrow> map_option (\<lambda>ph. (es_goto t ph, [], st)) (es_backoff_step ob delay)
      | Terminating \<Rightarrow> None)"

text \<open>\<^verbatim>\<open>spawn_event_sourced\<close> and its variants: a task about to recover, with no restarts yet.\<close>

definition es_spawn :: "actor_config \<Rightarrow> ('s, 'ev, 'o) es_task" where
  "es_spawn config = \<lparr>es_phase = Recovering, es_restarts = 0, es_config = config\<rparr>"

definition es_spawn_default :: "('s, 'ev, 'o) es_task" where
  "es_spawn_default = es_spawn actor_config_default"

section \<open>Interleaving\<close>

record ('st, 'm, 's, 'ev, 'o) es_world =
  es_storage :: 'st
  incarnations :: "nat \<Rightarrow> ('s, 'ev, 'o) es_task option"
  es_log :: "(nat \<times> ('m, 's, 'ev, 'o) es_event) list"

text \<open>The events a step is about to append; the storage must have numbers left for them.\<close>

fun to_be_appended :: "('s, 'ev, 'o) es_phase \<Rightarrow> nat" where
  "to_be_appended (Appending pid s n up_since eff encoded) = length encoded"
| "to_be_appended _ = 0"

definition es_initial :: "'st \<Rightarrow> ('st, 'm, 's, 'ev, 'o) es_world" where
  "es_initial st = \<lparr>es_storage = st, incarnations = (\<lambda>_. None), es_log = []\<rparr>"

inductive es_reach ::
  "('m, 's, 'ev, 'sn, 'e, 'o) event_sourced \<Rightarrow> ('st, 'x, 'y, 'ev, 'sn) wiring \<Rightarrow> persistence_id
     \<Rightarrow> ('st \<Rightarrow> persistence_id \<Rightarrow> encoded_event list) \<Rightarrow> 'st
     \<Rightarrow> ('st, 'm, 's, 'ev, 'o) es_world \<Rightarrow> bool"
  for A P pid stream st0 where
  es_start: "es_reach A P pid stream st0 (es_initial st0)"
| es_spawned:
    "es_reach A P pid stream st0 (w\<lparr>incarnations := (incarnations w)(i \<mapsto> es_spawn config)\<rparr>)"
    if "es_reach A P pid stream st0 w" and "incarnations w i = None"
| es_stepped:
    "es_reach A P pid stream st0
       (w\<lparr>es_storage := st', incarnations := (incarnations w)(i \<mapsto> t'),
          es_log := es_log w @ map (Pair i) log\<rparr>)"
    if "es_reach A P pid stream st0 w" and "incarnations w i = Some t"
      and "es_step A P ob t (es_storage w) = Some (t', log, st')"
      and "length (stream (es_storage w) pid) + to_be_appended (es_phase t) < 2 ^ 64"
| es_crashed:
    "es_reach A P pid stream st0 (w\<lparr>incarnations := (incarnations w)(i := None)\<rparr>)"
    if "es_reach A P pid stream st0 w"
| es_other_append:
    "es_reach A P pid stream st0 (w\<lparr>es_storage := st'\<rparr>)"
    if "es_reach A P pid stream st0 w" and "other \<noteq> pid"
      and "es_append (event_store P) other n events (es_storage w) = (r, st')"
      and "length (stream (es_storage w) other) + length events < 2 ^ 64"
| es_other_save:
    "es_reach A P pid stream st0 (w\<lparr>es_storage := st'\<rparr>)"
    if "es_reach A P pid stream st0 w" and "other \<noteq> pid"
      and "ss_save (snapshot_store P) other n snapshot (es_storage w) = (r2, st')"

end
