(* ===== verification/Durability.thy ===== *)
theory Durability
  imports Incarnations "HOL-Library.Sublist"
begin

text \<open>
  What event sourcing promises: every state an incarnation works with is the fold of a prefix of
  the durable stream, also with concurrent incarnations, crashes and discarded snapshots. The
  laws an application's actor owes are \<open>durable\<close>; the contract of the stores is the locale
  \<open>storage\<close>. A state may hold more than its durable part (child references, timers), so the laws
  speak of a view of the state.
\<close>

section \<open>Specification\<close>

text \<open>The events a stream decodes to.\<close>

fun decode_stream :: "'ev versioned \<Rightarrow> encoded_event list \<Rightarrow> 'ev list option" where
  "decode_stream T [] = Some []"
| "decode_stream T (e # es) =
     (case decode_event T e of
        Return ev \<Rightarrow> map_option ((#) ev) (decode_stream T es)
      | Fail _ \<Rightarrow> None
      | Panic \<Rightarrow> None)"

text \<open>
  The obligations the trait documents: \<^verbatim>\<open>init\<close> always gives the same seed, \<^verbatim>\<open>apply\<close> folds an
  event into the state, \<^verbatim>\<open>recovered\<close> reconciles with the world only, a snapshot stands for the
  state it was taken of, and the codec reading the stream is the one that wrote it.
\<close>

definition durable ::
  "('m, 's, 'ev, 'sn, 'e, 'o) event_sourced \<Rightarrow> ('ev, 'sn) codecs \<Rightarrow> ('s \<Rightarrow> 'v) \<Rightarrow> ('v \<Rightarrow> 'ev \<Rightarrow> 'v) \<Rightarrow> 'v \<Rightarrow> bool" where
  "durable A C view fd seed \<longleftrightarrow>
     round_trips (event_codec C) (event_type A) \<and>
     (\<forall>s. es_init A = Return s \<longrightarrow> view s = seed) \<and>
     (\<forall>s ev s'. es_apply A s ev = Some s' \<longrightarrow> view s' = fd (view s) ev) \<and>
     (\<forall>s s'. es_recovered A s = Return s' \<longrightarrow> view s' = view s) \<and>
     (\<forall>s sn b sn' s'. es_snapshot A s = Return (Some sn) \<longrightarrow>
        codec_encode (snapshot_codec C) sn = Return b \<longrightarrow>
        versioned_decode (snapshot_type A) (VERSION (snapshot_type A)) b = Return sn' \<longrightarrow>
        init_from_snapshot A sn' = Return s' \<longrightarrow> view s' = view s)"

text \<open>A state that is the fold of the first \<open>n\<close> events of a stream.\<close>

definition reflects ::
  "('m, 's, 'ev, 'sn, 'e, 'o) event_sourced \<Rightarrow> ('s \<Rightarrow> 'v) \<Rightarrow> ('v \<Rightarrow> 'ev \<Rightarrow> 'v) \<Rightarrow> 'v
     \<Rightarrow> encoded_event list \<Rightarrow> seq_no \<Rightarrow> 's \<Rightarrow> bool" where
  "reflects A view fd seed es n s \<longleftrightarrow>
     position n \<le> length es \<and>
     (\<exists>evs. decode_stream (event_type A) (take (position n) es) = Some evs \<and>
            view s = foldl fd seed evs)"

text \<open>A snapshot from which recovery starts with such a state, if it starts from it at all.\<close>

definition snapshot_reflects ::
  "('m, 's, 'ev, 'sn, 'e, 'o) event_sourced \<Rightarrow> ('s \<Rightarrow> 'v) \<Rightarrow> ('v \<Rightarrow> 'ev \<Rightarrow> 'v) \<Rightarrow> 'v
     \<Rightarrow> encoded_event list \<Rightarrow> stored_snapshot option \<Rightarrow> bool" where
  "snapshot_reflects A view fd seed es loaded \<longleftrightarrow>
     (\<forall>sn n s. decoded_snapshot A loaded = Some (sn, n) \<longrightarrow> init_from_snapshot A sn = Return s \<longrightarrow>
        reflects A view fd seed es n s)"

text \<open>The batch of an effect is durable before a position.\<close>

definition committed :: "'ev versioned \<Rightarrow> encoded_event list \<Rightarrow> seq_no \<Rightarrow> 'ev list \<Rightarrow> bool" where
  "committed T es n evs \<longleftrightarrow>
     position n \<le> length es \<and> length evs \<le> position n \<and>
     decode_stream T (drop (position n - length evs) (take (position n) es)) = Some evs"

fun phase_ok ::
  "('m, 's, 'ev, 'sn, 'e, 'o) event_sourced \<Rightarrow> ('ev, 'sn) codecs \<Rightarrow> persistence_id
     \<Rightarrow> (seq_no \<Rightarrow> 's \<Rightarrow> bool) \<Rightarrow> ('s, 'ev, 'o) es_phase \<Rightarrow> bool" where
  "phase_ok A C pid ok (Replaying p s n) \<longleftrightarrow> p = pid \<and> ok n s"
| "phase_ok A C pid ok (Up p s n up_since) \<longleftrightarrow> p = pid \<and> ok n s"
| "phase_ok A C pid ok (Appending p s n up_since eff encoded) \<longleftrightarrow>
     p = pid \<and> ok n s \<and> encode_events (event_codec C) (event_type A) (effect_events eff) = Return encoded"
| "phase_ok A C pid ok (Saving p s n up_since stop snapshot) \<longleftrightarrow>
     p = pid \<and> ok n s \<and> encode_snapshot A (snapshot_codec C) s = Return (Some snapshot)"
| "phase_ok A C pid ok _ \<longleftrightarrow> True"

fun event_ok :: "(seq_no \<Rightarrow> 's \<Rightarrow> bool) \<Rightarrow> (seq_no \<Rightarrow> 'ev list \<Rightarrow> bool) \<Rightarrow> ('m, 's, 'ev, 'o) es_event \<Rightarrow> bool" where
  "event_ok ok com (RecoveredRun n s) \<longleftrightarrow> ok n s"
| "event_ok ok com (Handled n incoming) \<longleftrightarrow> True"
| "event_ok ok com (Appended n evs) \<longleftrightarrow> com (advanced_by n (length evs)) evs"
| "event_ok ok com (Acted n evs out) \<longleftrightarrow> com n evs"

definition es_inv ::
  "('m, 's, 'ev, 'sn, 'e, 'o) event_sourced \<Rightarrow> ('ev, 'sn) codecs \<Rightarrow> persistence_id
     \<Rightarrow> ('s \<Rightarrow> 'v) \<Rightarrow> ('v \<Rightarrow> 'ev \<Rightarrow> 'v) \<Rightarrow> 'v \<Rightarrow> encoded_event list \<Rightarrow> stored_snapshot option
     \<Rightarrow> ('st, 'm, 's, 'ev, 'o) es_world \<Rightarrow> bool" where
  "es_inv A C pid view fd seed es loaded w \<longleftrightarrow>
     (\<forall>i t. incarnations w i = Some t \<longrightarrow> phase_ok A C pid (reflects A view fd seed es) (es_phase t)) \<and>
     snapshot_reflects A view fd seed es loaded \<and>
     (\<forall>i e. (i, e) \<in> set (es_log w) \<longrightarrow>
        event_ok (reflects A view fd seed es) (committed (event_type A) es) e)"

section \<open>Decoding and replaying\<close>

lemma decode_stream_append:
  "decode_stream T (es @ fs) =
     (case decode_stream T es of None \<Rightarrow> None | Some xs \<Rightarrow> map_option ((@) xs) (decode_stream T fs))"
proof (induction es)
  case Nil
  then show ?case by (cases "decode_stream T fs") simp_all
next
  case (Cons e es)
  then show ?case
    by (cases "decode_stream T fs") (simp_all split: call.splits option.splits)
qed

lemma decode_stream_length: "decode_stream T es = Some evs \<Longrightarrow> length evs = length es"
  by (induction es arbitrary: evs) (auto split: call.splits)

lemma encode_events_length: "encode_events C T evs = Return encoded \<Longrightarrow> length encoded = length evs"
  by (induction evs arbitrary: encoded) auto

lemma decode_encoded:
  assumes "round_trips C T"
  shows "encode_events C T evs = Return encoded \<Longrightarrow> decode_stream T encoded = Some evs"
proof (induction evs arbitrary: encoded)
  case (Cons ev evs)
  then obtain payload rest where "codec_encode C ev = Return payload"
    and "encode_events C T evs = Return rest"
    and "encoded = \<lparr>event_manifest = MANIFEST T, event_version = VERSION T, event_payload = payload\<rparr> # rest"
    by auto
  with Cons.IH round_trips_decode [OF assms] show ?case
    by (simp add: decode_event_def)
qed simp

lemma apply_events_view:
  assumes "\<And>s ev s'. es_apply A s ev = Some s' \<Longrightarrow> view s' = fd (view s) ev"
  shows "apply_events A s evs = Some s' \<Longrightarrow> view s' = foldl fd (view s) evs"
  by (induction evs arbitrary: s) (auto split: option.splits simp: assms)

lemma replay_page_decodes:
  assumes "replay_page A s n page = Return (s', n')" and "position n + length page < 2 ^ 64"
  shows "position n' = position n + length page \<and>
    (\<exists>evs. decode_stream (event_type A) (map stored_payload page) = Some evs \<and> apply_events A s evs = Some s')"
  using assms
proof (induction page arbitrary: s n)
  case (Cons stored page)
  from Cons.prems(1) obtain ev s1 where dec: "decode_event (event_type A) (stored_payload stored) = Return ev"
    and ap: "es_apply A s ev = Some s1" and rest: "replay_page A s1 (seq_no_succ n) page = Return (s', n')"
    by (auto split: if_splits option.splits)
  have succ: "position (seq_no_succ n) = Suc (position n)"
    using Cons.prems(2) by (simp add: succ_at)
  with Cons.IH [OF rest] Cons.prems(2) obtain evs
    where "position n' = Suc (position n) + length page"
      and "decode_stream (event_type A) (map stored_payload page) = Some evs"
      and "apply_events A s1 evs = Some s'" by auto
  with dec ap show ?case by auto
qed simp

text \<open>A page of a gapless stream is replayed iff it decodes and applies.\<close>

lemma replay_page_complete:
  assumes "\<And>i. i < length page \<Longrightarrow> stored_seq_no (page ! i) = at_position (position n + i)"
    and "position n + length page < 2 ^ 64"
    and "decode_stream (event_type A) (map stored_payload page) = Some evs"
    and "apply_events A s evs = Some s'"
  shows "replay_page A s n page = Return (s', at_position (position n + length page))"
  using assms
proof (induction page arbitrary: s n evs)
  case (Cons stored page)
  from Cons.prems(3,4) obtain ev evs' s1 where evs: "evs = ev # evs'"
    and dec: "decode_event (event_type A) (stored_payload stored) = Return ev"
    and ds: "decode_stream (event_type A) (map stored_payload page) = Some evs'"
    and ap: "es_apply A s ev = Some s1" and aps: "apply_events A s1 evs' = Some s'"
    by (auto split: call.splits option.splits)
  have succ: "position (seq_no_succ n) = Suc (position n)"
    using Cons.prems(2) by (simp add: succ_at)
  have seq: "stored_seq_no stored = n" using Cons.prems(1) [of 0] by simp
  have nxt: "\<And>i. i < length page \<Longrightarrow> stored_seq_no (page ! i) = at_position (position (seq_no_succ n) + i)"
    using Cons.prems(1) [of "Suc _"] by (simp add: succ)
  have "replay_page A s1 (seq_no_succ n) page = Return (s', at_position (position (seq_no_succ n) + length page))"
    by (rule Cons.IH [OF nxt _ ds aps]) (use Cons.prems(2) in \<open>simp_all add: succ\<close>)
  with seq dec ap show ?case by (simp add: succ)
qed (simp add: Cons_eq_appendI)

lemma reflects_prefix:
  assumes "reflects A view fd seed es n s" and "prefix es es'"
  shows "reflects A view fd seed es' n s"
  using assms by (auto simp: reflects_def prefix_def)

lemma committed_prefix:
  assumes "committed T es n evs" and "prefix es es'"
  shows "committed T es' n evs"
  using assms by (auto simp: committed_def prefix_def)

lemma reflects_view: "reflects A view fd seed es n s \<Longrightarrow> view s' = view s \<Longrightarrow> reflects A view fd seed es n s'"
  by (simp add: reflects_def)

lemma reflects_extend:
  assumes "reflects A view fd seed es n s"
    and "position n' = position n + length fs" and "position n' \<le> length es"
    and "take (length fs) (drop (position n) es) = fs"
    and "decode_stream (event_type A) fs = Some evs" and "view s' = foldl fd (view s) evs"
  shows "reflects A view fd seed es n' s'"
proof -
  obtain evs0 where "decode_stream (event_type A) (take (position n) es) = Some evs0"
    and "view s = foldl fd seed evs0" using assms(1) by (auto simp: reflects_def)
  moreover have "take (position n') es = take (position n) es @ fs"
    using assms(2,4) by (metis take_add)
  ultimately show ?thesis
    using assms(3,5,6) by (simp add: reflects_def decode_stream_append)
qed

lemma settle_applied_Return:
  "settle_applied A s n evs (Return u) =
     map_option (\<lambda>s'. (s', advanced_by n (length evs))) (apply_events A s evs)"
  by (simp add: settle_applied_def catch_panic_and_log_async_def catch_unwind_async_def)

lemma settle_applied_failed: "r \<noteq> Return () \<Longrightarrow> settle_applied A s n evs r = None"
  by (cases r) (simp_all add: settle_applied_def catch_panic_and_log_async_def catch_unwind_async_def)

section \<open>The steps of an entity\<close>

locale durable_entity = storage "event_store P" stream inv "snapshot_store P" snap
  for P :: "('st, 'x, 'y, 'ev, 'sn) wiring"
    and stream :: "'st \<Rightarrow> persistence_id \<Rightarrow> encoded_event list" and inv :: "'st \<Rightarrow> bool"
    and snap :: "'st \<Rightarrow> persistence_id \<Rightarrow> stored_snapshot option" +
  fixes A :: "('m, 's, 'ev, 'sn, 'e, 'o) event_sourced" and pid :: persistence_id
    and view :: "'s \<Rightarrow> 'v" and fd :: "'v \<Rightarrow> 'ev \<Rightarrow> 'v" and seed :: 'v
  assumes identity: "es_persistence_id A = Some pid"
    and laws: "durable A (codec P) view fd seed"
begin

lemma codec_round_trips: "round_trips (event_codec (codec P)) (event_type A)"
  and init_view: "es_init A = Return s \<Longrightarrow> view s = seed"
  and apply_view: "es_apply A s ev = Some s' \<Longrightarrow> view s' = fd (view s) ev"
  and recovered_view: "es_recovered A s = Return s' \<Longrightarrow> view s' = view s"
  using laws by (simp_all add: durable_def)

lemma snapshot_view:
  assumes "es_snapshot A s = Return (Some sn)" and "codec_encode (snapshot_codec (codec P)) sn = Return b"
    and "versioned_decode (snapshot_type A) (VERSION (snapshot_type A)) b = Return sn'"
    and "init_from_snapshot A sn' = Return s'"
  shows "view s' = view s"
  using laws assms unfolding durable_def by blast

lemma recovered_reflects:
  assumes "es_recovered A s = Return s'" and "reflects A view fd seed es n s"
  shows "reflects A view fd seed es n s'"
  using assms(2) recovered_view [OF assms(1)] by (rule reflects_view)

lemma seed_reflects:
  assumes "snapshot_reflects A view fd seed es loaded" and "recover_seed A loaded = Some (s, n)"
  shows "reflects A view fd seed es n s"
  using assms
  by (auto simp: recover_seed_def snapshot_reflects_def reflects_def catch_and_log_Some init_view
      split: option.splits)

lemma snapshot_of_state:
  assumes "encode_snapshot A (snapshot_codec (codec P)) s = Return (Some encoded)"
    and "reflects A view fd seed es n s"
  shows "snapshot_reflects A view fd seed es (Some \<lparr>stored_next_seq_no = n, stored_encoded = encoded\<rparr>)"
proof -
  obtain sn b where "es_snapshot A s = Return (Some sn)"
    and "codec_encode (snapshot_codec (codec P)) sn = Return b"
    and "encoded = \<lparr>snapshot_manifest = MANIFEST (snapshot_type A),
           snapshot_version = VERSION (snapshot_type A), snapshot_payload = b\<rparr>"
    using assms(1) by (auto simp: encode_snapshot_def split: option.splits)
  with snapshot_view reflects_view [OF assms(2)] show ?thesis
    by (auto simp: snapshot_reflects_def decoded_snapshot_def decode_versioned_def split: call.splits)
qed

lemma load_step:
  assumes inv: "inv st" and "recover_begin A P st = (r, st')"
    and ok: "snapshot_reflects A view fd seed (stream st pid) (snap st pid)"
  shows "stream st' = stream st \<and> snap st' = snap st \<and> inv st' \<and>
    (\<forall>p s n. r = Some (p, s, n) \<longrightarrow> p = pid \<and> reflects A view fd seed (stream st pid) n s)"
proof -
  obtain l where l: "ss_load (snapshot_store P) pid st = (l, st')"
    and r: "r = (case catch_panic_and_log_async l of
                   Some (Ok snapshot) \<Rightarrow> map_option (Pair pid) (recover_seed A snapshot)
                 | Some (Err _) \<Rightarrow> None | None \<Rightarrow> None)"
    using assms(2) identity
    by (auto simp: recover_begin_def split: prod.splits option.splits sum.splits)
  from load_snap [OF l] ok seed_reflects have "r = Some (p, s, n) \<Longrightarrow>
      p = pid \<and> reflects A view fd seed (stream st pid) n s" for p s n
    by (auto simp: r catch_panic_and_log_async_def catch_unwind_async_def
        split: option.splits sum.splits call.splits)
  with load_snap [OF l] load_stream [OF l] inv show ?thesis by blast
qed

lemma page_step:
  assumes inv: "inv st" and fits: "length (stream st pid) < 2 ^ 64"
    and page: "recover_page A P pid s n st = (r, st')"
    and ok: "reflects A view fd seed (stream st pid) n s"
  shows "stream st' = stream st \<and> snap st' = snap st \<and> inv st' \<and>
    (\<forall>s' n'. r = Replayed s' n' \<or> r = MorePages s' n' \<longrightarrow> reflects A view fd seed (stream st pid) n' s')"
proof -
  obtain l where l: "es_read (event_store P) pid n REPLAY_PAGE st = (l, st')"
    using page by (auto simp: recover_page_def es_read_page_def split: prod.splits option.splits sum.splits if_splits)
  have "reflects A view fd seed (stream st pid) n' s'" if some: "r = Replayed s' n' \<or> r = MorePages s' n'" for s' n'
  proof -
    obtain events where "l = Return events" and replay: "replay_page A s n events = Return (s', n')"
      using page l some
      by (auto simp: recover_page_def es_read_page_def catch_panic_and_log_async_def
          catch_unwind_async_def catch_and_log_Some split: option.splits sum.splits call.splits if_splits)
    with read_page [OF inv REPLAY_PAGE_small l] have events: "events = take REPLAY_PAGE (drop (position n) (numbered (stream st pid)))"
      by simp
    then have len: "position n + length events \<le> length (stream st pid)"
      using ok by (auto simp: reflects_def min_def)
    with fits replay_page_decodes [OF replay] obtain evs where pos: "position n' = position n + length events"
      and dec: "decode_stream (event_type A) (map stored_payload events) = Some evs"
      and app: "apply_events A s evs = Some s'" by auto
    have payloads: "map stored_payload events = take (length events) (drop (position n) (stream st pid))"
      by (simp add: events take_map [symmetric] drop_map [symmetric] min_def)
    show ?thesis
      by (rule reflects_extend [OF ok _ _ _ dec])
        (use pos len payloads apply_events_view [of A view fd, OF apply_view app] in simp_all)
  qed
  with read_page [OF inv REPLAY_PAGE_small l] read_snap [OF l] show ?thesis by blast
qed

lemma append_step:
  assumes inv: "inv st" and fits: "length (stream st pid) + length encoded < 2 ^ 64"
    and appended: "es_append (event_store P) pid n encoded st = (Return (), st')"
    and enc: "encode_events (event_codec (codec P)) (event_type A) evs = Return encoded"
  shows "committed (event_type A) (stream st' pid) (advanced_by n (length evs)) evs"
    and "reflects A view fd seed (stream st pid) n s \<Longrightarrow> apply_events A s evs = Some s' \<Longrightarrow>
      reflects A view fd seed (stream st' pid) (advanced_by n (length evs)) s'"
proof -
  let ?n' = "advanced_by n (length evs)"
  have len: "length encoded = length evs" using enc by (rule encode_events_length)
  have dec: "decode_stream (event_type A) encoded = Some evs"
    by (rule decode_encoded [OF codec_round_trips enc])
  have n: "position n = length (stream st pid)" and str: "stream st' pid = stream st pid @ encoded"
    using append_ok [OF inv fits appended] fits by simp_all
  have n': "position ?n' = position n + length encoded"
    using fits n len by (simp add: advanced_by_at)
  show "committed (event_type A) (stream st' pid) ?n' evs"
    using n n' str dec len by (simp add: committed_def)
  assume ok: "reflects A view fd seed (stream st pid) n s" and app: "apply_events A s evs = Some s'"
  from ok have "reflects A view fd seed (stream st' pid) n s"
    by (rule reflects_prefix) (simp add: str)
  then show "reflects A view fd seed (stream st' pid) ?n' s'"
    by (rule reflects_extend [OF _ n' _ _ dec])
      (use n n' str apply_events_view [of A view fd, OF apply_view app] in simp_all)
qed

lemma append_grows:
  assumes "inv st" and "length (stream st p) + length encoded < 2 ^ 64"
    and "es_append (event_store P) p n encoded st = (r, st')"
  shows "prefix (stream st pid) (stream st' pid) \<and> (p \<noteq> pid \<longrightarrow> stream st' pid = stream st pid) \<and>
    snap st' = snap st \<and> inv st'"
  using append_cases [OF assms] append_inv [OF assms] append_snap [OF assms(3)] by auto

text \<open>What every step leaves intact of the storage.\<close>

abbreviation kept :: "'st \<Rightarrow> 'st \<Rightarrow> bool" where
  "kept st st' \<equiv> prefix (stream st pid) (stream st' pid) \<and> inv st' \<and>
     snapshot_reflects A view fd seed (stream st' pid) (snap st' pid)"

abbreviation phase_good :: "'st \<Rightarrow> ('s, 'ev, 'o) es_phase \<Rightarrow> bool" where
  "phase_good st \<equiv> phase_ok A (codec P) pid (reflects A view fd seed (stream st pid))"

abbreviation event_good :: "'st \<Rightarrow> ('m, 's, 'ev, 'o) es_event \<Rightarrow> bool" where
  "event_good st \<equiv> event_ok (reflects A view fd seed (stream st pid)) (committed (event_type A) (stream st pid))"

lemma snapshot_reflects_prefix:
  assumes "snapshot_reflects A view fd seed es loaded" and "prefix es es'"
  shows "snapshot_reflects A view fd seed es' loaded"
  using assms(1) by (auto simp: snapshot_reflects_def intro: reflects_prefix [OF _ assms(2)])

lemma committed_nothing: "reflects A view fd seed es n s \<Longrightarrow> committed T es n []"
  by (simp add: committed_def reflects_def)

lemma offered_encoded:
  "offered_snapshot A P s = Some sn \<Longrightarrow> encode_snapshot A (snapshot_codec (codec P)) s = Return (Some sn)"
  by (auto simp: offered_snapshot_def warn_unless_snapshot_saved_def catch_unwind_async_def
      split: option.splits sum.splits call.splits)

lemma continue_good:
  assumes "reflects A view fd seed (stream st pid) n s"
    and "committed (event_type A) (stream st pid) n (effect_events eff)"
    and "es_continue A P pid s n up_since eff = (ph, log)"
  shows "phase_good st ph \<and> (\<forall>e \<in> set log. event_good st e)"
  using assms
  by (auto simp: es_continue_def settle_then_def es_settled_def offered_encoded
      split: prod.splits option.splits if_splits)

lemma recover_step_good:
  assumes "inv st" and "snapshot_reflects A view fd seed (stream st pid) (snap st pid)"
    and "es_recover_step A P st = (ph, st')"
  shows "kept st st' \<and> phase_good st' ph"
proof -
  obtain r where "recover_begin A P st = (r, st')"
    and "ph = (case r of None \<Rightarrow> EsFailed None | Some (p, s, n) \<Rightarrow> Replaying p s n)"
    using assms(3) by (auto simp: es_recover_step_def split: prod.splits option.splits)
  with load_step [OF assms(1) _ assms(2)] assms(2) show ?thesis
    by (auto split: option.splits)
qed

lemma replay_step_good:
  assumes "inv st" and "snapshot_reflects A view fd seed (stream st pid) (snap st pid)"
    and "length (stream st pid) < 2 ^ 64" and ok: "reflects A view fd seed (stream st pid) n s"
    and "es_replay_step A P pid s n now st = ((ph, log), st')"
  shows "kept st st' \<and> phase_good st' ph \<and> (\<forall>e \<in> set log. event_good st' e)"
proof -
  obtain r where r: "recover_page A P pid s n st = (r, st')"
    by (cases "recover_page A P pid s n st")
      (use assms(5) in \<open>auto simp: es_replay_step_def split: replayed.splits\<close>)
  have page: "stream st' = stream st" "snap st' = snap st" "inv st'"
    "r = Replayed s' n' \<or> r = MorePages s' n' \<Longrightarrow> reflects A view fd seed (stream st pid) n' s'" for s' n'
    using page_step [OF assms(1,3) r ok] by blast+
  have "phase_good st' ph \<and> (\<forall>e \<in> set log. event_good st' e)"
    using assms(5) r page(1,4) recovered_reflects
    by (auto simp: es_replay_step_def catch_and_log_Some split: replayed.splits option.splits)
  with page assms(2) show ?thesis by simp
qed

lemma handle_step_good:
  assumes "reflects A view fd seed (stream st pid) n s"
    and "es_handle_step A P pid s n up_since incoming = (ph, log)"
  shows "phase_good st ph \<and> (\<forall>e \<in> set log. event_good st e)"
proof -
  have no_append: "phase_good st ph' \<and> (\<forall>e \<in> set log'. event_good st e)"
    if "settle_begin A P eff = NothingToAppend" and "es_continue A P pid s n up_since eff = (ph', log')"
    for eff ph' log'
    using continue_good [OF assms(1) _ that(2)] committed_nothing [OF assms(1)] that(1)
    by (auto simp: settle_begin_def split: if_splits option.splits)
  have enc: "encode_events (event_codec (codec P)) (event_type A) (effect_events eff) = Return encoded"
    if "settle_begin A P eff = ToAppend encoded" for eff encoded
    using that by (auto simp: settle_begin_def catch_and_log_Some split: if_splits option.splits)
  show ?thesis
  proof (cases "catch_and_log (es_handle A incoming s)")
    case None
    then show ?thesis using assms by (auto simp: es_handle_step_def)
  next
    case (Some eff)
    show ?thesis
    proof (cases "settle_begin A P eff")
      case NothingToAppend
      then obtain log' where "es_continue A P pid s n up_since eff = (ph, log')"
        and "log = Handled n incoming # log'"
        using assms(2) Some by (auto simp: es_handle_step_def split: prod.splits)
      with no_append [OF NothingToAppend] have "phase_good st ph \<and> (\<forall>e \<in> set log'. event_good st e)"
        by blast
      with \<open>log = Handled n incoming # log'\<close> show ?thesis by simp
    qed (use assms enc Some in \<open>auto simp: es_handle_step_def\<close>)
  qed
qed

lemma append_step_good:
  assumes inv: "inv st" and "snapshot_reflects A view fd seed (stream st pid) (snap st pid)"
    and fits: "length (stream st pid) + length encoded < 2 ^ 64"
    and ok: "reflects A view fd seed (stream st pid) n s"
    and enc: "encode_events (event_codec (codec P)) (event_type A) (effect_events eff) = Return encoded"
    and step: "es_append_step A P pid s n up_since eff encoded st = ((ph, log), st')"
  shows "kept st st' \<and> phase_good st' ph \<and> (\<forall>e \<in> set log. event_good st' e)"
proof -
  obtain r where r: "es_append (event_store P) pid n encoded st = (r, st')"
    using step by (auto simp: es_append_step_def append_events_def split: prod.splits option.splits)
  have grown: "prefix (stream st pid) (stream st' pid)" "snap st' = snap st" "inv st'"
    using append_grows [OF inv fits r] by blast+
  have "phase_good st' ph \<and> (\<forall>e \<in> set log. event_good st' e)"
  proof (cases "r = Return ()")
    case True
    note ap = append_step [OF inv fits r [unfolded True] enc]
    show ?thesis
    proof (cases "apply_events A s (effect_events eff)")
      case None
      then have "ph = EsFailed (Some up_since) \<and> log = [Appended n (effect_events eff)]"
        using step r True by (simp add: es_append_step_def append_events_def settle_applied_Return)
      with ap(1) show ?thesis by simp
    next
      case (Some s')
      let ?n' = "advanced_by n (length (effect_events eff))"
      obtain log' where "es_continue A P pid s' ?n' up_since eff = (ph, log')"
        and "log = Appended n (effect_events eff) # log'"
        using step r True Some
        by (auto simp: es_append_step_def append_events_def settle_applied_Return split: prod.splits)
      with continue_good [OF ap(2) [OF ok Some] ap(1)] ap(1) show ?thesis by auto
    qed
  next
    case False
    then have "ph = EsFailed (Some up_since) \<and> log = []"
      using step r by (simp add: es_append_step_def append_events_def settle_applied_failed)
    then show ?thesis by simp
  qed
  with grown assms(2) snapshot_reflects_prefix show ?thesis by metis
qed

lemma save_step_good:
  assumes "inv st" and "snapshot_reflects A view fd seed (stream st pid) (snap st pid)"
    and "reflects A view fd seed (stream st pid) n s"
    and "encode_snapshot A (snapshot_codec (codec P)) s = Return (Some snapshot)"
    and save: "ss_save (snapshot_store P) pid n snapshot st = (r, st')"
  shows "kept st st' \<and> stream st' = stream st"
  using save_snap [OF save] save_stream [OF save] assms(1,2) snapshot_of_state [OF assms(4,3)] by auto

lemma es_step_good:
  assumes step: "es_step A P ob t st = Some (t', log, st')" and inv: "inv st"
    and snap: "snapshot_reflects A view fd seed (stream st pid) (snap st pid)"
    and fits: "length (stream st pid) + to_be_appended (es_phase t) < 2 ^ 64"
    and ok: "phase_good st (es_phase t)"
  shows "kept st st' \<and> phase_good st' (es_phase t') \<and> (\<forall>e \<in> set log. event_good st' e)"
proof (cases "es_phase t")
  case Recovering
  then show ?thesis
    using step inv snap recover_step_good [OF inv snap]
    by (auto simp: es_step_def es_goto_def split: option.splits prod.splits)
next
  case (Replaying p s n)
  then show ?thesis
    using step inv snap fits ok replay_step_good [OF inv snap, of n s]
    by (fastforce simp: es_step_def es_goto_def split: option.splits prod.splits)
next
  case (Up p s n up_since)
  then show ?thesis
    using step inv snap ok handle_step_good [of st n s]
    by (fastforce simp: es_step_def es_goto_def split: option.splits sum.splits prod.splits)
next
  case (Appending p s n up_since eff encoded)
  then show ?thesis
    using step fits ok append_step_good [OF inv snap, of encoded n s eff]
    by (fastforce simp: es_step_def es_goto_def split: prod.splits)
next
  case (Saving p s n up_since stop snapshot)
  then obtain r where r: "ss_save (snapshot_store P) pid n snapshot st = (r, st')"
    and t': "t' = es_goto t (es_settled pid s n up_since stop)" and log: "log = []"
    using step ok by (auto simp: es_step_def save_snapshot_def split: prod.splits)
  with Saving ok save_step_good [OF inv snap _ _ r] show ?thesis
    by (auto simp: es_goto_def es_settled_def)
next
  case (EsFailed up_since)
  then show ?thesis
    using step inv snap
    by (auto simp: es_step_def es_failed_step_def split: prod.splits restart.splits)
next
  case (Restarting delay)
  then show ?thesis
    using step inv snap
    by (auto simp: es_step_def es_goto_def es_backoff_step_def split: if_splits option.splits interrupted.splits)
next
  case Terminating
  then show ?thesis using step by (simp add: es_step_def)
qed

lemma phase_ok_mono:
  "phase_ok A C p ok ph \<Longrightarrow> (\<And>n s. ok n s \<Longrightarrow> ok' n s) \<Longrightarrow> phase_ok A C p ok' ph"
  by (cases ph) auto

lemma event_ok_mono:
  "event_ok ok com e \<Longrightarrow> (\<And>n s. ok n s \<Longrightarrow> ok' n s) \<Longrightarrow> (\<And>n evs. com n evs \<Longrightarrow> com' n evs) \<Longrightarrow>
     event_ok ok' com' e"
  by (cases e) auto

lemma es_inv_prefix:
  assumes "es_inv A C p view fd seed es loaded w" and "prefix es es'"
    and "snapshot_reflects A view fd seed es' loaded'"
  shows "es_inv A C p view fd seed es' loaded' w"
proof -
  note grow = reflects_prefix [OF _ assms(2)] committed_prefix [OF _ assms(2)]
  have "phase_ok A C p (reflects A view fd seed es') (es_phase t)" if "incarnations w i = Some t" for i t
    by (rule phase_ok_mono [OF _ grow(1)]) (use assms(1) that in \<open>auto simp: es_inv_def\<close>)
  moreover have "event_ok (reflects A view fd seed es') (committed (event_type A) es') e"
    if "(i, e) \<in> set (es_log w)" for i e
    by (rule event_ok_mono [OF _ grow]) (use assms(1) that in \<open>auto simp: es_inv_def\<close>)
  ultimately show ?thesis using assms(3) by (simp add: es_inv_def)
qed

text \<open>The invariant holds in every interleaving, and no event is ever taken back.\<close>

lemma es_reach_inv:
  assumes "es_reach A P pid stream st0 w" and "inv st0"
    and "snapshot_reflects A view fd seed (stream st0 pid) (snap st0 pid)"
  shows "inv (es_storage w) \<and> prefix (stream st0 pid) (stream (es_storage w) pid) \<and>
    es_inv A (codec P) pid view fd seed (stream (es_storage w) pid) (snap (es_storage w) pid) w"
  using assms(1)
proof (induction rule: es_reach.induct)
  case es_start
  then show ?case using assms(2,3) by (simp add: es_initial_def es_inv_def)
next
  case (es_spawned w i config)
  then show ?case by (auto simp: es_inv_def es_spawn_def)
next
  case (es_stepped w i t ob t' log st')
  let ?st = "es_storage w"
  have snap: "snapshot_reflects A view fd seed (stream ?st pid) (snap ?st pid)"
    and ok: "phase_good ?st (es_phase t)"
    using es_stepped.IH es_stepped.hyps(2) by (auto simp: es_inv_def)
  have good: "kept ?st st'" "phase_good st' (es_phase t')" "\<forall>e \<in> set log. event_good st' e"
    using es_step_good [OF es_stepped.hyps(3) _ snap es_stepped.hyps(4) ok] es_stepped.IH by blast+
  then have "es_inv A (codec P) pid view fd seed (stream st' pid) (snap st' pid) w"
    using es_stepped.IH es_inv_prefix by blast
  with good es_stepped.IH show ?case
    by (auto simp: es_inv_def)
next
  case (es_crashed w i)
  then show ?case by (simp add: es_inv_def)
next
  case (es_other_append w other n events r st')
  then have "stream st' pid = stream (es_storage w) pid \<and> snap st' = snap (es_storage w) \<and> inv st'"
    using append_grows [of "es_storage w" other events n r st'] by blast
  with es_other_append.IH show ?case by (simp add: es_inv_def)
next
  case (es_other_save w other n snapshot r2 st')
  then have "snap st' pid = snap (es_storage w) pid \<and> stream st' = stream (es_storage w) \<and> inv st'"
    using save_snap [of other n snapshot "es_storage w" r2 st']
      save_stream [of other n snapshot "es_storage w" r2 st'] by auto
  with es_other_save.IH show ?case by (simp add: es_inv_def)
qed

end

end
