(* ===== verification/Recovery.thy ===== *)
theory Recovery
  imports Durability
begin

text \<open>
  \<open>recover\<close> and \<open>settle\<close> of an actor that has the storage to itself: the replay loop ends,
  page by page it computes one fold over the whole stream, and it finds again what was settled.
\<close>

lemma apply_events_append:
  "apply_events A s (evs @ evs') =
     (case apply_events A s evs of None \<Rightarrow> None | Some s' \<Rightarrow> apply_events A s' evs')"
  by (induction evs arbitrary: s) (auto split: option.splits)

lemma decode_stream_split:
  "decode_stream T (es @ fs) = Some evs \<longleftrightarrow>
     (\<exists>evs1 evs2. decode_stream T es = Some evs1 \<and> decode_stream T fs = Some evs2 \<and> evs = evs1 @ evs2)"
  by (auto simp: decode_stream_append split: option.splits)

lemma recover_page_read:
  assumes "es_read (event_store P) pid n REPLAY_PAGE st = (Return page, st')"
    and "replay_page A s n page = Return (s', n')"
  shows "recover_page A P pid s n st =
    (if length page < REPLAY_PAGE then Replayed s' n' else MorePages s' n', st')"
  using assms
  by (simp add: recover_page_def es_read_page_def catch_panic_and_log_async_def catch_unwind_async_def)

text \<open>Replaying from a position to the end, in as many pages as it takes.\<close>

lemma replay_loop_complete:
  assumes healthy: "\<And>n. es_read (event_store P) pid n REPLAY_PAGE st =
      (Return (take REPLAY_PAGE (drop (position n) (numbered es))), st)"
    and fits: "length es < 2 ^ 64"
  shows "position n \<le> length es \<Longrightarrow> decode_stream (event_type A) (drop (position n) es) = Some evs \<Longrightarrow>
    apply_events A s evs = Some s' \<Longrightarrow>
    replay_loop A P pid s n st = Some (Some (s', at_position (length es)), st)"
proof (induction "length es - position n" arbitrary: n s evs rule: less_induct)
  case less
  define page where "page = take REPLAY_PAGE (drop (position n) (numbered es))"
  have len: "position n + length page \<le> length es"
    using less.prems(1) by (auto simp: page_def min_def)
  have payloads: "map stored_payload page = take REPLAY_PAGE (drop (position n) es)"
    by (simp add: page_def take_map [symmetric] drop_map [symmetric])
  have split: "map stored_payload page @ drop (position n + REPLAY_PAGE) es = drop (position n) es"
    unfolding payloads by (metis append_take_drop_id drop_drop add.commute)
  from less.prems(2)
  have "decode_stream (event_type A) (map stored_payload page @ drop (position n + REPLAY_PAGE) es) = Some evs"
    by (simp only: split)
  then obtain evs1 evs2 where dec1: "decode_stream (event_type A) (map stored_payload page) = Some evs1"
    and dec2: "decode_stream (event_type A) (drop (position n + REPLAY_PAGE) es) = Some evs2"
    and evs: "evs = evs1 @ evs2"
    unfolding decode_stream_split by blast
  obtain s1 where app1: "apply_events A s evs1 = Some s1" and app2: "apply_events A s1 evs2 = Some s'"
    using less.prems(3) evs by (auto simp: apply_events_append split: option.splits)
  let ?n1 = "at_position (position n + length page)"
  have "stored_seq_no (page ! i) = at_position (position n + i)" if "i < length page" for i
  proof -
    have "position n + i < length es" using that by (auto simp: page_def)
    with that less.prems(1) show ?thesis by (simp add: page_def nth_numbered)
  qed
  then have replay: "replay_page A s n page = Return (s1, ?n1)"
    using replay_page_complete [OF _ _ dec1 app1] len fits by force
  note step = recover_page_read [OF healthy [of n, folded page_def] replay]
  show ?case
  proof (cases "length page < REPLAY_PAGE")
    case True
    then have "position n + length page = length es" and "drop (position n + REPLAY_PAGE) es = []"
      using less.prems(1) by (auto simp: page_def)
    with app2 dec2 True step show ?thesis by (simp add: replay_loop.simps)
  next
    case False
    then have full: "length page = REPLAY_PAGE" by (simp add: page_def)
    have pos: "position ?n1 = position n + REPLAY_PAGE"
      using len fits full by simp
    have "replay_loop A P pid s1 ?n1 st = Some (Some (s', at_position (length es)), st)"
      by (rule less.hyps [OF _ _ _ app2])
        (use pos len full dec2 in \<open>auto simp: REPLAY_PAGE_def\<close>)
    with False step show ?thesis by (subst replay_loop.simps) simp
  qed
qed

context event_store_contract
begin

text \<open>The loop ends on every storage that keeps the contract, also where reads fail.\<close>

lemma replay_loop_returns:
  assumes "event_store P = es" and "inv st" and "length (stream st pid) < 2 ^ 64"
  shows "\<exists>r st'. replay_loop A P pid s n st = Some (r, st')"
  using assms(2,3)
proof (induction "length (stream st pid) - position n" arbitrary: s n st rule: less_induct)
  case less
  obtain r st' where page: "recover_page A P pid s n st = (r, st')" by (cases "recover_page A P pid s n st")
  show ?case
  proof (cases r)
    case (MorePages s1 n1)
    then obtain events where read: "es_read es pid n REPLAY_PAGE st = (Return events, st')"
      and replay: "replay_page A s n events = Return (s1, n1)" and len: "REPLAY_PAGE \<le> length events"
      using page assms(1)
      by (auto simp: recover_page_def es_read_page_def catch_panic_and_log_async_def
          catch_unwind_async_def catch_and_log_Some split: prod.splits option.splits sum.splits call.splits if_splits)
    from read_page [OF less.prems(1) REPLAY_PAGE_small read]
    have st': "stream st' = stream st" "inv st'"
      and "events = take REPLAY_PAGE (drop (position n) (numbered (stream st pid)))" by auto
    then have full: "length events = REPLAY_PAGE" and bound: "position n + REPLAY_PAGE \<le> length (stream st pid)"
      using len by (auto simp: REPLAY_PAGE_def)
    have "position n1 = position n + REPLAY_PAGE"
      using replay_page_decodes [OF replay] full bound less.prems(2) by simp
    then have "length (stream st' pid) - position n1 < length (stream st pid) - position n"
      using bound st' by (simp add: REPLAY_PAGE_def)
    from less.hyps [OF this] st' less.prems(2)
    have "\<exists>r st''. replay_loop A P pid s1 n1 st' = Some (r, st'')" by simp
    with MorePages page show ?thesis by (subst replay_loop.simps) simp
  qed (use page in \<open>subst replay_loop.simps, simp\<close>)+
qed

end

text \<open>On an in-memory store with its snapshots, recovery is the seed and one fold.\<close>

lemma recover_in_memory:
  assumes stores: "event_store P = in_memory_event_store" "snapshot_store P = in_memory_snapshot_store"
    and id: "es_persistence_id A = Some pid" and inv: "in_memory_inv st"
    and seed: "recover_seed A (in_memory_snapshot st pid) = Some (s, n)"
    and pos: "position n \<le> length (in_memory_stream st pid)"
    and dec: "decode_stream (event_type A) (drop (position n) (in_memory_stream st pid)) = Some evs"
    and app: "apply_events A s evs = Some s'"
  shows "recover A P st =
    Some (Some \<lparr>recovered_id = pid, recovered_state = s',
                recovered_next = at_position (length (in_memory_stream st pid))\<rparr>, st)"
proof -
  have "recover_begin A P st = (Some (pid, s, n), st)"
    using stores(2) id seed
    by (simp add: recover_begin_def in_memory_ops in_memory_load_def in_memory_snapshot_def
        catch_panic_and_log_async_def catch_unwind_async_def)
  moreover have "replay_loop A P pid s n st = Some (Some (s', at_position (length (in_memory_stream st pid))), st)"
  proof (rule replay_loop_complete [OF _ _ pos dec app])
    show "es_read (event_store P) pid k REPLAY_PAGE st =
        (Return (take REPLAY_PAGE (drop (position k) (numbered (in_memory_stream st pid)))), st)" for k
      using stores(1) in_memory_read_page [OF inv] by (simp add: in_memory_ops)
    show "length (in_memory_stream st pid) < 2 ^ 64" using inv by (simp add: in_memory_inv_def)
  qed
  ultimately show ?thesis by (simp add: recover_def)
qed

section \<open>Appends of an incarnation\<close>

context durable_entity
begin

lemma appending_world:
  assumes "es_reach A P pid stream st0 w" and "inv st0"
    and "snapshot_reflects A view fd seed (stream st0 pid) (snap st0 pid)"
    and "incarnations w i = Some t" and "es_phase t = Appending p s n up_since eff encoded"
  shows "inv (es_storage w) \<and> p = pid \<and> reflects A view fd seed (stream (es_storage w) pid) n s \<and>
    encode_events (event_codec (codec P)) (event_type A) (effect_events eff) = Return encoded"
  using es_reach_inv [OF assms(1-3)] assms(4,5) by (force simp: es_inv_def)

lemma es_continue_log: "es_continue A P pid s n up_since eff = (ph, log) \<Longrightarrow> Appended m evs \<notin> set log"
  by (auto simp: es_continue_def split: prod.splits)

lemma appended_step:
  assumes "es_step A P ob t st = Some (t', log, st')"
    and "es_phase t = Appending pid s n up_since eff encoded" and "Appended m evs \<in> set log"
  shows "m = n \<and> evs = effect_events eff \<and> es_append (event_store P) pid n encoded st = (Return (), st')"
proof -
  obtain ph where "es_append_step A P pid s n up_since eff encoded st = ((ph, log), st')"
    using assms(1,2) by (auto simp: es_step_def split: prod.splits)
  moreover obtain r where "es_append (event_store P) pid n encoded st = (r, st')"
    using calculation by (auto simp: es_append_step_def append_events_def split: prod.splits)
  ultimately show ?thesis
    using assms(3) settle_applied_failed [of r A s n "effect_events eff"] es_continue_log
    by (fastforce simp: es_append_step_def append_events_def split: prod.splits option.splits if_splits)
qed

lemma append_latest:
  assumes inv: "inv st" and fits: "length (stream st pid) + length encoded < 2 ^ 64"
    and refl: "reflects A view fd seed (stream st pid) n s"
    and enc: "encode_events (event_codec (codec P)) (event_type A) evs = Return encoded"
    and appended: "es_append (event_store P) pid n encoded st = (Return (), st')"
  shows "position n = length (stream st pid) \<and>
    (\<exists>past. decode_stream (event_type A) (stream st pid) = Some past \<and> view s = foldl fd seed past \<and>
       decode_stream (event_type A) (stream st' pid) = Some (past @ evs))"
proof -
  have n: "position n = length (stream st pid)" and str: "stream st' pid = stream st pid @ encoded"
    using append_ok [OF inv fits appended] fits by simp_all
  with refl decode_encoded [OF codec_round_trips enc] show ?thesis
    by (auto simp: reflects_def decode_stream_append)
qed

lemma stale_step:
  assumes "es_step A P ob t st = Some (t', log, st')" and "inv st"
    and "length (stream st pid) + length encoded < 2 ^ 64"
    and "es_phase t = Appending pid s n up_since eff encoded"
    and "position n \<noteq> length (stream st pid)"
  shows "es_phase t' = EsFailed (Some up_since) \<and> log = [] \<and> stream st' = stream st"
proof -
  obtain r where r: "es_append (event_store P) pid n encoded st = (r, st')"
    using assms(1,4)
    by (auto simp: es_step_def es_append_step_def append_events_def split: prod.splits)
  have "n \<noteq> at_position (length (stream st pid))" using assms(3,5) by auto
  from append_stale [OF assms(2,3) r this] assms(1,4) r show ?thesis
    by (auto simp: es_step_def es_append_step_def append_events_def es_goto_def settle_applied_failed)
qed

text \<open>A whole \<open>settle\<close>: all or nothing, actions only behind the append, and what it leaves.\<close>

lemma settle_end_cases:
  assumes "settle_end A P pid s n eff st = (r, outs, st')" and "inv st"
    and "reflects A view fd seed (stream st pid) n s"
    and "snapshot_reflects A view fd seed (stream st pid) (snap st pid)"
  shows "stream st' = stream st \<and> kept st st' \<and>
    (\<forall>d. r = Some d \<longrightarrow> settled_state d = s \<and> settled_next d = n)"
proof (cases "settle_then A P s eff")
  case (Pair os ran_to)
  show ?thesis
  proof (cases ran_to)
    case None
    with Pair assms show ?thesis by (auto simp: settle_end_def)
  next
    case (Some offered)
    show ?thesis
    proof (cases offered)
      case None
      with Pair Some assms show ?thesis by (auto simp: settle_end_def)
    next
      fix snapshot
      assume sn: "offered = Some snapshot"
      with Pair Some have "offered_snapshot A P s = Some snapshot"
        by (auto simp: settle_then_def split: prod.splits if_splits)
      moreover obtain l where "ss_save (snapshot_store P) pid n snapshot st = (l, st')"
        and "\<forall>d. r = Some d \<longrightarrow> settled_state d = s \<and> settled_next d = n"
        using assms(1) Pair Some sn by (auto simp: settle_end_def save_snapshot_def split: prod.splits)
      ultimately show ?thesis
        using save_step_good [OF assms(2,4,3) offered_encoded] by blast
    qed
  qed
qed

lemma settle_appends:
  assumes "settle A P pid s n eff st = (r, outs, st')" and "settle_begin A P eff = ToAppend encoded"
  shows "\<exists>l st1. es_append (event_store P) pid n encoded st = (l, st1) \<and>
    (if l = Return () \<and> apply_events A s (effect_events eff) \<noteq> None
     then settle_end A P pid (the (apply_events A s (effect_events eff)))
            (advanced_by n (length (effect_events eff))) eff st1 = (r, outs, st')
     else r = None \<and> outs = [] \<and> st' = st1)"
proof -
  obtain l st1 where l: "es_append (event_store P) pid n encoded st = (l, st1)"
    by (cases "es_append (event_store P) pid n encoded st")
  show ?thesis
  proof (cases "l = Return ()")
    case True
    with assms l show ?thesis
      by (cases "apply_events A s (effect_events eff)")
        (auto simp: settle_def append_events_def settle_applied_Return)
  next
    case False
    with assms l show ?thesis
      by (auto simp: settle_def append_events_def settle_applied_failed)
  qed
qed

lemma settle_begin_encoded:
  "settle_begin A P eff = ToAppend encoded \<Longrightarrow>
     effect_events eff \<noteq> [] \<and>
     encode_events (event_codec (codec P)) (event_type A) (effect_events eff) = Return encoded"
  "settle_begin A P eff = NothingToAppend \<Longrightarrow> effect_events eff = []"
  by (auto simp: settle_begin_def catch_and_log_Some split: if_splits option.splits)

text \<open>What the storage holds after \<open>settle\<close>, however it ended.\<close>

lemma settle_all_or_nothing:
  assumes settle: "settle A P pid s n eff st = (r, outs, st')" and inv: "inv st"
    and fits: "length (stream st pid) + length (effect_events eff) < 2 ^ 64"
    and refl: "reflects A view fd seed (stream st pid) n s"
    and snap: "snapshot_reflects A view fd seed (stream st pid) (snap st pid)"
  shows "stream st' pid = stream st pid \<and> (effect_events eff \<noteq> [] \<longrightarrow> r = None \<and> outs = []) \<or>
    (\<exists>encoded. encode_events (event_codec (codec P)) (event_type A) (effect_events eff) = Return encoded \<and>
       n = at_position (length (stream st pid)) \<and> stream st' pid = stream st pid @ encoded)"
proof (cases "settle_begin A P eff")
  case NothingToAppend
  with settle have "settle_end A P pid s n eff st = (r, outs, st')" by (simp add: settle_def)
  from settle_end_cases [OF this inv refl snap] settle_begin_encoded(2) [OF NothingToAppend]
  show ?thesis by simp
next
  case NotEncodable
  with settle show ?thesis by (simp add: settle_def)
next
  case (ToAppend encoded)
  note enc = settle_begin_encoded(1) [OF ToAppend]
  have fits': "length (stream st pid) + length encoded < 2 ^ 64"
    using fits encode_events_length [OF conjunct2 [OF enc]] by simp
  obtain l st1 where l: "es_append (event_store P) pid n encoded st = (l, st1)"
    and rest: "if l = Return () \<and> apply_events A s (effect_events eff) \<noteq> None
     then settle_end A P pid (the (apply_events A s (effect_events eff)))
            (advanced_by n (length (effect_events eff))) eff st1 = (r, outs, st')
     else r = None \<and> outs = [] \<and> st' = st1"
    using settle_appends [OF settle ToAppend] by blast
  show ?thesis
  proof (cases "l = Return () \<and> apply_events A s (effect_events eff) \<noteq> None")
    case True
    then obtain s' where s': "apply_events A s (effect_events eff) = Some s'" by auto
    note ok = append_ok [OF inv fits' l [unfolded conjunct1 [OF True]]]
    have "reflects A view fd seed (stream st1 pid) (advanced_by n (length (effect_events eff))) s'"
      by (rule append_step(2) [OF inv fits' l [unfolded conjunct1 [OF True]] conjunct2 [OF enc] refl s'])
    moreover have "snapshot_reflects A view fd seed (stream st1 pid) (snap st1 pid)"
      using snapshot_reflects_prefix [OF snap] append_grows [OF inv fits' l] by metis
    ultimately have "stream st' = stream st1"
      using settle_end_cases [of s' "advanced_by n (length (effect_events eff))" eff st1 r outs st'] rest True s' ok
      by simp
    with ok enc show ?thesis by simp
  next
    case False
    with rest append_cases [OF inv fits' l] enc show ?thesis by auto
  qed
qed

text \<open>After a completed \<open>settle\<close> from the end of the stream the state is at its end again.\<close>

lemma settle_completed:
  assumes settle: "settle A P pid s n eff st = (Some d, outs, st')" and inv: "inv st"
    and fits: "length (stream st pid) + length (effect_events eff) < 2 ^ 64"
    and refl: "reflects A view fd seed (stream st pid) n s" and n: "position n = length (stream st pid)"
    and snap: "snapshot_reflects A view fd seed (stream st pid) (snap st pid)"
  shows "kept st st' \<and> position (settled_next d) = length (stream st' pid) \<and>
    reflects A view fd seed (stream st' pid) (settled_next d) (settled_state d)"
proof (cases "settle_begin A P eff")
  case NothingToAppend
  with settle have "settle_end A P pid s n eff st = (Some d, outs, st')" by (simp add: settle_def)
  from settle_end_cases [OF this inv refl snap] n refl show ?thesis by auto
next
  case NotEncodable
  with settle show ?thesis by (simp add: settle_def)
next
  case (ToAppend encoded)
  note enc = conjunct2 [OF settle_begin_encoded(1) [OF ToAppend]]
  have len: "length encoded = length (effect_events eff)" using enc by (rule encode_events_length)
  then have fits': "length (stream st pid) + length encoded < 2 ^ 64" using fits by simp
  obtain st1 s' where l: "es_append (event_store P) pid n encoded st = (Return (), st1)"
    and s': "apply_events A s (effect_events eff) = Some s'"
    and rest: "settle_end A P pid s' (advanced_by n (length (effect_events eff))) eff st1 = (Some d, outs, st')"
    using settle_appends [OF settle ToAppend] by (auto split: if_splits)
  let ?n' = "advanced_by n (length (effect_events eff))"
  have refl': "reflects A view fd seed (stream st1 pid) ?n' s'"
    by (rule append_step(2) [OF inv fits' l enc refl s'])
  have grown: "prefix (stream st pid) (stream st1 pid)" "inv st1"
    and snap': "snapshot_reflects A view fd seed (stream st1 pid) (snap st1 pid)"
    using snapshot_reflects_prefix [OF snap] append_grows [OF inv fits' l] by metis+
  have "position ?n' = length (stream st1 pid)"
    using append_ok [OF inv fits' l] n fits len by (simp add: advanced_by_at)
  with settle_end_cases [OF rest grown(2) refl' snap'] grown refl' show ?thesis by auto
qed

end

text \<open>
  On an in-memory store recovery then succeeds, for an actor whose \<^verbatim>\<open>init\<close> and \<^verbatim>\<open>apply\<close> are
  total, and it finds that state.
\<close>

lemma recover_finds:
  assumes entity: "durable_entity P in_memory_stream in_memory_inv in_memory_snapshot A pid view fd seed"
    and stores: "event_store P = in_memory_event_store" "snapshot_store P = in_memory_snapshot_store"
    and total: "es_init A = Return s0"
      "\<And>past ev rest s. decode_stream (event_type A) (in_memory_stream st pid) = Some (past @ ev # rest) \<Longrightarrow>
         view s = foldl fd seed past \<Longrightarrow> es_apply A s ev \<noteq> None"
      "\<And>loaded sn n. decoded_snapshot A loaded = Some (sn, n) \<Longrightarrow> \<exists>s. init_from_snapshot A sn = Return s"
    and inv: "in_memory_inv st"
    and snap: "snapshot_reflects A view fd seed (in_memory_stream st pid) (in_memory_snapshot st pid)"
    and refl: "reflects A view fd seed (in_memory_stream st pid) n s"
    and n: "position n = length (in_memory_stream st pid)"
  shows "\<exists>r. recover A P st = Some (Some r, st) \<and> recovered_next r = n \<and>
    view (recovered_state r) = view s"
proof -
  let ?es = "in_memory_stream st pid"
  obtain all where all: "decode_stream (event_type A) ?es = Some all" and view: "view s = foldl fd seed all"
    using refl n by (auto simp: reflects_def)
  obtain s1 n1 where seed: "recover_seed A (in_memory_snapshot st pid) = Some (s1, n1)"
    using total(1,3)
    by (cases "decoded_snapshot A (in_memory_snapshot st pid)") (fastforce simp: recover_seed_def)+
  have refl1: "reflects A view fd seed ?es n1 s1"
    by (rule durable_entity.seed_reflects [OF entity snap seed])
  then obtain past where past: "decode_stream (event_type A) (take (position n1) ?es) = Some past"
    and pos: "position n1 \<le> length ?es" and view1: "view s1 = foldl fd seed past"
    by (auto simp: reflects_def)
  obtain rest where rest: "decode_stream (event_type A) (drop (position n1) ?es) = Some rest"
    and split: "all = past @ rest"
    using all past decode_stream_split [of "event_type A" "take (position n1) ?es" "drop (position n1) ?es"]
    by auto
  obtain s2 where s2: "apply_events A s1 rest = Some s2"
  proof -
    have "all = past @ rest \<Longrightarrow> view s1 = foldl fd seed past \<Longrightarrow> \<exists>s2. apply_events A s1 rest = Some s2"
      for past s1 rest
    proof (induction rest arbitrary: past s1)
      case (Cons ev rest)
      then obtain s' where s': "es_apply A s1 ev = Some s'"
        using all total(2) [of past ev rest s1] by auto
      have "view s' = foldl fd seed (past @ [ev])"
        using durable_entity.apply_view [OF entity s'] Cons.prems(2) by simp
      with Cons.IH [of "past @ [ev]" s'] Cons.prems(1) s' show ?case by simp
    qed simp
    from this [OF split view1] show thesis using that by blast
  qed
  have "view s2 = view s"
    using apply_events_view [of A view fd, OF durable_entity.apply_view [OF entity] s2] view view1 split
    by simp
  moreover have "at_position (length ?es) = n" using n by (metis at_position_position)
  ultimately show ?thesis
    using recover_in_memory [OF stores durable_entity.identity [OF entity] inv seed pos rest s2] by auto
qed

end
