(* ===== verification/EventExamples.thy ===== *)
theory EventExamples
  imports Recovery
begin

text \<open>
  The event-sourced actors of \<^verbatim>\<open>tellus-persistence-postgres/examples\<close>: the counter and the flaky
  loader. They keep the obligations of \<open>durable\<close> for every codec that round-trips their events.
  A reply or a printed line is the action of a continuation. The additions are those of a build
  with overflow checks: they panic at the end of the range.
\<close>

section \<open>Nothing\<close>

text \<open>
  \<^verbatim>\<open>Nothing\<close> of \<^verbatim>\<open>actor.rs\<close>, the snapshot of actors that take none. It has no value; the one
  here is never made: deserializing fails for every input, and serializing is unreachable.
\<close>

datatype nothing = Nothing

definition nothing_codec :: "nothing codec" where
  "nothing_codec =
     \<lparr>codec_encode = (\<lambda>_. Panic),
      codec_decode = (\<lambda>_. Fail (PayloadError ''no value of the uninhabited type Nothing''))\<rparr>"

definition nothing_versioned :: "nothing versioned" where
  "nothing_versioned = default_versioned ''nothing'' (SchemaVersion 0) nothing_codec"

lemma nothing_never_decodes: "decode_versioned nothing_versioned m v b \<noteq> Return x"
  by (simp add: nothing_versioned_def decode_versioned_gate nothing_codec_def)

section \<open>The counter\<close>

datatype counter_command = Increment (reply_to: nat) | StopCounter

datatype increased = Increased

definition counter_id :: "persistence_id option" where
  "counter_id = (case persistence_id_new ''counter'' ''example'' of Ok p \<Rightarrow> Some p | Err _ \<Rightarrow> None)"

fun counter_handle ::
  "counter_command incoming \<Rightarrow> u64 \<Rightarrow> ((u64, increased, nat \<times> u64) effect, infallible) call" where
  "counter_handle (Message (Increment r)) _ =
     Return (and_then (\<lambda>count. Some (r, count)) (persist Increased))"
| "counter_handle (Message StopCounter) _ = Return stop_effect"
| "counter_handle (Terminated _) _ = Return persist_none"

definition counter ::
  "increased codec \<Rightarrow> (counter_command, u64, increased, nothing, infallible, nat \<times> u64) event_sourced" where
  "counter C =
     \<lparr>es_persistence_id = counter_id,
      es_init = Return 0,
      init_from_snapshot = (\<lambda>_. Panic),
      es_recovered = default_recovered,
      es_handle = counter_handle,
      es_apply = (\<lambda>s _. checked_add s 1),
      es_snapshot = default_snapshot,
      event_type = default_versioned ''increased'' (SchemaVersion 1) C,
      snapshot_type = nothing_versioned\<rparr>"

section \<open>The loader\<close>

datatype loader_command = Load u32 | Finish

datatype loaded = Loaded u32

datatype toxic_value = ToxicValue u32

definition TOXIC :: u32 where
  "TOXIC = 13"

definition loader_id :: "persistence_id option" where
  "loader_id = (case persistence_id_new ''loader'' ''example'' of Ok p \<Rightarrow> Some p | Err _ \<Rightarrow> None)"

fun loader_handle ::
  "loader_command incoming \<Rightarrow> u64 \<Rightarrow> ((u64, loaded, u32 \<times> u64) effect, toxic_value) call" where
  "loader_handle (Terminated _) _ = Panic"
| "loader_handle (Message (Load v)) _ =
     (if v = TOXIC then Fail (ToxicValue TOXIC)
      else Return (and_then (\<lambda>count. Some (v, count)) (persist (Loaded v))))"
| "loader_handle (Message Finish) _ = Return stop_effect"

definition loader ::
  "loaded codec \<Rightarrow> (loader_command, u64, loaded, nothing, toxic_value, u32 \<times> u64) event_sourced" where
  "loader C =
     \<lparr>es_persistence_id = loader_id,
      es_init = Return 0,
      init_from_snapshot = (\<lambda>_. Panic),
      es_recovered = (\<lambda>count. Return count),
      es_handle = loader_handle,
      es_apply = (\<lambda>s _. checked_add s 1),
      es_snapshot = default_snapshot,
      event_type = default_versioned ''loaded'' (SchemaVersion 1) C,
      snapshot_type = nothing_versioned\<rparr>"

section \<open>They are durable\<close>

text \<open>The count of the events is their number, modulo the range the addition stays in.\<close>

definition count_event :: "u64 \<Rightarrow> 'ev \<Rightarrow> u64" where
  "count_event n ev = n + 1"

lemma counter_durable:
  assumes "\<And>v b. codec_encode C v = Return b \<Longrightarrow> codec_decode C b = Return v"
  shows "durable (counter C) \<lparr>event_codec = C, snapshot_codec = D\<rparr> (\<lambda>s. s) count_event 0"
  using default_round_trips [OF assms]
  by (auto simp: durable_def counter_def default_recovered_def default_snapshot_def count_event_def
      checked_add_def split: if_splits)

lemma loader_durable:
  assumes "\<And>v b. codec_encode C v = Return b \<Longrightarrow> codec_decode C b = Return v"
  shows "durable (loader C) \<lparr>event_codec = C, snapshot_codec = D\<rparr> (\<lambda>s. s) count_event 0"
  using default_round_trips [OF assms]
  by (auto simp: durable_def loader_def default_snapshot_def count_event_def checked_add_def split: if_splits)

text \<open>A unit struct in CBOR is the one byte of \<^verbatim>\<open>null\<close>: a serializer to run the counter with.\<close>

definition unit_codec :: "increased codec" where
  "unit_codec = Cbor (\<lambda>_ buf. (Return (), buf @ [0xF6]))
     (\<lambda>b. if b = [0xF6] then Return Increased else Fail ''invalid type'')"

lemma unit_codec_round_trips: "codec_encode unit_codec v = Return b \<Longrightarrow> codec_decode unit_codec b = Return v"
  by (cases v) (auto simp: unit_codec_def Cbor_def)

definition counter_wiring :: "(in_memory_store, infallible, infallible, increased, nothing) wiring" where
  "counter_wiring = with_snapshot_store in_memory_snapshot_store
     (persistence_new in_memory_event_store \<lparr>event_codec = unit_codec, snapshot_codec = nothing_codec\<rparr>)"

definition counter_pid :: persistence_id where
  "counter_pid = \<lparr>entity_type = ''counter'', entity_id = ''example''\<rparr>"

lemma counter_id_valid: "counter_id = Some counter_pid"
  by (simp add: counter_id_def counter_pid_def persistence_id_new_def valid_segment_def MAX_SEGMENT_LEN_def)

lemma counter_identity: "es_persistence_id (counter C) = Some counter_pid"
  by (simp add: counter_def counter_id_valid)

interpretation counter_entity: durable_entity counter_wiring in_memory_stream in_memory_inv
  in_memory_snapshot "counter unit_codec" counter_pid "\<lambda>s. s" count_event 0
proof -
  have ops: "event_store counter_wiring = in_memory_event_store"
    "snapshot_store counter_wiring = in_memory_snapshot_store"
    "codec counter_wiring = \<lparr>event_codec = unit_codec, snapshot_codec = nothing_codec\<rparr>"
    by (simp_all add: counter_wiring_def with_snapshot_store_def persistence_new_def)
  have "storage (event_store counter_wiring) in_memory_stream in_memory_inv
      (snapshot_store counter_wiring) in_memory_snapshot"
    unfolding ops by (rule memory.storage_axioms)
  moreover have "durable_entity_axioms counter_wiring (counter unit_codec) counter_pid (\<lambda>s. s) count_event 0"
    by unfold_locales
      (simp_all add: ops counter_durable [OF unit_codec_round_trips] counter_identity)
  ultimately show "durable_entity counter_wiring in_memory_stream in_memory_inv in_memory_snapshot
      (counter unit_codec) counter_pid (\<lambda>s. s) count_event 0"
    by (rule durable_entity.intro)
qed

end
