(* ===== verification/PersistenceProfile.thy ===== *)
theory PersistenceProfile
  imports EventExamples
begin

text \<open>
  \<^verbatim>\<open>tellus/examples/profile_persistence.rs\<close>: an event-sourced counter with snapshots, flooded and then
  recovered on one in-memory store. Its comments promise that recovery has a snapshot to load and a
  tail of events to replay. Serialization is an argument; its event \<^verbatim>\<open>Increased\<close> has the shape of
  that of the other counter.
\<close>

section \<open>The counter\<close>

definition EVENTS :: u64 where
  "EVENTS = 50000"

definition SNAPSHOT_EACH :: u64 where
  "SNAPSHOT_EACH = 3000"

datatype increase = Increase

datatype count = Count u64

definition profile_id :: "persistence_id option" where
  "profile_id = (case persistence_id_new ''counter'' ''profile'' of Ok p \<Rightarrow> Some p | Err _ \<Rightarrow> None)"

definition profile_handle ::
  "u64 \<Rightarrow> increase incoming \<Rightarrow> u64 \<Rightarrow> ((u64, increased, unit) effect, infallible) call" where
  "profile_handle events incoming count =
     (if events \<le> count then Return stop_effect
      else case checked_add count 1 of
             None \<Rightarrow> Panic
           | Some c \<Rightarrow> Return (if c = events then and_stop (persist Increased) else persist Increased))"

definition profile_snapshot :: "u64 \<Rightarrow> (count option, infallible) call" where
  "profile_snapshot c = Return (if c mod SNAPSHOT_EACH = 0 then Some (Count c) else None)"

definition profile_counter ::
  "increased codec \<Rightarrow> count codec \<Rightarrow> u64 \<Rightarrow> (increase, u64, increased, count, infallible, unit) event_sourced" where
  "profile_counter C D events =
     \<lparr>es_persistence_id = profile_id,
      es_init = Return 0,
      init_from_snapshot = (\<lambda>s. case s of Count c \<Rightarrow> Return c),
      es_recovered = default_recovered,
      es_handle = profile_handle events,
      es_apply = (\<lambda>s _. checked_add s 1),
      es_snapshot = profile_snapshot,
      event_type = default_versioned ''increased'' (SchemaVersion 1) C,
      snapshot_type = default_versioned ''count'' (SchemaVersion 1) D\<rparr>"

definition profile_persistence ::
  "increased codec \<Rightarrow> count codec \<Rightarrow> (in_memory_store, infallible, infallible, increased, count) wiring" where
  "profile_persistence C D =
     with_snapshot_store in_memory_snapshot_store
       (persistence_new in_memory_event_store \<lparr>event_codec = C, snapshot_codec = D\<rparr>)"

section \<open>The runs\<close>

text \<open>
  The run loop over queued commands, for an incarnation nobody interferes with: what it ends with,
  whether it stopped, and how many commands were left.
\<close>

fun serve ::
  "('m, 's, 'ev, 'sn, 'e, 'o) event_sourced \<Rightarrow> ('st, 'x, 'y, 'ev, 'sn) wiring \<Rightarrow> persistence_id \<Rightarrow> 'm list
     \<Rightarrow> 's \<Rightarrow> seq_no \<Rightarrow> 'st \<Rightarrow> (('s \<times> seq_no \<times> bool \<times> nat) option \<times> 'st)" where
  "serve A P pid [] s n st = (Some (s, n, False, 0), st)"
| "serve A P pid (m # ms) s n st =
     (case es_handle A (Message m) s of
        Return eff \<Rightarrow>
          (case settle A P pid s n eff st of
             (None, _, st') \<Rightarrow> (None, st')
           | (Some d, _, st') \<Rightarrow>
               if settled_stop d then (Some (settled_state d, settled_next d, True, length ms), st')
               else serve A P pid ms (settled_state d) (settled_next d) st')
      | Fail _ \<Rightarrow> (None, st)
      | Panic \<Rightarrow> (None, st))"

definition profile_run ::
  "increased codec \<Rightarrow> count codec \<Rightarrow> u64 \<Rightarrow> nat \<Rightarrow> in_memory_store
     \<Rightarrow> ((u64 \<times> seq_no \<times> bool \<times> nat) option \<times> in_memory_store) option" where
  "profile_run C D events told st =
     (let A = profile_counter C D events; P = profile_persistence C D
      in case recover A P st of
           None \<Rightarrow> None
         | Some (None, st') \<Rightarrow> Some (None, st')
         | Some (Some r, st') \<Rightarrow>
             (case es_recovered A (recovered_state r) of
                Return s \<Rightarrow> Some (serve A P (recovered_id r) (replicate told Increase) s (recovered_next r) st')
              | Fail _ \<Rightarrow> Some (None, st')
              | Panic \<Rightarrow> Some (None, st')))"

definition flood ::
  "increased codec \<Rightarrow> count codec \<Rightarrow> in_memory_store \<Rightarrow> ((u64 \<times> seq_no \<times> bool \<times> nat) option \<times> in_memory_store) option" where
  "flood C D st = profile_run C D EVENTS (unat EVENTS) st"

definition recover_run ::
  "increased codec \<Rightarrow> count codec \<Rightarrow> in_memory_store \<Rightarrow> ((u64 \<times> seq_no \<times> bool \<times> nat) option \<times> in_memory_store) option" where
  "recover_run C D st = profile_run C D EVENTS 1 st"

section \<open>What it keeps\<close>

text \<open>What is relied on of the serializers: they write every value, and read what they wrote.\<close>

definition total_codec :: "'a codec \<Rightarrow> bool" where
  "total_codec C \<longleftrightarrow> (\<forall>v. \<exists>b. codec_encode C v = Return b \<and> codec_decode C b = Return v)"

lemma total_codecD:
  "total_codec C \<Longrightarrow> codec_encode C v = Return b \<Longrightarrow> codec_decode C b = Return v"
  unfolding total_codec_def by (metis call.inject(1))

definition profile_pid :: persistence_id where
  "profile_pid = \<lparr>entity_type = ''counter'', entity_id = ''profile''\<rparr>"

lemma profile_id_valid: "profile_id = Some profile_pid"
  by (simp add: profile_id_def profile_pid_def persistence_id_new_def valid_segment_def MAX_SEGMENT_LEN_def)

lemma profile_identity: "es_persistence_id (profile_counter C D N) = Some profile_pid"
  by (simp add: profile_counter_def profile_id_valid)

lemma profile_apply: "es_apply (profile_counter C D N) s ev = checked_add s 1"
  by (simp add: profile_counter_def)

lemma profile_durable:
  assumes "total_codec C" and "total_codec D"
  shows "durable (profile_counter C D N) \<lparr>event_codec = C, snapshot_codec = D\<rparr> (\<lambda>s. s) count_event 0"
  using default_round_trips [OF total_codecD [OF assms(1)]] total_codecD [OF assms(2)]
  by (auto simp: durable_def profile_counter_def default_recovered_def profile_snapshot_def count_event_def
      checked_add_def default_versioned_def default_decode_def split: if_splits count.splits)

lemma profile_wiring:
  "event_store (profile_persistence C D) = in_memory_event_store"
  "snapshot_store (profile_persistence C D) = in_memory_snapshot_store"
  "codec (profile_persistence C D) = \<lparr>event_codec = C, snapshot_codec = D\<rparr>"
  by (simp_all add: profile_persistence_def with_snapshot_store_def persistence_new_def)

lemma profile_entity:
  assumes "total_codec C" and "total_codec D"
  shows "durable_entity (profile_persistence C D) in_memory_stream in_memory_inv in_memory_snapshot
    (profile_counter C D N) profile_pid (\<lambda>s. s) count_event 0"
  by (rule durable_entity.intro [OF _ durable_entity_axioms.intro])
    (simp_all add: profile_wiring memory.storage_axioms profile_durable [OF assms] profile_identity)

text \<open>After \<open>k\<close> events: where the counter, the stream and the snapshot are.\<close>

definition profile_at :: "increased codec \<Rightarrow> count codec \<Rightarrow> u64 \<Rightarrow> nat \<Rightarrow> u64 \<Rightarrow> seq_no \<Rightarrow> in_memory_store \<Rightarrow> bool" where
  "profile_at C D N k s n st \<longleftrightarrow>
     s = of_nat k \<and> n = at_position k \<and> k < 2 ^ 64 \<and> in_memory_inv st \<and> length (in_memory_stream st profile_pid) = k \<and>
     reflects (profile_counter C D N) (\<lambda>s. s) count_event 0 (in_memory_stream st profile_pid) n s \<and>
     snapshot_reflects (profile_counter C D N) (\<lambda>s. s) count_event 0 (in_memory_stream st profile_pid)
       (in_memory_snapshot st profile_pid) \<and>
     map_option stored_next_seq_no (in_memory_snapshot st profile_pid) =
       (if k < unat SNAPSHOT_EACH then None else Some (at_position (k div unat SNAPSHOT_EACH * unat SNAPSHOT_EACH)))"

lemma profile_offers:
  assumes "total_codec D"
  shows "offered_snapshot (profile_counter C D N) (profile_persistence C D) c \<noteq> None \<longleftrightarrow> c mod SNAPSHOT_EACH = 0"
proof -
  obtain b where "codec_encode D (Count c) = Return b" using assms unfolding total_codec_def by blast
  then show ?thesis
    by (simp add: offered_snapshot_def encode_snapshot_def profile_counter_def profile_snapshot_def profile_wiring
        catch_unwind_async_def warn_unless_snapshot_saved_def)
qed

lemma next_snapshot:
  fixes k m :: nat
  assumes "0 < m"
  shows "Suc k mod m = 0 \<Longrightarrow> Suc k div m * m = Suc k \<and> m \<le> Suc k"
    and "Suc k mod m \<noteq> 0 \<Longrightarrow> Suc k div m = k div m \<and> (Suc k < m \<longleftrightarrow> k < m)"
proof -
  assume "Suc k mod m = 0"
  then have "m dvd Suc k" by blast
  then show "Suc k div m * m = Suc k \<and> m \<le> Suc k" using dvd_imp_le by simp
next
  assume "Suc k mod m \<noteq> 0"
  moreover from this have "Suc k \<noteq> m" using assms by auto
  ultimately show "Suc k div m = k div m \<and> (Suc k < m \<longleftrightarrow> k < m)" by (auto simp: div_Suc)
qed

lemma unat_small: "k < 2 ^ 64 \<Longrightarrow> unat (of_nat k :: u64) = k"
  using unat_of_nat_small [of k, where 'n = 64] by simp

lemma counts_up:
  assumes "Suc k < 2 ^ 64"
  shows "checked_add (of_nat k :: u64) 1 = Some (of_nat (Suc k))"
proof -
  have "unat (of_nat k :: u64) + unat (1 :: u64) < 2 ^ LENGTH(64)" using assms unat_small [of k] by simp
  then show ?thesis by (simp only: checked_add_def if_True of_nat_Suc add.commute)
qed

text \<open>One command: the event is appended, the count goes up, and at a multiple a snapshot is saved.\<close>

lemma profile_settles:
  assumes codecs: "total_codec C" "total_codec D" and at: "profile_at C D N k s n st" and k: "Suc k < 2 ^ 64"
    and eff: "effect_events eff = [Increased]" "effect_thens eff = []"
  shows "\<exists>d st'. settle (profile_counter C D N) (profile_persistence C D) profile_pid s n eff st = (Some d, [], st') \<and>
    settled_stop d = effect_stop eff \<and> profile_at C D N (Suc k) (settled_state d) (settled_next d) st'"
proof -
  let ?A = "profile_counter C D N" and ?P = "profile_persistence C D"
  have s: "s = of_nat k" and n: "n = at_position k" and inv: "in_memory_inv st"
    and len: "length (in_memory_stream st profile_pid) = k"
    and here: "reflects ?A (\<lambda>s. s) count_event 0 (in_memory_stream st profile_pid) n s"
      "snapshot_reflects ?A (\<lambda>s. s) count_event 0 (in_memory_stream st profile_pid) (in_memory_snapshot st profile_pid)"
    using at unfolding profile_at_def by blast+
  obtain b where b: "codec_encode C Increased = Return b" using codecs(1) unfolding total_codec_def by blast
  define e where "e = \<lparr>event_manifest = MANIFEST (event_type ?A), event_version = VERSION (event_type ?A), event_payload = b\<rparr>"
  have to_append: "settle_begin ?A ?P eff = ToAppend [e]"
    by (simp add: settle_begin_def eff profile_wiring b e_def)
  obtain r st1 where r: "in_memory_append profile_pid n [e] st = (r, st1)" by (cases "in_memory_append profile_pid n [e] st")
  have "r = Return ()" using in_memory_append_keeps [OF inv _ r] len k n by simp
  with r have append: "in_memory_append profile_pid n [e] st = (Return (), st1)" by simp
  have snap1: "in_memory_snapshot st1 = in_memory_snapshot st"
    using append by (auto simp: in_memory_append_def Let_def split: if_splits)
  have n': "advanced_by n 1 = at_position (Suc k)" using advanced_by_at [of n 1] n k by simp
  have settle: "settle ?A ?P profile_pid s n eff st =
      settle_end ?A ?P profile_pid (of_nat (Suc k)) (at_position (Suc k)) eff st1"
    using append n' counts_up [OF k]
    by (simp add: settle_def to_append append_events_def profile_wiring in_memory_ops settle_applied_Return eff s
        profile_apply del: of_nat_Suc)
  let ?d = "\<lparr>settled_state = (of_nat (Suc k) :: u64), settled_next = at_position (Suc k), settled_stop = effect_stop eff\<rparr>"
  have offers: "offered_snapshot ?A ?P (of_nat (Suc k)) \<noteq> None \<longleftrightarrow> of_nat (Suc k) mod SNAPSHOT_EACH = 0"
    by (rule profile_offers [OF codecs(2)])
  obtain st' where d: "settle_end ?A ?P profile_pid (of_nat (Suc k)) (at_position (Suc k)) eff st1 = (Some ?d, [], st')"
    and saved: "map_option stored_next_seq_no (in_memory_snapshot st' profile_pid) =
      (if of_nat (Suc k) mod SNAPSHOT_EACH = 0 then Some (at_position (Suc k))
       else map_option stored_next_seq_no (in_memory_snapshot st profile_pid))"
  proof (cases "offered_snapshot ?A ?P (of_nat (Suc k))")
    case None
    then show thesis using that offers by (simp add: settle_end_def settle_then_def eff snap1 del: of_nat_Suc)
  next
    case (Some snapshot)
    then show thesis using that offers
      by (simp add: settle_end_def settle_then_def eff save_snapshot_def profile_wiring in_memory_ops in_memory_save_def
        in_memory_snapshot_def update_conv del: of_nat_Suc)
  qed
  have fits: "length (in_memory_stream st profile_pid) + length (effect_events eff) < 2 ^ 64" using len k by (simp add: eff)
  have at_end: "position n = length (in_memory_stream st profile_pid)" using n len k by simp
  have kept: "in_memory_inv st'" "position (settled_next ?d) = length (in_memory_stream st' profile_pid)"
    "reflects ?A (\<lambda>s. s) count_event 0 (in_memory_stream st' profile_pid) (settled_next ?d) (settled_state ?d)"
    "snapshot_reflects ?A (\<lambda>s. s) count_event 0 (in_memory_stream st' profile_pid) (in_memory_snapshot st' profile_pid)"
    using durable_entity.settle_completed [OF profile_entity [OF codecs] settle [unfolded d] inv fits here(1) at_end here(2)] by blast+
  have "of_nat (Suc k) mod SNAPSHOT_EACH = 0 \<longleftrightarrow> Suc k mod unat SNAPSHOT_EACH = 0"
    using unat_small [OF k] by (metis unat_eq_zero unat_mod)
  with saved at next_snapshot [of "unat SNAPSHOT_EACH" k]
  have "map_option stored_next_seq_no (in_memory_snapshot st' profile_pid) =
      (if Suc k < unat SNAPSHOT_EACH then None else Some (at_position (Suc k div unat SNAPSHOT_EACH * unat SNAPSHOT_EACH)))"
    by (auto simp: profile_at_def SNAPSHOT_EACH_def)
  moreover have "length (in_memory_stream st' profile_pid) = Suc k" using kept(2) k by simp
  ultimately have "profile_at C D N (Suc k) (settled_state ?d) (settled_next ?d) st'"
    unfolding profile_at_def using kept k by (simp only: settled.simps simp_thms)
  with settle d show ?thesis by (intro exI [of _ ?d] exI [of _ st']) (simp del: of_nat_Suc)
qed

lemma profile_handles:
  assumes "k < unat N"
  shows "es_handle (profile_counter C D N) incoming (of_nat k) =
    Return (if Suc k = unat N then and_stop (persist Increased) else persist Increased)"
proof -
  have "k < 2 ^ 64" "Suc k < 2 ^ 64" using assms unat_less_exp [of N] by simp_all
  then have k: "unat (of_nat k :: u64) = k" "unat (of_nat (Suc k) :: u64) = Suc k" by (simp_all only: unat_small)
  have "(of_nat (Suc k) :: u64) = N \<longleftrightarrow> Suc k = unat N" using k(2) by (metis word_unat_eq_iff)
  moreover have "\<not> N \<le> of_nat k" using assms k(1) by (simp only: word_le_nat_alt not_le)
  moreover note counts_up [OF \<open>Suc k < 2 ^ 64\<close>]
  ultimately show ?thesis by (simp add: profile_counter_def profile_handle_def del: of_nat_Suc)
qed

text \<open>Commands up to the configured count: the last of them stops the counter.\<close>

lemma profile_serves:
  assumes codecs: "total_codec C" "total_codec D"
  shows "profile_at C D N k s n st \<Longrightarrow> unat N = Suc (k + j) \<Longrightarrow>
    \<exists>st'. serve (profile_counter C D N) (profile_persistence C D) profile_pid (replicate (Suc j) Increase) s n st =
        (Some (N, at_position (unat N), True, 0), st') \<and> profile_at C D N (unat N) N (at_position (unat N)) st'"
proof (induction j arbitrary: k s n st)
  case 0
  have unat_word: "of_nat (unat N) = N" by simp
  have k: "Suc k < 2 ^ 64" using 0 unat_less_exp [of N] by simp
  obtain d st' where "settle (profile_counter C D N) (profile_persistence C D) profile_pid s n
      (and_stop (persist Increased)) st = (Some d, [], st')" "settled_stop d"
    "profile_at C D N (Suc k) (settled_state d) (settled_next d) st'"
    using profile_settles [OF codecs 0(1) k, of "and_stop (persist Increased)"]
    by (auto simp: and_stop_def persist_def persist_all_def)
  moreover from this have "settled_state d = N" "settled_next d = at_position (unat N)"
    using 0 by (simp_all add: profile_at_def) (metis of_nat_Suc unat_word)
  ultimately show ?case using profile_handles [of k N C D] 0 by (auto simp: profile_at_def)
next
  case (Suc j)
  have k: "Suc k < 2 ^ 64" using Suc.prems unat_less_exp [of N] by simp
  obtain d st' where "settle (profile_counter C D N) (profile_persistence C D) profile_pid s n (persist Increased) st =
      (Some d, [], st')" "\<not> settled_stop d" "profile_at C D N (Suc k) (settled_state d) (settled_next d) st'"
    using profile_settles [OF codecs Suc.prems(1) k, of "persist Increased"]
    by (auto simp: persist_def persist_all_def)
  moreover have "s = of_nat k" using Suc.prems(1) by (simp add: profile_at_def)
  ultimately show ?case using profile_handles [of k N C D] Suc.IH [of "Suc k" "settled_state d" "settled_next d" st'] Suc.prems
    by simp
qed

lemma recover_id: "recover A P st = Some (Some r, st') \<Longrightarrow> es_persistence_id A = Some (recovered_id r)"
  by (auto simp: recover_def recover_begin_def split: option.splits prod.splits sum.splits)

lemma counted_events: "foldl count_event 0 evs = of_nat (length evs)"
  by (induction evs rule: rev_induct) (simp_all add: count_event_def add.commute)

text \<open>Recovery finds the count, from the snapshot and the events behind it.\<close>

lemma profile_recovers:
  assumes codecs: "total_codec C" "total_codec D" and at: "profile_at C D N k s n st"
  shows "recover (profile_counter C D N) (profile_persistence C D) st =
    Some (Some \<lparr>recovered_id = profile_pid, recovered_state = s, recovered_next = n\<rparr>, st)"
proof -
  let ?A = "profile_counter C D N" and ?P = "profile_persistence C D"
  have k: "k < 2 ^ 64" and n: "position n = length (in_memory_stream st profile_pid)" and inv: "in_memory_inv st"
    and len: "length (in_memory_stream st profile_pid) = k"
    and here: "snapshot_reflects ?A (\<lambda>s. s) count_event 0 (in_memory_stream st profile_pid) (in_memory_snapshot st profile_pid)"
      "reflects ?A (\<lambda>s. s) count_event 0 (in_memory_stream st profile_pid) n s"
    using at position_at unfolding profile_at_def by metis+
  have applies: "es_apply ?A s' ev \<noteq> None"
    if "decode_stream (event_type ?A) (in_memory_stream st profile_pid) = Some (past @ ev # rest)" "s' = foldl count_event 0 past"
    for past ev rest s'
  proof -
    have "Suc (length past) < 2 ^ 64" using decode_stream_length [OF that(1)] len k by simp
    then show ?thesis unfolding profile_apply that(2) counted_events by (simp only: counts_up option.distinct not_False_eq_True)
  qed
  have "\<exists>r. recover ?A ?P st = Some (Some r, st) \<and> recovered_next r = n \<and> recovered_state r = s"
    by (rule recover_finds [OF profile_entity [OF codecs] profile_wiring(1,2) _ applies _ inv here n])
      (simp_all add: profile_counter_def split: count.splits)
  then obtain r where r: "recover ?A ?P st = Some (Some r, st)" "recovered_next r = n" "recovered_state r = s" by blast
  moreover from recover_id [OF r(1)] have "recovered_id r = profile_pid" by (simp add: profile_identity)
  ultimately show ?thesis by (cases r) simp
qed

lemma profile_starts: "profile_at C D N 0 0 (at_position 0) in_memory_default"
  by (simp add: profile_at_def reflects_def snapshot_reflects_def decoded_snapshot_def in_memory_stream_def
      in_memory_events_def in_memory_snapshot_def in_memory_default_def in_memory_inv_default [unfolded in_memory_default_def]
      SNAPSHOT_EACH_def)

text \<open>A counter that has counted all its events stops at once, and nothing is written.\<close>

lemma profile_stops:
  "serve (profile_counter C D N) (profile_persistence C D) profile_pid [m] N n st = (Some (N, n, True, 0), st)"
  by (simp add: profile_counter_def profile_handle_def settle_def settle_begin_def settle_end_def settle_then_def
      stop_effect_def and_stop_def persist_none_def persist_all_def)

section \<open>Properties\<close>

text \<open>Serializers to run it with: the unit struct as before, and a count in decimal.\<close>

definition count_codec :: "count codec" where
  "count_codec = Json (\<lambda>c. case c of Count v \<Rightarrow> Return (map (\<lambda>x. of_nat (of_char x :: nat)) (decimal (unat v))))
     (\<lambda>b. Return (Count (of_nat (undecimal (map (\<lambda>x. char_of (unat x)) b)))))"

lemma count_codec_total: "total_codec count_codec"
proof -
  have byte: "char_of (unat (of_nat (of_char x :: nat) :: 8 word)) = x" for x
  proof -
    have "unat (of_nat (of_char x :: nat) :: 8 word) = of_char x" by (rule unat_of_nat_small) simp
    then show ?thesis by (simp only: char_of_char)
  qed
  then have "codec_decode count_codec (map (\<lambda>x. of_nat (of_char x :: nat)) (decimal (unat v))) = Return (Count v)" for v
    by (simp add: count_codec_def Json_def comp_def)
  then show ?thesis by (auto simp: total_codec_def count_codec_def Json_def split: count.splits)
qed

lemma unit_codec_total: "total_codec unit_codec"
  using unit_codec_round_trips by (auto simp: total_codec_def unit_codec_def Cbor_def)

text \<open>
  C26: the profile does what its comments say. Flooding an empty store with as many commands as there
  are events to count appends one event per command, and the last command stops the counter. The
  last snapshot is at 48000, so recovery has a snapshot to load and 2000 events to replay; it finds
  the count, and the one command of the second run stops the counter without an event.
\<close>

theorem profile_floods_and_recovers:
  assumes "total_codec C" and "total_codec D"
  shows "\<exists>st. flood C D in_memory_default = Some (Some (EVENTS, SeqNo EVENTS, True, 0), st) \<and>
    length (in_memory_stream st profile_pid) = 50000 \<and>
    map_option stored_next_seq_no (in_memory_snapshot st profile_pid) = Some (SeqNo 48000) \<and>
    recover_run C D st = Some (Some (EVENTS, SeqNo EVENTS, True, 0), st)"
proof -
  let ?A = "profile_counter C D EVENTS" and ?P = "profile_persistence C D"
  have events: "unat EVENTS = 50000" "at_position 50000 = SeqNo EVENTS" "unat SNAPSHOT_EACH = 3000"
    by (simp_all add: EVENTS_def SNAPSHOT_EACH_def at_position_def)
  obtain st where st: "serve ?A ?P profile_pid (replicate (Suc 49999) Increase) 0 (at_position 0) in_memory_default =
      (Some (EVENTS, SeqNo EVENTS, True, 0), st)" "profile_at C D EVENTS 50000 EVENTS (SeqNo EVENTS) st"
    using profile_serves [OF assms profile_starts, where N = EVENTS and j = 49999] by (auto simp: events)
  have "flood C D in_memory_default = Some (Some (EVENTS, SeqNo EVENTS, True, 0), st)"
    using st(1) profile_recovers [OF assms profile_starts]
    by (simp add: flood_def profile_run_def events profile_counter_def default_recovered_def del: replicate.simps)
  moreover have "recover_run C D st = Some (Some (EVENTS, SeqNo EVENTS, True, 0), st)"
    using profile_recovers [OF assms st(2)] profile_stops [of C D EVENTS Increase "SeqNo EVENTS" st]
    by (simp add: recover_run_def profile_run_def profile_counter_def default_recovered_def)
  moreover from st(2) have "length (in_memory_stream st profile_pid) = 50000"
    "map_option stored_next_seq_no (in_memory_snapshot st profile_pid) = Some (SeqNo 48000)"
    by (simp_all add: profile_at_def events) (simp add: at_position_def)
  ultimately show ?thesis by blast
qed

theorem profile_floods_and_recovers_witness:
  "total_codec unit_codec \<and> total_codec count_codec \<and>
     (\<exists>st. flood unit_codec count_codec in_memory_default = Some (Some (EVENTS, SeqNo EVENTS, True, 0), st))"
  using profile_floods_and_recovers [OF unit_codec_total count_codec_total] unit_codec_total count_codec_total by blast

end
