(* ===== verification/Report.thy ===== *)
theory Report
  imports PersistenceIds "HOL-Library.Char_ord" "HOL-Library.List_Lexorder" "HOL-Library.Product_Lexorder" "HOL-Library.Multiset"
begin

text \<open>
  \<^verbatim>\<open>tellus-comparison/src/bin/report.rs\<close>: the report on the comparison benchmarks, from the results of
  criterion to an HTML page. Text is a list of ASCII characters. The directory of results is a tree,
  serde_json and the arithmetic and formatting of \<^verbatim>\<open>f64\<close> are arguments, as is what the commands and
  environment variables of the machine say.
\<close>

section \<open>Arguments\<close>

datatype report_error =
    ValueFor string
  | UnexpectedArgument string
  | ReadingDirectory "string list"
  | EntryBelow "string list"
  | ReadingFile "string list"
  | ParsingFile "string list"
  | StringField string
  | IntegerField string
  | NumberField string
  | NoVersionFor "string list"
  | NoCriterionResults string

record args =
  args_input :: string
  args_output :: string
  args_tag :: string

fun parse_args :: "args \<Rightarrow> string list \<Rightarrow> (args, report_error) result" where
  "parse_args a [] = Ok a"
| "parse_args a [arg] =
     (if arg \<in> {''--input'', ''--output'', ''--tag''} then Err (ValueFor arg) else Err (UnexpectedArgument arg))"
| "parse_args a (arg # v # rest) =
     (if arg = ''--input'' then parse_args (a\<lparr>args_input := v\<rparr>) rest
      else if arg = ''--output'' then parse_args (a\<lparr>args_output := v\<rparr>) rest
      else if arg = ''--tag'' then parse_args (a\<lparr>args_tag := v\<rparr>) rest
      else Err (UnexpectedArgument arg))"

text \<open>
  \<open>manifest_dir\<close> is \<^verbatim>\<open>CARGO_MANIFEST_DIR\<close>, \<open>ref_name\<close> the variable \<^verbatim>\<open>GITHUB_REF_NAME\<close>, \<open>argv\<close> the
  arguments behind the program's name.
\<close>

definition args_from_env :: "string \<Rightarrow> string option \<Rightarrow> string list \<Rightarrow> (args, report_error) result" where
  "args_from_env manifest_dir ref_name argv =
     parse_args
       \<lparr>args_input = manifest_dir @ ''/../target/criterion-comparison'',
        args_output = manifest_dir @ ''/../target/comparison-report'',
        args_tag = (case ref_name of Some r \<Rightarrow> r | None \<Rightarrow> ''local'')\<rparr> argv"

section \<open>Measurements\<close>

record ('v, 'f) json_ops =
  json_from_str :: "string \<Rightarrow> 'v option"
  json_str :: "'v \<Rightarrow> string \<Rightarrow> string option"
  json_u64 :: "'v \<Rightarrow> string \<Rightarrow> u64 option"
  json_f64 :: "'v \<Rightarrow> string \<Rightarrow> 'f option"

record 'f number_ops =
  num_zero :: 'f
  num_1e6 :: 'f
  num_1e9 :: 'f
  num_100 :: 'f
  num_of_u64 :: "u64 \<Rightarrow> 'f"
  num_mul :: "'f \<Rightarrow> 'f \<Rightarrow> 'f"
  num_div :: "'f \<Rightarrow> 'f \<Rightarrow> 'f"
  num_max :: "'f \<Rightarrow> 'f \<Rightarrow> 'f"
  num_less :: "'f \<Rightarrow> 'f \<Rightarrow> bool"
  num_fixed :: "nat \<Rightarrow> 'f \<Rightarrow> string"

record 'f measurement =
  m_group :: string
  m_framework :: string
  m_parameter :: "string option"
  m_elements :: u64
  mean_ns :: 'f
  lower_ns :: 'f
  upper_ns :: 'f
  elements_per_second :: 'f

definition m_key :: "'f measurement \<Rightarrow> string \<times> string option" where
  "m_key m = (m_group m, m_parameter m)"

text \<open>A file may be unreadable, as may a directory or an entry of one. A path that does not exist is like a file.\<close>

datatype fs = FileNode "string option" | DirNode "fs_entry list" | UnreadableDir
and fs_entry = Entry string fs | BadEntry

fun is_dir :: "fs \<Rightarrow> bool" where
  "is_dir (FileNode _) = False"
| "is_dir _ = True"

fun dir_file :: "string \<Rightarrow> fs_entry list \<Rightarrow> string option option" where
  "dir_file n [] = None"
| "dir_file n (Entry k (FileNode c) # es) = (if k = n then Some c else dir_file n es)"
| "dir_file n (_ # es) = dir_file n es"

fun entries_of :: "fs \<Rightarrow> fs_entry list" where
  "entries_of (DirNode es) = es"
| "entries_of _ = []"

fun collect_sample_directories :: "string list \<Rightarrow> fs \<Rightarrow> ((string list \<times> fs) list, report_error) result"
and collect_entries :: "string list \<Rightarrow> fs_entry list \<Rightarrow> ((string list \<times> fs) list, report_error) result" where
  "collect_sample_directories p (FileNode _) = Ok []"
| "collect_sample_directories p UnreadableDir = Err (ReadingDirectory p)"
| "collect_sample_directories p (DirNode es) = collect_entries p es"
| "collect_entries p [] = Ok []"
| "collect_entries p (BadEntry # es) = Err (EntryBelow p)"
| "collect_entries p (Entry n node # es) =
     result_bind
       (if \<not> is_dir node then Ok []
        else if n = ''new'' \<and> dir_file ''benchmark.json'' (entries_of node) \<noteq> None \<and>
                dir_file ''estimates.json'' (entries_of node) \<noteq> None
        then Ok [(p @ [n], node)]
        else collect_sample_directories (p @ [n]) node)
       (\<lambda>found. result_bind (collect_entries p es) (\<lambda>rest. Ok (found @ rest)))"

text \<open>\<^verbatim>\<open>collect::<Result<Vec<_>>>\<close>\<close>

fun those_ok :: "('a, 'e) result list \<Rightarrow> ('a list, 'e) result" where
  "those_ok [] = Ok []"
| "those_ok (r # rs) = result_bind r (\<lambda>x. result_bind (those_ok rs) (\<lambda>xs. Ok (x # xs)))"

definition read_json :: "('v, 'f) json_ops \<Rightarrow> string list \<Rightarrow> fs \<Rightarrow> string \<Rightarrow> ('v, report_error) result" where
  "read_json J p dir n =
     (case dir_file n (entries_of dir) of
        Some (Some contents) \<Rightarrow>
          (case json_from_str J contents of Some v \<Rightarrow> Ok v | None \<Rightarrow> Err (ParsingFile (p @ [n])))
      | _ \<Rightarrow> Err (ReadingFile (p @ [n])))"

definition json_string :: "('v, 'f) json_ops \<Rightarrow> 'v \<Rightarrow> string \<Rightarrow> (string, report_error) result" where
  "json_string J v pointer = (case json_str J v pointer of Some s \<Rightarrow> Ok s | None \<Rightarrow> Err (StringField pointer))"

definition json_count :: "('v, 'f) json_ops \<Rightarrow> 'v \<Rightarrow> string \<Rightarrow> (u64, report_error) result" where
  "json_count J v pointer = (case json_u64 J v pointer of Some n \<Rightarrow> Ok n | None \<Rightarrow> Err (IntegerField pointer))"

definition json_number :: "('v, 'f) json_ops \<Rightarrow> 'v \<Rightarrow> string \<Rightarrow> ('f, report_error) result" where
  "json_number J v pointer = (case json_f64 J v pointer of Some x \<Rightarrow> Ok x | None \<Rightarrow> Err (NumberField pointer))"

definition read_measurement ::
  "('v, 'f) json_ops \<Rightarrow> 'f number_ops \<Rightarrow> string list \<times> fs \<Rightarrow> ('f measurement, report_error) result" where
  "read_measurement J F d = (case d of (p, dir) \<Rightarrow>
     result_bind (read_json J p dir ''benchmark.json'') (\<lambda>benchmark.
     result_bind (read_json J p dir ''estimates.json'') (\<lambda>estimates.
     result_bind (json_string J benchmark ''/group_id'') (\<lambda>g.
     result_bind (json_string J benchmark ''/function_id'') (\<lambda>framework.
     result_bind (json_count J benchmark ''/throughput/Elements'') (\<lambda>elements.
     result_bind (json_number J estimates ''/mean/point_estimate'') (\<lambda>mean.
     result_bind (json_number J estimates ''/mean/confidence_interval/lower_bound'') (\<lambda>lower.
     result_bind (json_number J estimates ''/mean/confidence_interval/upper_bound'') (\<lambda>upper.
       Ok \<lparr>m_group = g, m_framework = framework, m_parameter = json_str J benchmark ''/value_str'', m_elements = elements,
           mean_ns = mean, lower_ns = lower, upper_ns = upper,
           elements_per_second = num_div F (num_mul F (num_of_u64 F elements) (num_1e9 F)) mean\<rparr>)))))))))"

section \<open>Order\<close>

text \<open>The derived \<^verbatim>\<open>Ord\<close> compares by variant first.\<close>

datatype ParameterOrder = MissingParameter | NumberParameter u64 | TextParameter string

fun parameter_le :: "ParameterOrder \<Rightarrow> ParameterOrder \<Rightarrow> bool" where
  "parameter_le MissingParameter _ = True"
| "parameter_le (NumberParameter a) (NumberParameter b) = (a \<le> b)"
| "parameter_le (NumberParameter _) (TextParameter _) = True"
| "parameter_le (TextParameter a) (TextParameter b) = (a \<le> b)"
| "parameter_le _ _ = False"

instantiation ParameterOrder :: linorder
begin

definition less_eq_ParameterOrder :: "ParameterOrder \<Rightarrow> ParameterOrder \<Rightarrow> bool" where
  "less_eq_ParameterOrder = parameter_le"

definition less_ParameterOrder :: "ParameterOrder \<Rightarrow> ParameterOrder \<Rightarrow> bool" where
  "less_ParameterOrder a b \<longleftrightarrow> parameter_le a b \<and> \<not> parameter_le b a"

instance
proof
  fix a b c :: ParameterOrder
  show "a < b \<longleftrightarrow> a \<le> b \<and> \<not> b \<le> a" by (simp add: less_ParameterOrder_def less_eq_ParameterOrder_def)
  show "a \<le> a" by (cases a) (simp_all add: less_eq_ParameterOrder_def)
  show "a \<le> b \<Longrightarrow> b \<le> c \<Longrightarrow> a \<le> c" by (cases a; cases b; cases c) (auto simp: less_eq_ParameterOrder_def)
  show "a \<le> b \<Longrightarrow> b \<le> a \<Longrightarrow> a = b" by (cases a; cases b) (auto simp: less_eq_ParameterOrder_def)
  show "a \<le> b \<or> b \<le> a" by (cases a; cases b) (auto simp: less_eq_ParameterOrder_def)
qed

end

text \<open>\<^verbatim>\<open>str::parse::<u64>\<close>: an optional sign, then digits, without overflow.\<close>

definition is_digit :: "char \<Rightarrow> bool" where
  "is_digit c \<longleftrightarrow> 48 \<le> (of_char c :: nat) \<and> (of_char c :: nat) < 58"

definition parse_u64 :: "string \<Rightarrow> u64 option" where
  "parse_u64 s =
     (let ds = (if s \<noteq> [] \<and> hd s = CHR ''+'' then tl s else s)
      in if ds \<noteq> [] \<and> list_all is_digit ds \<and> undecimal ds < 2 ^ 64 then Some (of_nat (undecimal ds)) else None)"

definition parameter_order :: "'f measurement \<Rightarrow> ParameterOrder" where
  "parameter_order m =
     (case m_parameter m of
        Some p \<Rightarrow> (case parse_u64 p of Some n \<Rightarrow> NumberParameter n | None \<Rightarrow> TextParameter p)
      | None \<Rightarrow> MissingParameter)"

definition measurement_order :: "'f measurement \<Rightarrow> string \<times> ParameterOrder \<times> string" where
  "measurement_order m = (m_group m, parameter_order m, m_framework m)"

text \<open>\<^verbatim>\<open>slice::sort_by\<close> is stable, as is \<^const>\<open>sort_key\<close>.\<close>

definition read_measurements ::
  "('v, 'f) json_ops \<Rightarrow> 'f number_ops \<Rightarrow> string list \<Rightarrow> fs \<Rightarrow> ('f measurement list, report_error) result" where
  "read_measurements J F p input =
     result_bind (collect_sample_directories p input) (\<lambda>directories.
     result_bind (those_ok (map (read_measurement J F) directories)) (\<lambda>ms.
       Ok (sort_key measurement_order ms)))"

section \<open>Metadata\<close>

definition NL :: char where
  "NL = CHR 0x0A"

definition CR :: char where
  "CR = CHR 0x0D"

text \<open>\<^verbatim>\<open>str::lines\<close>\<close>

fun split_lines :: "string \<Rightarrow> string \<Rightarrow> string list" where
  "split_lines acc [] = (if acc = [] then [] else [rev acc])"
| "split_lines acc (c # cs) =
     (if c = NL then rev (if acc \<noteq> [] \<and> hd acc = CR then tl acc else acc) # split_lines [] cs
      else split_lines (c # acc) cs)"

definition lines_of :: "string \<Rightarrow> string list" where
  "lines_of s = split_lines [] s"

fun strip_prefix :: "string \<Rightarrow> string \<Rightarrow> string option" where
  "strip_prefix [] s = Some s"
| "strip_prefix (p # ps) [] = None"
| "strip_prefix (p # ps) (c # cs) = (if p = c then strip_prefix ps cs else None)"

definition trim_by :: "(char \<Rightarrow> bool) \<Rightarrow> string \<Rightarrow> string" where
  "trim_by p s = rev (dropWhile p (rev (dropWhile p s)))"

definition to_lower :: "char \<Rightarrow> char" where
  "to_lower c = (if 65 \<le> (of_char c :: nat) \<and> (of_char c :: nat) < 91 then char_of ((of_char c :: nat) + 32) else c)"

definition model_name :: "string \<Rightarrow> string option" where
  "model_name text =
     Option.bind (find (\<lambda>line. strip_prefix ''model name'' (map to_lower line) \<noteq> None) (lines_of text)) (\<lambda>line.
     Option.bind (split_once (CHR '':'') line) (\<lambda>(_, model).
       let m = trim_by is_space model in if m \<noteq> [] \<and> m \<noteq> ''-'' then Some m else None))"

definition read_cpu :: "string option \<Rightarrow> string option \<Rightarrow> string option" where
  "read_cpu cpuinfo lscpu =
     (case Option.bind cpuinfo model_name of Some m \<Rightarrow> Some m | None \<Rightarrow> Option.bind lscpu model_name)"

definition PACKAGES :: "string list" where
  "PACKAGES = [''kameo'', ''ractor'', ''tellus'']"

text \<open>A \<^verbatim>\<open>BTreeMap\<close> is the list of its entries in the order of their keys.\<close>

definition btree_insert :: "string \<Rightarrow> 'a \<Rightarrow> (string \<times> 'a) list \<Rightarrow> (string \<times> 'a) list" where
  "btree_insert k v m = sort_key fst (AList.update k v m)"

definition is_quote :: "char \<Rightarrow> bool" where
  "is_quote c \<longleftrightarrow> c = CHR 0x22"

fun lock_line ::
  "string option \<times> (string \<times> string) list \<Rightarrow> string \<Rightarrow> string option \<times> (string \<times> string) list" where
  "lock_line (name, versions) line =
     (case strip_prefix ''name = '' line of
        Some v \<Rightarrow> (Some (trim_by is_quote v), versions)
      | None \<Rightarrow>
          (case strip_prefix ''version = '' line of
             Some v \<Rightarrow>
               (case name of
                  Some n \<Rightarrow> (None, if n \<in> set PACKAGES then btree_insert n (trim_by is_quote v) versions else versions)
                | None \<Rightarrow> (None, versions))
           | None \<Rightarrow> (name, versions)))"

definition read_versions :: "string option \<Rightarrow> ((string \<times> string) list, report_error) result" where
  "read_versions lock_file =
     (case lock_file of
        None \<Rightarrow> Err (ReadingFile [''Cargo.lock''])
      | Some lock \<Rightarrow>
          (let versions = snd (foldl lock_line (None, []) (lines_of lock));
               missing = filter (\<lambda>p. map_of versions p = None) PACKAGES
           in if missing \<noteq> [] then Err (NoVersionFor missing) else Ok versions))"

record metadata =
  md_tag :: string
  md_commit :: "string option"
  md_date :: "string option"
  md_os :: "string option"
  md_cpu :: "string option"
  md_cores :: "nat option"
  md_rustc :: "string option"
  md_versions :: "(string \<times> string) list"

text \<open>
  What the machine says: variables, files and the outcome of commands, each with whether it succeeded
  and its output if that is UTF-8 (\<^const>\<open>None\<close> if it did not start).
\<close>

type_synonym command_outcome = "(bool \<times> string option) option"

record machine =
  mc_sha :: "string option"
  mc_git :: command_outcome
  mc_date :: command_outcome
  mc_uname :: command_outcome
  mc_rustc :: command_outcome
  mc_lscpu :: command_outcome
  mc_cpuinfo :: "string option"
  mc_cores :: "nat option"
  mc_lock :: "string option"

text \<open>\<^verbatim>\<open>run\<close>; its errors end in \<^verbatim>\<open>or_none\<close>, which prints them.\<close>

fun run_command :: "command_outcome \<Rightarrow> string option" where
  "run_command (Some (True, Some out)) = Some (trim_by is_space out)"
| "run_command _ = None"

definition read_metadata :: "machine \<Rightarrow> string \<Rightarrow> (metadata, report_error) result" where
  "read_metadata mc tag =
     result_bind (read_versions (mc_lock mc)) (\<lambda>versions.
       Ok \<lparr>md_tag = tag,
           md_commit = (case mc_sha mc of Some s \<Rightarrow> Some s | None \<Rightarrow> run_command (mc_git mc)),
           md_date = run_command (mc_date mc), md_os = run_command (mc_uname mc),
           md_cpu = read_cpu (mc_cpuinfo mc) (run_command (mc_lscpu mc)), md_cores = mc_cores mc,
           md_rustc = run_command (mc_rustc mc), md_versions = versions\<rparr>)"

section \<open>The page\<close>

definition replace_char :: "char \<Rightarrow> string \<Rightarrow> string \<Rightarrow> string" where
  "replace_char c r s = concat (map (\<lambda>x. if x = c then r else [x]) s)"

definition escape :: "string \<Rightarrow> string" where
  "escape s =
     replace_char (CHR ''>'') ''&gt;'' (replace_char (CHR ''<'') ''&lt;'' (replace_char (CHR ''&'') ''&amp;'' s))"

definition or_unknown :: "string option \<Rightarrow> string" where
  "or_unknown v = (case v of Some s \<Rightarrow> s | None \<Rightarrow> ''unknown'')"

fun join_with :: "string \<Rightarrow> string list \<Rightarrow> string" where
  "join_with sep [] = []"
| "join_with sep [s] = s"
| "join_with sep (s # ss) = s @ sep @ join_with sep ss"

fun chunk_by :: "('a \<Rightarrow> 'a \<Rightarrow> bool) \<Rightarrow> 'a list \<Rightarrow> 'a list list" where
  "chunk_by p [] = []"
| "chunk_by p (x # xs) =
     (case chunk_by p xs of
        (c # cs) \<Rightarrow> (if p x (hd c) then (x # c) # cs else [x] # c # cs)
      | [] \<Rightarrow> [x] # [])"

definition render_row :: "'f number_ops \<Rightarrow> 'f \<Rightarrow> 'f measurement \<Rightarrow> string" where
  \<open>render_row F fastest m =
     (let relative = (if num_less F (num_zero F) fastest then num_div F (elements_per_second m) fastest else num_zero F);
          width = num_mul F relative (num_100 F)
      in ''<tr><td>'' @ escape (m_framework m) @ ''</td><td class="num">'' @ num_fixed F 3 (num_div F (mean_ns m) (num_1e6 F)) @
         '' ms</td><td class="num">'' @ num_fixed F 2 (num_div F (elements_per_second m) (num_1e6 F)) @
         '' M/s</td><td class="num">'' @ num_fixed F 2 relative @
         ''x</td><td class="barcell"><span class="bar" style="width:'' @ num_fixed F 1 width @ ''%"></span></td></tr>'')\<close>

definition render_section :: "'f number_ops \<Rightarrow> string \<Rightarrow> string option \<Rightarrow> 'f measurement list \<Rightarrow> string" where
  \<open>render_section F grp parameter ms =
     (let fastest = foldl (num_max F) (num_zero F) (map elements_per_second ms);
          heading = (case parameter of Some p \<Rightarrow> grp @ '' ('' @ p @ '')'' | None \<Rightarrow> grp)
      in join_with [NL]
           [''<h2>'' @ escape heading @ ''</h2>'',
            ''<div class="scroll"><table>'',
            ''<thead><tr><th>Framework</th><th class="num">Time</th><th class="num">Throughput</th><th class="num">vs fastest</th><th></th></tr></thead>'',
            ''<tbody>'' @ concat (map (render_row F fastest) ms) @ ''</tbody>'',
            ''</table></div>'',
            ''''])\<close>

definition sections_of :: "'f measurement list \<Rightarrow> 'f measurement list list" where
  "sections_of ms = chunk_by (\<lambda>a b. m_key a = m_key b) ms"

definition PAGE_TITLE :: "string list" where
  \<open>PAGE_TITLE =
     [''<!doctype html>'',
      ''<html lang="en">'',
      ''<head>'',
      ''<meta charset="utf-8">'',
      ''<meta name="viewport" content="width=device-width, initial-scale=1">'',
      ''<title>tellus comparison benchmarks ('']\<close>

definition PAGE_STYLE :: "string list" where
  \<open>PAGE_STYLE =
     ['')</title>'',
      ''<style>'',
      '':root { color-scheme: light dark; --fg: #111; --muted: #555; --bg: #fff; --line: #ddd; --bar: #4f7cff; --warn-bg: #fff8e1; --warn-line: #e6c200; }'',
      ''@media (prefers-color-scheme: dark) {'',
      ''  :root { --fg: #e6e6e6; --muted: #a0a0a0; --bg: #14161a; --line: #333; --bar: #6d92ff; --warn-bg: #2a2413; --warn-line: #7a6a1a; }'',
      ''}'',
      ''* { box-sizing: border-box; }'',
      ''body { margin: 0 auto; padding: 2rem 1rem; max-width: 60rem; background: var(--bg); color: var(--fg);'',
      ''  font: 16px/1.6 system-ui, -apple-system, Segoe UI, Roboto, sans-serif; }'',
      ''h1 { font-size: 1.6rem; margin: 0 0 .25rem; }'',
      ''h2 { font-size: 1.15rem; margin: 2.5rem 0 .75rem; }'',
      ''a { color: inherit; }'',
      ''.sub { color: var(--muted); margin: 0 0 1.5rem; }'',
      ''.meta { display: grid; grid-template-columns: max-content 1fr; gap: .25rem 1rem; padding: 1rem;'',
      ''  border: 1px solid var(--line); border-radius: 8px; font-size: .9rem; }'',
      ''.meta dt { color: var(--muted); }'',
      ''.meta dd { margin: 0; overflow-wrap: anywhere; }'',
      ''.caveats { margin: 1.5rem 0; padding: 1rem 1rem 1rem 1.25rem; background: var(--warn-bg);'',
      ''  border-left: 4px solid var(--warn-line); border-radius: 4px; font-size: .92rem; }'',
      ''.caveats h2 { margin: 0 0 .5rem; font-size: 1rem; }'',
      ''.caveats ol { margin: 0; padding-left: 1.1rem; }'',
      ''.caveats li { margin: .4rem 0; }'',
      ''.scroll { overflow-x: auto; }'',
      ''table { border-collapse: collapse; width: 100%; font-size: .92rem; }'',
      ''th, td { text-align: left; padding: .45rem .6rem; border-bottom: 1px solid var(--line); white-space: nowrap; }'',
      ''th { color: var(--muted); font-weight: 600; }'',
      ''td.num { text-align: right; font-variant-numeric: tabular-nums; }'',
      ''.bar { display: block; height: .55rem; background: var(--bar); border-radius: 3px; min-width: 2px; }'',
      ''td.barcell { width: 40%; }'',
      ''footer { margin-top: 3rem; color: var(--muted); font-size: .85rem; }'',
      ''</style>'',
      ''</head>'',
      ''<body>'',
      ''<h1>tellus comparison benchmarks</h1>'',
      ''<p class="sub">Messaging throughput of <strong>tellus</strong> against kameo and ractor, higher is better.</p>'',
      '''',
      ''<dl class="meta">'',
      ''<dt>Tag</dt><dd>'']\<close>

definition PAGE_COMMIT :: "string list" where
  \<open>PAGE_COMMIT =
     [''</dd>'',
      ''<dt>Commit</dt><dd>'']\<close>

definition PAGE_DATE :: "string list" where
  \<open>PAGE_DATE =
     [''</dd>'',
      ''<dt>Date</dt><dd>'']\<close>

definition PAGE_VERSIONS :: "string list" where
  \<open>PAGE_VERSIONS =
     [''</dd>'',
      ''<dt>Versions</dt><dd>'']\<close>

definition PAGE_CPU :: "string list" where
  \<open>PAGE_CPU =
     [''</dd>'',
      ''<dt>CPU</dt><dd>'']\<close>

definition PAGE_CORES :: "string list" where
  \<open>PAGE_CORES =
     ['' ('']\<close>

definition PAGE_OS :: "string list" where
  \<open>PAGE_OS =
     ['' cores)</dd>'',
      ''<dt>OS</dt><dd>'']\<close>

definition PAGE_TOOLCHAIN :: "string list" where
  \<open>PAGE_TOOLCHAIN =
     [''</dd>'',
      ''<dt>Toolchain</dt><dd>'']\<close>

definition PAGE_CAVEATS :: "string list" where
  \<open>PAGE_CAVEATS =
     [''</dd>'',
      ''</dl>'',
      '''',
      ''<div class="caveats">'',
      ''<h2>Read this before drawing conclusions</h2>'',
      ''<ol>'',
      ''<li><strong>tellus's <code>receive</code> is synchronous; kameo's and ractor's handlers are <code>async fn</code>.</strong>'',
      ''tellus therefore avoids allocating and polling a future per message, but cannot await inside <code>receive</code>.'',
      ''This is a capability difference, not only a speed difference, and it favours tellus on exactly these microbenchmarks.</li>'',
      ''<li><strong>tellus's mailbox is statically typed; the others erase message types</strong>, costing an allocation'',
      ''and a dynamic dispatch per message that tellus does not pay.</li>'',
      ''<li><strong>Competitors are configured for speed, not defaults.</strong> kameo runs without <code>tracing</code>'',
      ''and ractor without <code>message_span_propogation</code>, both of which add per-message instrumentation that'',
      ''tellus has no equivalent of. This biases the setup in the competitors' favour.</li>'',
      ''<li><strong>Messaging microbenchmarks only.</strong> Nothing here speaks to supervision, distribution,'',
      ''ergonomics, memory use or production readiness. kameo and ractor are mature, feature-rich frameworks; tellus is'',
      ''under active development and does far less.</li>'',
      ''<li><strong>On CI these run on a shared 2-core runner</strong>, so absolute figures are not representative of real'',
      ''deployments. Only the relative comparison within a single run is meaningful.</li>'',
      ''<li><strong>Written and run by tellus's maintainer.</strong> The full methodology and benchmark source are in the'',
      ''repository; corrections are welcome.</li>'',
      ''</ol>'',
      ''</div>'',
      '''']\<close>

definition PAGE_FOOTER :: "string list" where
  \<open>PAGE_FOOTER =
     ['''',
      ''<footer>'',
      ''Generated from criterion results. See the'',
      ''<a href="../../dev/bench/">tellus regression benchmarks</a> for throughput over time.'',
      ''</footer>'',
      ''</body>'',
      ''</html>'',
      '''']\<close>

definition render_html :: "'f number_ops \<Rightarrow> metadata \<Rightarrow> 'f measurement list \<Rightarrow> string" where
  "render_html F md ms =
     (let sections = concat (map (\<lambda>c. case m_key (hd c) of (g, p) \<Rightarrow> render_section F g p c) (sections_of ms));
          versions = join_with '', '' (map (\<lambda>(name, version). name @ '' '' @ version) (md_versions md));
          page = join_with [NL]
      in page PAGE_TITLE @ escape (md_tag md) @ page PAGE_STYLE @ escape (md_tag md) @
         page PAGE_COMMIT @ escape (or_unknown (md_commit md)) @ page PAGE_DATE @ escape (or_unknown (md_date md)) @
         page PAGE_VERSIONS @ escape versions @ page PAGE_CPU @ escape (or_unknown (md_cpu md)) @
         page PAGE_CORES @ (case md_cores md of Some n \<Rightarrow> decimal n | None \<Rightarrow> ''unknown'') @
         page PAGE_OS @ escape (or_unknown (md_os md)) @ page PAGE_TOOLCHAIN @ escape (or_unknown (md_rustc md)) @
         page PAGE_CAVEATS @ sections @ page PAGE_FOOTER)"

section \<open>The whole program\<close>

text \<open>\<^verbatim>\<open>main\<close> up to writing the files.\<close>

definition build_report ::
  "('v, 'f) json_ops \<Rightarrow> 'f number_ops \<Rightarrow> machine \<Rightarrow> args \<Rightarrow> fs
     \<Rightarrow> (metadata \<times> 'f measurement list, report_error) result" where
  "build_report J F mc a input =
     result_bind (read_measurements J F [args_input a] input) (\<lambda>ms.
       if ms = [] then Err (NoCriterionResults (args_input a))
       else result_bind (read_metadata mc (args_tag a)) (\<lambda>md. Ok (md, ms)))"

section \<open>Escaping\<close>

definition markup :: "string \<Rightarrow> string" where
  "markup s = filter (\<lambda>c. c = CHR ''<'' \<or> c = CHR ''>'') s"

lemma markup_append: "markup (a @ b) = markup a @ markup b"
  by (simp add: markup_def)

lemma markup_concat: "markup (concat ss) = concat (map markup ss)"
  by (induction ss) (simp_all add: markup_append markup_def)

lemma replace_char_simps [simp]:
  "replace_char c r [] = []" "replace_char c r (x # s) = (if x = c then r else [x]) @ replace_char c r s"
  "replace_char c r (s @ t) = replace_char c r s @ replace_char c r t"
  by (simp_all add: replace_char_def)

definition escape_char :: "char \<Rightarrow> string" where
  "escape_char c =
     (if c = CHR ''&'' then ''&amp;'' else if c = CHR ''<'' then ''&lt;'' else if c = CHR ''>'' then ''&gt;'' else [c])"

text \<open>The three passes do not interfere.\<close>

lemma escape_is_one_pass: "escape s = concat (map escape_char s)"
proof (induction s)
  case (Cons c s)
  have "escape (c # s) = escape_char c @ escape s" by (simp add: escape_def escape_char_def)
  with Cons show ?case by simp
qed (simp add: escape_def)

lemma markup_escape [simp]: "markup (escape s) = []"
proof -
  have "markup (escape_char c) = []" for c by (simp add: escape_char_def markup_def)
  then show ?thesis by (simp add: escape_is_one_pass markup_concat comp_def)
qed

lemma markup_decimal: "markup (decimal n) = []"
  using decimal_digits [of "CHR ''<''" n] decimal_digits [of "CHR ''>''" n] by (auto simp: markup_def filter_empty_conv)

lemma markup_row:
  assumes "\<forall>n x. markup (num_fixed F n x) = []"
  shows "markup (render_row F fastest m) = markup (render_row F fastest' m')"
proof -
  have c: "markup (num_fixed F n x) = []" for n x using assms by simp
  show ?thesis by (simp only: render_row_def Let_def markup_append markup_escape c)
qed

lemma markup_join: "markup (join_with [NL] ss) = concat (map markup ss)"
proof (induction "[NL]" ss rule: join_with.induct)
  case (3 s s' ss)
  have "markup (NL # t) = markup t" for t by (simp add: markup_def NL_def)
  with 3 show ?case by (simp add: markup_append)
qed (simp_all add: markup_def)

lemma markup_section:
  assumes clean: "\<forall>n x. markup (num_fixed F n x) = []" and len: "length ms = length ms'"
  shows "markup (render_section F g p ms) = markup (render_section F g' p' ms')"
proof -
  have "concat (map (markup \<circ> render_row F a) ms) = concat (map (markup \<circ> render_row F a') ms')" for a a'
    using len
  proof (induction ms ms' rule: list_induct2)
    case (Cons m ms m' ms')
    then show ?case using markup_row [OF clean, of a m a' m'] by (simp only: list.map concat.simps comp_apply)
  qed simp
  then have rows: "markup (concat (map (render_row F a) ms)) = markup (concat (map (render_row F a') ms'))" for a a'
    by (simp only: markup_concat map_map)
  show ?thesis
    unfolding render_section_def Let_def markup_join list.map markup_append markup_escape
    by (simp only: rows [of _ "foldl (num_max F) (num_zero F) (map elements_per_second ms')"])
qed

section \<open>Sections\<close>

lemma chunk_by_concat [simp]: "concat (chunk_by p xs) = xs"
  by (induction xs) (auto split: list.splits)

lemma chunk_by_Nil [simp]: "chunk_by p xs = [] \<longleftrightarrow> xs = []"
  by (cases xs) (auto split: list.splits)

lemma chunk_by_nonempty: "[] \<notin> set (chunk_by p xs)"
  by (induction xs) (auto split: list.splits)

lemma chunk_by_hd: "chunk_by p xs = c # cs \<Longrightarrow> hd c = hd xs \<and> hd c \<in> set xs"
proof (induction xs arbitrary: c cs)
  case (Cons x xs)
  then show ?case by (auto split: list.splits if_splits)
qed simp

lemma chunk_by_same: "c \<in> set (chunk_by (\<lambda>a b. k a = k b) xs) \<Longrightarrow> x \<in> set c \<Longrightarrow> k x = k (hd c)"
proof (induction xs arbitrary: c)
  case (Cons y xs)
  then show ?case by (auto split: list.splits if_splits)
qed simp

lemma chunk_by_heads:
  fixes f :: "'a \<Rightarrow> 'b::linorder"
  assumes "sorted (map f xs)" and "\<forall>a \<in> set xs. \<forall>b \<in> set xs. k a = k b \<longleftrightarrow> f a = f b"
  shows "sorted_wrt (<) (map (f \<circ> hd) (chunk_by (\<lambda>a b. k a = k b) xs))"
  using assms
proof (induction xs)
  case (Cons x xs)
  show ?case
  proof (cases "chunk_by (\<lambda>a b. k a = k b) xs")
    case (Cons c cs)
    have hd: "hd c \<in> set xs" using chunk_by_hd [OF Cons] by blast
    have strict: "sorted_wrt (<) (map (f \<circ> hd) (c # cs))" using Cons.IH Cons.prems Cons by (simp add: comp_def)
    have le: "f x \<le> f (hd c)" using Cons.prems(1) hd by auto
    show ?thesis
    proof (cases "k x = k (hd c)")
      case True
      then have "f x = f (hd c)" using Cons.prems(2) hd by simp
      with strict True Cons show ?thesis by (simp add: comp_def)
    next
      case False
      then have "f x < f (hd c)" using le Cons.prems(2) hd by (simp add: order.strict_iff_order)
      with strict False Cons show ?thesis by (auto simp: comp_def intro: less_trans)
    qed
  qed simp
qed simp

lemma sorted_parts: "sorted (concat xss) \<Longrightarrow> xs \<in> set xss \<Longrightarrow> sorted xs"
  for xss :: "'a::linorder list list"
  by (induction xss) (auto simp: sorted_append)

lemma group_order:
  "sorted (map measurement_order ms) \<Longrightarrow> sorted (map (\<lambda>m. (m_group m, parameter_order m)) ms)"
  by (induction ms) (auto simp: measurement_order_def less_eq_prod_def)

lemma concat_map_by_length:
  assumes same: "\<And>c c'. length c = length c' \<Longrightarrow> f c = f c'"
  shows "map length cs = map length cs' \<Longrightarrow> concat (map f cs) = concat (map f cs')"
proof (induction cs arbitrary: cs')
  case (Cons c cs)
  then obtain c' ds where "cs' = c' # ds" "length c = length c'" "map length cs = map length ds" by (cases cs') auto
  then show ?case using Cons.IH [of ds] same [of c c'] by simp
qed simp

lemma markup_sections:
  assumes "\<forall>n x. markup (num_fixed F n x) = []" and "map length (sections_of ms) = map length (sections_of ms')"
  shows "markup (concat (map (\<lambda>c. case m_key (hd c) of (g, p) \<Rightarrow> render_section F g p c) (sections_of ms))) =
    markup (concat (map (\<lambda>c. case m_key (hd c) of (g, p) \<Rightarrow> render_section F g p c) (sections_of ms')))"
proof -
  let ?r = "\<lambda>c. case m_key (hd c) of (g, p) \<Rightarrow> render_section F g p c"
  have one: "markup (?r c) = markup (?r c')" if "length c = length c'" for c c'
    using markup_section [OF assms(1) that] by (simp only: split_def)
  show ?thesis
    unfolding markup_concat map_map by (rule concat_map_by_length [OF _ assms(2)]) (unfold comp_apply, rule one)
qed

lemma markup_unknown: "markup ''unknown'' = []"
  by (simp add: markup_def)

section \<open>The lock file\<close>

text \<open>A package of a lock file: its name, its version, and other lines.\<close>

definition lock_package :: "string \<times> string \<times> string list \<Rightarrow> string list" where
  "lock_package p = (case p of (n, v, others) \<Rightarrow>
     [CHR ''['' # ''[package]]'', ''name = '' @ [CHR 0x22] @ n @ [CHR 0x22], ''version = '' @ [CHR 0x22] @ v @ [CHR 0x22]] @ others)"

definition lock_package_ok :: "string \<times> string \<times> string list \<Rightarrow> bool" where
  "lock_package_ok p \<longleftrightarrow> (case p of (n, v, others) \<Rightarrow>
     CHR 0x22 \<notin> set n \<and> CHR 0x22 \<notin> set v \<and>
     (\<forall>l \<in> set others. strip_prefix ''name = '' l = None \<and> strip_prefix ''version = '' l = None))"

lemma strip_prefix_append [simp]: "strip_prefix p (p @ s) = Some s"
  by (induction p) simp_all

lemma trim_quotes:
  assumes "CHR 0x22 \<notin> set s"
  shows "trim_by is_quote ([CHR 0x22] @ s @ [CHR 0x22]) = s"
proof -
  have id: "dropWhile is_quote t = t" if "CHR 0x22 \<notin> set t" for t using that by (cases t) (auto simp: is_quote_def)
  have "dropWhile is_quote ([CHR 0x22] @ s @ [CHR 0x22]) = (if s = [] then [] else s @ [CHR 0x22])"
    using assms by (cases s) (auto simp: is_quote_def)
  moreover have "dropWhile is_quote (CHR 0x22 # rev s) = rev s" using id [of "rev s"] assms by (simp add: is_quote_def)
  ultimately show ?thesis by (simp add: trim_by_def)
qed

lemma lock_other_lines:
  "\<forall>l \<in> set ls. strip_prefix ''name = '' l = None \<and> strip_prefix ''version = '' l = None \<Longrightarrow> foldl lock_line s ls = s"
proof (induction ls arbitrary: s)
  case (Cons l ls)
  then show ?case by (cases s) simp
qed simp

definition versions_add :: "(string \<times> string) list \<Rightarrow> string \<times> string \<times> string list \<Rightarrow> (string \<times> string) list" where
  "versions_add vs p = (case p of (n, v, _) \<Rightarrow> if n \<in> set PACKAGES then btree_insert n v vs else vs)"

lemma lock_package_read:
  assumes "lock_package_ok p"
  shows "foldl lock_line (None, vs) (lock_package p) = (None, versions_add vs p)"
proof -
  obtain n v others where p: "p = (n, v, others)" by (cases p)
  have ok: "CHR 0x22 \<notin> set n" "CHR 0x22 \<notin> set v"
    "\<forall>l \<in> set others. strip_prefix ''name = '' l = None \<and> strip_prefix ''version = '' l = None"
    using assms by (auto simp: p lock_package_ok_def)
  have "strip_prefix ''name = '' (CHR ''['' # ''[package]]'') = None" "strip_prefix ''version = '' (CHR ''['' # ''[package]]'') = None" by simp_all
  moreover have "strip_prefix ''name = '' (''version = '' @ s) = None" for s by simp
  ultimately show ?thesis
    using lock_other_lines [OF ok(3)] trim_quotes [OF ok(1)] trim_quotes [OF ok(2)]
    by (simp add: p lock_package_def versions_add_def del: append.simps)
qed

lemma btree_lookup:
  assumes "distinct (map fst vs)"
  shows "map_of (btree_insert k v vs) = (map_of vs)(k \<mapsto> v) \<and> distinct (map fst (btree_insert k v vs)) \<and>
    sorted (map fst (btree_insert k v vs))"
proof -
  have d: "distinct (map fst (AList.update k v vs))" using assms by (simp add: distinct_update)
  have set_eq: "set (btree_insert k v vs) = set (AList.update k v vs)" by (simp add: btree_insert_def)
  have "distinct (map fst (btree_insert k v vs))"
    using d unfolding btree_insert_def by (simp add: distinct_map)
  moreover from this d set_eq have "map_of (btree_insert k v vs) = map_of (AList.update k v vs)"
    by (metis map_of_inject_set)
  ultimately show ?thesis by (simp add: btree_insert_def update_conv')
qed

lemma versions_added:
  "distinct (map fst vs) \<Longrightarrow> sorted (map fst vs) \<Longrightarrow>
     map_of (foldl versions_add vs pkgs) =
       (\<lambda>p. if p \<in> set PACKAGES \<and> p \<in> fst ` set pkgs then map_of (rev (map (\<lambda>(n, v, _). (n, v)) pkgs)) p else map_of vs p) \<and>
     distinct (map fst (foldl versions_add vs pkgs)) \<and> sorted (map fst (foldl versions_add vs pkgs))"
proof (induction pkgs rule: rev_induct)
  case (snoc x pkgs)
  obtain n v others where x: "x = (n, v, others)" by (cases x)
  from snoc have IH: "map_of (foldl versions_add vs pkgs) =
       (\<lambda>p. if p \<in> set PACKAGES \<and> p \<in> fst ` set pkgs then map_of (rev (map (\<lambda>(n, v, _). (n, v)) pkgs)) p else map_of vs p)"
    "distinct (map fst (foldl versions_add vs pkgs))" "sorted (map fst (foldl versions_add vs pkgs))" by simp_all
  show ?case
  proof (cases "n \<in> set PACKAGES")
    case True
    then have "foldl versions_add vs (pkgs @ [x]) = btree_insert n v (foldl versions_add vs pkgs)" by (simp add: x versions_add_def)
    with btree_lookup [OF IH(2), of n v] IH(1) True show ?thesis by (auto simp: x)
  next
    case False
    then have "foldl versions_add vs (pkgs @ [x]) = foldl versions_add vs pkgs" by (simp add: x versions_add_def)
    with IH False show ?thesis by (auto simp: x)
  qed
qed simp

lemma lock_packages_read:
  "\<forall>p \<in> set pkgs. lock_package_ok p \<Longrightarrow>
     foldl lock_line (None, vs) (concat (map lock_package pkgs)) = (None, foldl versions_add vs pkgs)"
  by (induction pkgs arbitrary: vs) (simp_all add: lock_package_read)

lemma split_lines_line:
  "NL \<notin> set l \<Longrightarrow>
     split_lines acc (l @ NL # rest) =
       (let r = rev l @ acc in rev (if r \<noteq> [] \<and> hd r = CR then tl r else r)) # split_lines [] rest"
  by (induction l arbitrary: acc) (auto simp: Let_def)

lemma lines_of_lines:
  "\<forall>l \<in> set ls. NL \<notin> set l \<and> CR \<notin> set l \<Longrightarrow> lines_of (concat (map (\<lambda>l. l @ [NL]) ls)) = ls"
proof (induction ls)
  case (Cons l ls)
  then have "rev l \<noteq> [] \<Longrightarrow> hd (rev l) \<noteq> CR" by (metis hd_in_set list.set_intros(1) set_rev)
  with Cons show ?case by (auto simp: lines_of_def split_lines_line Let_def)
qed (simp add: lines_of_def)

text \<open>
  The versions are those of the last package of each name, in the order of names; if one is missing,
  the error names exactly those missing.
\<close>

lemma read_versions_of_lock:
  assumes "\<forall>p \<in> set pkgs. lock_package_ok p" and "\<forall>l \<in> set (concat (map lock_package pkgs)). NL \<notin> set l \<and> CR \<notin> set l"
  shows "case read_versions (Some (concat (map (\<lambda>l. l @ [NL]) (concat (map lock_package pkgs))))) of
      Ok vs \<Rightarrow> set PACKAGES \<subseteq> fst ` set pkgs \<and> sorted (map fst vs) \<and>
        (\<forall>p \<in> set PACKAGES. map_of vs p = map_of (rev (map (\<lambda>(n, v, _). (n, v)) pkgs)) p)
    | Err e \<Rightarrow> \<not> set PACKAGES \<subseteq> fst ` set pkgs \<and> e = NoVersionFor (filter (\<lambda>p. p \<notin> fst ` set pkgs) PACKAGES)"
proof -
  let ?vs = "foldl versions_add [] pkgs"
  have read: "snd (foldl lock_line (None, []) (lines_of (concat (map (\<lambda>l. l @ [NL]) (concat (map lock_package pkgs)))))) = ?vs"
    using lock_packages_read [OF assms(1), of "[]"] lines_of_lines [OF assms(2)] by simp
  have vs: "map_of ?vs = (\<lambda>p. if p \<in> set PACKAGES \<and> p \<in> fst ` set pkgs then map_of (rev (map (\<lambda>(n, v, _). (n, v)) pkgs)) p else None)"
    "sorted (map fst ?vs)" using versions_added [of "[]" pkgs] by (simp_all cong: if_cong)
  have "fst ` set pkgs = dom (map_of (rev (map (\<lambda>(n, v, _). (n, v)) pkgs)))"
    by (simp add: dom_map_of_conv_image_fst image_image split_def)
  then have found: "map_of ?vs p = None \<longleftrightarrow> p \<notin> fst ` set pkgs" if "p \<in> set PACKAGES" for p
    unfolding vs(1) using that by (auto simp: domIff)
  then have missing: "filter (\<lambda>p. map_of ?vs p = None) PACKAGES = filter (\<lambda>p. p \<notin> fst ` set pkgs) PACKAGES"
    by (intro filter_cong) auto
  show ?thesis
  proof (cases "set PACKAGES \<subseteq> fst ` set pkgs")
    case True
    then have "filter (\<lambda>p. p \<notin> fst ` set pkgs) PACKAGES = []" by (auto simp: filter_empty_conv)
    moreover have "map_of ?vs p = map_of (rev (map (\<lambda>(n, v, _). (n, v)) pkgs)) p" if "p \<in> set PACKAGES" for p
      unfolding vs(1) using True that by auto
    ultimately show ?thesis using True vs(2) by (simp add: read_versions_def read missing Let_def)
  next
    case False
    then have "filter (\<lambda>p. p \<notin> fst ` set pkgs) PACKAGES \<noteq> []" by (auto simp: filter_empty_conv)
    with False show ?thesis by (simp add: read_versions_def read missing Let_def)
  qed
qed

section \<open>A concrete report\<close>

definition demo_numbers :: "int number_ops" where
  "demo_numbers =
     \<lparr>num_zero = 0, num_1e6 = 10 ^ 6, num_1e9 = 10 ^ 9, num_100 = 100, num_of_u64 = uint, num_mul = (*), num_div = (div),
      num_max = max, num_less = (<), num_fixed = (\<lambda>_ x. decimal (nat x))\<rparr>"

definition demo_measurement :: "string \<Rightarrow> string option \<Rightarrow> string \<Rightarrow> int measurement" where
  "demo_measurement g p framework =
     \<lparr>m_group = g, m_framework = framework, m_parameter = p, m_elements = 1000, mean_ns = 2 * 10 ^ 6, lower_ns = 10 ^ 6,
      upper_ns = 3 * 10 ^ 6, elements_per_second = 500000\<rparr>"

definition demo_metadata :: "string \<Rightarrow> metadata" where
  "demo_metadata tag =
     \<lparr>md_tag = tag, md_commit = None, md_date = None, md_os = None, md_cpu = None, md_cores = Some 2, md_rustc = None,
      md_versions = [(''kameo'', ''0.17'')]\<rparr>"

text \<open>
  The order compares numbers by value, the sections compare their text: with a number spelled in two
  ways, a benchmark gets more than one section.
\<close>

lemma spellings_split_sections:
  "map (m_key \<circ> hd) (sections_of (sort_key measurement_order
     [demo_measurement ''tell'' (Some ''1'') ''kameo'', demo_measurement ''tell'' (Some ''01'') ''ractor'',
      demo_measurement ''tell'' (Some ''1'') ''tellus''])) =
   [(''tell'', Some ''1''), (''tell'', Some ''01''), (''tell'', Some ''1'')]"
proof -
  have order: "measurement_order (demo_measurement ''tell'' (Some ''1'') f) = (''tell'', NumberParameter 1, f)"
    "measurement_order (demo_measurement ''tell'' (Some ''01'') f) = (''tell'', NumberParameter 1, f)" for f
    by (simp_all add: demo_measurement_def measurement_order_def parameter_order_def parse_u64_def is_digit_def undecimal_def)
  have "(''kameo'' :: string) \<le> ''ractor''" "(''ractor'' :: string) \<le> ''tellus''" "(''kameo'' :: string) \<le> ''tellus''"
    by (simp_all add: less_char_def)
  then have "sort_key measurement_order
     [demo_measurement ''tell'' (Some ''1'') ''kameo'', demo_measurement ''tell'' (Some ''01'') ''ractor'',
      demo_measurement ''tell'' (Some ''1'') ''tellus''] =
     [demo_measurement ''tell'' (Some ''1'') ''kameo'', demo_measurement ''tell'' (Some ''01'') ''ractor'',
      demo_measurement ''tell'' (Some ''1'') ''tellus'']"
    by (simp add: order)
  then show ?thesis by (simp add: sections_of_def m_key_def demo_measurement_def)
qed

section \<open>Properties\<close>

text \<open>
  C28: text from outside never becomes markup: the tags of the page, that is its angle brackets in
  their order, depend only on how many sections there are and how many rows each has, whatever the
  tag, the metadata and the names of groups, parameters and frameworks are.
\<close>

theorem report_no_injection:
  assumes "\<forall>n x. markup (num_fixed F n x) = []" and "map length (sections_of ms) = map length (sections_of ms')"
  shows "markup (render_html F md ms) = markup (render_html F md' ms')"
proof -
  have cores: "markup (case c of Some n \<Rightarrow> decimal n | None \<Rightarrow> ''unknown'') = []" for c
    by (cases c) (simp_all add: markup_decimal markup_unknown)
  show ?thesis
    unfolding render_html_def Let_def markup_append markup_escape cores markup_sections [OF assms] ..
qed

theorem report_no_injection_witness:
  "let ms = [demo_measurement ''<script>'' (Some ''9'') ''<b>'']; ms' = [demo_measurement ''tell'' None ''tellus'']
   in (\<forall>n x. markup (num_fixed demo_numbers n x) = []) \<and> map length (sections_of ms) = map length (sections_of ms') \<and>
     markup (render_html demo_numbers (demo_metadata ''</title>'') ms) = markup (render_html demo_numbers (demo_metadata ''v1'') ms')"
proof -
  have "\<forall>n x. markup (num_fixed demo_numbers n x) = []" by (simp add: demo_numbers_def markup_decimal)
  moreover have "map length (sections_of [a]) = map length (sections_of [b])" for a b :: "int measurement"
    by (simp add: sections_of_def)
  ultimately show ?thesis using report_no_injection unfolding Let_def by blast
qed

text \<open>
  C27: the report has one section per benchmark: it lists all measurements, each section has those of
  one group and parameter in the order of the frameworks, no group and parameter has two sections,
  and sections are in the order of groups and parameters, numbers by value. This needs that no
  number is spelled in two ways, since the order compares values and the sections compare text.
\<close>

theorem one_section_per_benchmark:
  assumes "\<forall>a \<in> set ms. \<forall>b \<in> set ms. parameter_order a = parameter_order b \<longrightarrow> m_parameter a = m_parameter b"
  shows "let secs = sections_of (sort_key measurement_order ms) in
    mset (concat secs) = mset ms \<and> distinct (map (m_key \<circ> hd) secs) \<and>
    (\<forall>c \<in> set secs. c \<noteq> [] \<and> (\<forall>m \<in> set c. m_key m = m_key (hd c)) \<and> sorted (map m_framework c)) \<and>
    sorted_wrt (<) (map ((\<lambda>m. (m_group m, parameter_order m)) \<circ> hd) secs)"
proof -
  let ?ms = "sort_key measurement_order ms" and ?f = "\<lambda>m. (m_group m, parameter_order m)"
  let ?secs = "sections_of ?ms"
  have same: "parameter_order a = parameter_order b" if "m_parameter a = m_parameter b" for a b :: "'a measurement"
    using that by (simp add: parameter_order_def)
  have key: "m_key a = m_key b \<longleftrightarrow> ?f a = ?f b" if "a \<in> set ms" "b \<in> set ms" for a b
  proof -
    have "m_parameter a = m_parameter b \<longleftrightarrow> parameter_order a = parameter_order b" using assms that same [of a b] by blast
    then show ?thesis by (simp add: m_key_def)
  qed
  have strict: "sorted_wrt (<) (map (?f \<circ> hd) ?secs)"
    unfolding sections_of_def using key by (intro chunk_by_heads group_order) auto
  have mem: "set c \<subseteq> set ms" "c \<noteq> []" if "c \<in> set ?secs" for c
  proof -
    have "concat ?secs = ?ms" by (simp add: sections_of_def)
    moreover have "set c \<subseteq> set (concat ?secs)" using that by auto
    ultimately show "set c \<subseteq> set ms" by simp
    show "c \<noteq> []" using that chunk_by_nonempty unfolding sections_of_def by metis
  qed
  have keys: "m_key m = m_key (hd c)" if "c \<in> set ?secs" "m \<in> set c" for c m
    using chunk_by_same that unfolding sections_of_def by metis
  have "sorted (map m_framework c)" if c: "c \<in> set ?secs" for c
  proof -
    have "sorted (concat (map (map measurement_order) ?secs))"
      unfolding sections_of_def map_concat [symmetric] chunk_by_concat by simp
    then have "sorted (map measurement_order c)" using c by (auto intro: sorted_parts)
    moreover have "m_group m = m_group (hd c) \<and> parameter_order m = parameter_order (hd c)" if "m \<in> set c" for m
      using keys [OF c that] same [of m "hd c"] by (simp add: m_key_def)
    ultimately show ?thesis
      by (auto simp: sorted_iff_nth_mono measurement_order_def less_eq_prod_def)
  qed
  moreover have "distinct (map (m_key \<circ> hd) ?secs)"
  proof -
    have "distinct (map (?f \<circ> hd) ?secs)" using strict by (simp add: strict_sorted_iff)
    moreover have "hd c \<in> set ms" if "c \<in> set ?secs" for c using mem [OF that] by auto
    ultimately show ?thesis using key by (auto simp: distinct_map inj_on_def)
  qed
  moreover have "mset (concat ?secs) = mset ms" by (simp add: sections_of_def)
  ultimately show ?thesis using strict keys mem(2) unfolding Let_def by blast
qed

theorem one_section_per_benchmark_witness:
  "let ms = [demo_measurement ''tell'' (Some ''10'') ''tellus'', demo_measurement ''tell'' (Some ''9'') ''kameo'',
       demo_measurement ''tell'' (Some ''9'') ''tellus'', demo_measurement ''ask'' None ''ractor''];
     secs = sections_of (sort_key measurement_order ms)
   in (\<forall>a \<in> set ms. \<forall>b \<in> set ms. parameter_order a = parameter_order b \<longrightarrow> m_parameter a = m_parameter b) \<and>
     mset (concat secs) = mset ms \<and> distinct (map (m_key \<circ> hd) secs)"
proof -
  let ?ms = "[demo_measurement ''tell'' (Some ''10'') ''tellus'', demo_measurement ''tell'' (Some ''9'') ''kameo'',
       demo_measurement ''tell'' (Some ''9'') ''tellus'', demo_measurement ''ask'' None ''ractor'']"
  have "\<forall>a \<in> set ?ms. \<forall>b \<in> set ?ms. parameter_order a = parameter_order b \<longrightarrow> m_parameter a = m_parameter b"
    by (simp add: demo_measurement_def parameter_order_def parse_u64_def is_digit_def undecimal_def)
  with one_section_per_benchmark [OF this] show ?thesis unfolding Let_def by blast
qed

end
