(* ===== verification/EventGuarantees.thy ===== *)
theory EventGuarantees
  imports EventExamples
begin

text \<open>
  The guarantees of \<^verbatim>\<open>docs/persistence.md\<close>, for every storage that keeps the contract of the store
  traits and every actor that keeps the obligations of its trait. The witnesses run the counter of
  the examples on the in-memory store.
\<close>

section \<open>Running an entity\<close>

text \<open>A schedule of spawns and polls, for a stream that is kept short.\<close>

datatype 'm es_action = SpawnInc nat | PollInc nat "'m es_obs"

fun es_act ::
  "('m, 's, 'ev, 'sn, 'e, 'o) event_sourced \<Rightarrow> ('st, 'x, 'y, 'ev, 'sn) wiring \<Rightarrow> persistence_id
     \<Rightarrow> ('st \<Rightarrow> persistence_id \<Rightarrow> encoded_event list) \<Rightarrow> 'm es_action
     \<Rightarrow> ('st, 'm, 's, 'ev, 'o) es_world \<Rightarrow> ('st, 'm, 's, 'ev, 'o) es_world option" where
  "es_act A P pid stream (SpawnInc i) w =
     (case incarnations w i of
        None \<Rightarrow> Some (w\<lparr>incarnations := (incarnations w)(i \<mapsto> es_spawn actor_config_default)\<rparr>)
      | Some _ \<Rightarrow> None)"
| "es_act A P pid stream (PollInc i ob) w =
     (case incarnations w i of
        None \<Rightarrow> None
      | Some t \<Rightarrow>
          if length (stream (es_storage w) pid) + to_be_appended (es_phase t) < 16
          then map_option (\<lambda>(t', log, st'). w\<lparr>es_storage := st', incarnations := (incarnations w)(i \<mapsto> t'),
                 es_log := es_log w @ map (Pair i) log\<rparr>) (es_step A P ob t (es_storage w))
          else None)"

fun es_run ::
  "('m, 's, 'ev, 'sn, 'e, 'o) event_sourced \<Rightarrow> ('st, 'x, 'y, 'ev, 'sn) wiring \<Rightarrow> persistence_id
     \<Rightarrow> ('st \<Rightarrow> persistence_id \<Rightarrow> encoded_event list) \<Rightarrow> 'm es_action list
     \<Rightarrow> ('st, 'm, 's, 'ev, 'o) es_world \<Rightarrow> ('st, 'm, 's, 'ev, 'o) es_world option" where
  "es_run A P pid stream [] w = Some w"
| "es_run A P pid stream (a # as) w =
     (case es_act A P pid stream a w of None \<Rightarrow> None | Some w' \<Rightarrow> es_run A P pid stream as w')"

lemma es_act_reach:
  assumes "es_reach A P pid stream st0 w" and "es_act A P pid stream a w = Some w'"
  shows "es_reach A P pid stream st0 w'"
proof (cases a)
  case (SpawnInc i)
  with assms show ?thesis by (auto intro: es_spawned split: option.splits)
next
  case (PollInc i ob)
  with assms(2) obtain t t' log st' where "incarnations w i = Some t"
    and "length (stream (es_storage w) pid) + to_be_appended (es_phase t) < 16"
    and "es_step A P ob t (es_storage w) = Some (t', log, st')"
    and "w' = w\<lparr>es_storage := st', incarnations := (incarnations w)(i \<mapsto> t'), es_log := es_log w @ map (Pair i) log\<rparr>"
    by (auto split: option.splits if_splits)
  with es_stepped [OF assms(1)] show ?thesis by simp
qed

lemma es_run_reach:
  "es_reach A P pid stream st0 w \<Longrightarrow> es_run A P pid stream as w = Some w' \<Longrightarrow> es_reach A P pid stream st0 w'"
  by (induction as arbitrary: w) (auto split: option.splits dest: es_act_reach)

text \<open>
  The counter, twice: the first incarnation recovers and counts to two; the second one recovers
  meanwhile at one, and its append, decided there, comes too late.
\<close>

definition idle :: "counter_command es_obs" where
  "idle = \<lparr>see_stop = None, see_incoming = None, see_now = 0, see_has_changed = Ok False,
           see_children_gone = True, see_slept = None\<rparr>"

definition increment :: "nat \<Rightarrow> counter_command es_obs" where
  "increment r = idle\<lparr>see_incoming := Some (Message (Increment r))\<rparr>"

definition counter_run :: "counter_command es_action list \<Rightarrow>
  (in_memory_store, counter_command, u64, increased, nat \<times> u64) es_world option" where
  "counter_run as = es_run (counter unit_codec) counter_wiring counter_pid in_memory_stream as (es_initial in_memory_default)"

definition first_count :: "counter_command es_action list" where
  "first_count = [SpawnInc 0, PollInc 0 idle, PollInc 0 idle, PollInc 0 (increment 7), PollInc 0 idle]"

definition race :: "counter_command es_action list" where
  "race = first_count @ [SpawnInc 1, PollInc 1 idle, PollInc 1 idle,
     PollInc 0 (increment 8), PollInc 1 (increment 9)]"

lemma counter_run_reach:
  "counter_run as = Some w \<Longrightarrow>
     es_reach (counter unit_codec) counter_wiring counter_pid in_memory_stream in_memory_default w"
  unfolding counter_run_def by (rule es_run_reach [OF es_start])

text \<open>What the schedules lead to; a phase may hold continuations, so it is observed by parts.\<close>

fun up_at :: "('s, 'ev, 'o) es_phase \<Rightarrow> ('s \<times> seq_no) option" where
  "up_at (Up p s n up_since) = Some (s, n)"
| "up_at _ = None"

fun appending_at :: "('s, 'ev, 'o) es_phase \<Rightarrow> ('s \<times> seq_no \<times> encoded_event list) option" where
  "appending_at (Appending p s n up_since eff encoded) = Some (s, n, encoded)"
| "appending_at _ = None"

lemma up_atD: "up_at ph = Some (s, n) \<Longrightarrow> \<exists>p up_since. ph = Up p s n up_since"
  by (cases ph) auto

lemma appending_atD:
  "appending_at ph = Some (s, n, encoded) \<Longrightarrow> \<exists>p up_since eff. ph = Appending p s n up_since eff encoded"
  by (cases ph) auto

lemma in_memory_default_reflects:
  "snapshot_reflects A view fd seed es (in_memory_snapshot in_memory_default pid)"
  by (simp add: snapshot_reflects_def in_memory_snapshot_def in_memory_default_def decoded_snapshot_def)

lemma counter_storage:
  "storage (event_store counter_wiring) in_memory_stream in_memory_inv
     (snapshot_store counter_wiring) in_memory_snapshot"
  by (rule counter_entity.storage_axioms)

lemmas durable_entityI = durable_entity.intro [OF _ durable_entity_axioms.intro]

lemmas counter_facts = counter_storage counter_identity counter_entity.laws

lemma counted_once:
  "\<exists>w t p up_since. counter_run first_count = Some w \<and> incarnations w 0 = Some t \<and>
     es_phase t = Up p 1 (SeqNo 1) up_since \<and> (0, Acted (SeqNo 1) [Increased] (7, 1)) \<in> set (es_log w)"
proof -
  have "map_option (\<lambda>w. (map_option (\<lambda>t. up_at (es_phase t)) (incarnations w 0),
      (0, Acted (SeqNo 1) [Increased] (7, 1)) \<in> set (es_log w))) (counter_run first_count)
    = Some (Some (Some (1, SeqNo 1)), True)"
    by code_simp
  then show ?thesis by (auto dest: up_atD)
qed

section \<open>Guarantees under concurrency and crashes\<close>

text \<open>
  C3: The state of a live incarnation is the replay of its stream. Whatever incarnations of the
  entity run concurrently, crash, restart, load, save and discard snapshots, and whatever other
  entities write: when an incarnation that expects the next event at \<open>n\<close> waits for a command, its
  state's durable part is the fold, from the seed, of exactly the first \<open>n\<close> events of the durable
  stream.
\<close>

theorem live_state_is_replayed:
  assumes "storage (event_store P) stream ok (snapshot_store P) snap"
    and "es_persistence_id A = Some pid" and "durable A (codec P) view fd seed"
    and "es_reach A P pid stream st0 w" and "ok st0"
    and "snapshot_reflects A view fd seed (stream st0 pid) (snap st0 pid)"
    and "incarnations w i = Some t" and "es_phase t = Up p s n up_since"
  shows "p = pid \<and> position n \<le> length (stream (es_storage w) pid) \<and>
    (\<exists>evs. decode_stream (event_type A) (take (position n) (stream (es_storage w) pid)) = Some evs \<and>
           view s = foldl fd seed evs)"
  using durable_entity.es_reach_inv [OF durable_entityI [OF assms(1-3)] assms(4-6)] assms(7,8)
  by (force simp: es_inv_def reflects_def)

theorem live_state_is_replayed_witness:
  "\<exists>w. counter_run first_count = Some w \<and>
     (\<exists>evs. decode_stream (event_type (counter unit_codec))
              (take (position (SeqNo 1)) (in_memory_stream (es_storage w) counter_pid)) = Some evs \<and>
            (1 :: u64) = foldl count_event 0 evs)"
proof -
  obtain w t p up_since where w: "counter_run first_count = Some w" "incarnations w 0 = Some t"
    "es_phase t = Up p 1 (SeqNo 1) up_since"
    using counted_once by blast
  from live_state_is_replayed [OF counter_facts counter_run_reach [OF w(1)] in_memory_inv_default
      in_memory_default_reflects w(2,3)] w(1)
  show ?thesis by blast
qed

text \<open>
  C4: No lost update. When an incarnation's append succeeds, the stream ended exactly at the
  position the incarnation was at, the state it decided on reflected all of the durable events,
  including those of other incarnations, and the stream now holds the whole batch behind them.
\<close>

theorem append_decided_on_latest:
  assumes "storage (event_store P) stream ok (snapshot_store P) snap"
    and "es_persistence_id A = Some pid" and "durable A (codec P) view fd seed"
    and "es_reach A P pid stream st0 w" and "ok st0"
    and "snapshot_reflects A view fd seed (stream st0 pid) (snap st0 pid)"
    and "incarnations w i = Some t" and phase: "es_phase t = Appending p s n up_since eff encoded"
    and fits: "length (stream (es_storage w) pid) + length encoded < 2 ^ 64"
    and step: "es_step A P ob t (es_storage w) = Some (t', log, st')" and "Appended m evs \<in> set log"
  shows "m = n \<and> evs = effect_events eff \<and> position n = length (stream (es_storage w) pid) \<and>
    (\<exists>past. decode_stream (event_type A) (stream (es_storage w) pid) = Some past \<and>
       view s = foldl fd seed past \<and> decode_stream (event_type A) (stream st' pid) = Some (past @ evs))"
proof -
  note entity = durable_entityI [OF assms(1-3)]
  have inv: "ok (es_storage w)" and p: "p = pid"
    and refl: "reflects A view fd seed (stream (es_storage w) pid) n s"
    and enc: "encode_events (event_codec (codec P)) (event_type A) (effect_events eff) = Return encoded"
    using durable_entity.appending_world [OF entity assms(4-8)] by blast+
  have ap: "m = n \<and> evs = effect_events eff \<and> es_append (event_store P) pid n encoded (es_storage w) = (Return (), st')"
    using durable_entity.appended_step [OF entity step phase [unfolded p]] assms(11) by blast
  with durable_entity.append_latest [OF entity inv fits refl enc] show ?thesis by blast
qed

text \<open>The race has both incarnations about to append at position 1; the first one gets it.\<close>

lemma raced_append:
  "\<exists>w t0 p0 u0 e0 c0 t' log st'. counter_run race = Some w \<and> incarnations w 0 = Some t0 \<and>
     es_phase t0 = Appending p0 1 (SeqNo 1) u0 e0 c0 \<and> length c0 = 1 \<and>
     length (in_memory_stream (es_storage w) counter_pid) = 1 \<and>
     es_step (counter unit_codec) counter_wiring idle t0 (es_storage w) = Some (t', log, st') \<and>
     Appended (SeqNo 1) [Increased] \<in> set log"
proof -
  have "map_option (\<lambda>w. map_option (\<lambda>t. (map_option (\<lambda>(s, n, c). (s, n, length c)) (appending_at (es_phase t)),
        length (in_memory_stream (es_storage w) counter_pid),
        map_option (\<lambda>(t', log, st'). Appended (SeqNo 1) [Increased] \<in> set log)
          (es_step (counter unit_codec) counter_wiring idle t (es_storage w))))
      (incarnations w 0)) (counter_run race)
    = Some (Some (Some (1, SeqNo 1, 1), 1, Some True))"
    by code_simp
  then show ?thesis by (fastforce dest!: appending_atD)
qed

theorem append_decided_on_latest_witness:
  "\<exists>w past. counter_run race = Some w \<and>
     decode_stream (event_type (counter unit_codec)) (in_memory_stream (es_storage w) counter_pid) = Some past \<and>
     (1 :: u64) = foldl count_event 0 past"
proof -
  obtain w t p u e c t' log st' where w: "counter_run race = Some w" "incarnations w 0 = Some t"
      "es_phase t = Appending p 1 (SeqNo 1) u e c"
    and fits: "length (in_memory_stream (es_storage w) counter_pid) + length c < 2 ^ 64"
    and step: "es_step (counter unit_codec) counter_wiring idle t (es_storage w) = Some (t', log, st')"
      "Appended (SeqNo 1) [Increased] \<in> set log"
    using raced_append by fastforce
  from append_decided_on_latest [OF counter_facts counter_run_reach [OF w(1)] in_memory_inv_default
      in_memory_default_reflects w(2,3) fits step] w(1)
  show ?thesis by blast
qed

text \<open>
  C11: A stale incarnation is fenced off from the stream. An incarnation whose position is not the end
  of the stream, because another one wrote meanwhile, cannot append: its attempt changes no stream,
  runs none of the effect's continuations, and ends in a failure that its supervision strategy
  decides about. An effect without events makes no attempt, so it is not fenced.
\<close>

theorem stale_incarnation_is_fenced:
  assumes "storage (event_store P) stream ok (snapshot_store P) snap"
    and "es_persistence_id A = Some pid" and "durable A (codec P) view fd seed"
    and "es_reach A P pid stream st0 w" and "ok st0"
    and "snapshot_reflects A view fd seed (stream st0 pid) (snap st0 pid)"
    and "incarnations w i = Some t" and phase: "es_phase t = Appending p s n up_since eff encoded"
    and fits: "length (stream (es_storage w) pid) + length encoded < 2 ^ 64"
    and step: "es_step A P ob t (es_storage w) = Some (t', log, st')"
    and stale: "position n \<noteq> length (stream (es_storage w) pid)"
  shows "es_phase t' = EsFailed (Some up_since) \<and> log = [] \<and> stream st' = stream (es_storage w)"
proof -
  note entity = durable_entityI [OF assms(1-3)]
  have "ok (es_storage w)" and p: "p = pid"
    using durable_entity.appending_world [OF entity assms(4-8)] by blast+
  from durable_entity.stale_step [OF entity step this(1) fits phase [unfolded p] stale]
  show ?thesis .
qed

lemma raced_loser:
  "\<exists>w t p u e c t' log st'. counter_run (race @ [PollInc 0 idle]) = Some w \<and> incarnations w 1 = Some t \<and>
     es_phase t = Appending p 1 (SeqNo 1) u e c \<and> length c = 1 \<and>
     length (in_memory_stream (es_storage w) counter_pid) = 2 \<and>
     es_step (counter unit_codec) counter_wiring idle t (es_storage w) = Some (t', log, st')"
proof -
  have "map_option (\<lambda>w. map_option (\<lambda>t. (map_option (\<lambda>(s, n, c). (s, n, length c)) (appending_at (es_phase t)),
        length (in_memory_stream (es_storage w) counter_pid),
        map_option (\<lambda>_. ()) (es_step (counter unit_codec) counter_wiring idle t (es_storage w))))
      (incarnations w 1)) (counter_run (race @ [PollInc 0 idle]))
    = Some (Some (Some (1, SeqNo 1, 1), 2, Some ()))"
    by code_simp
  then show ?thesis by (fastforce dest!: appending_atD)
qed

theorem stale_incarnation_is_fenced_witness:
  "\<exists>w t t' log st'. counter_run (race @ [PollInc 0 idle]) = Some w \<and> incarnations w 1 = Some t \<and>
     es_step (counter unit_codec) counter_wiring idle t (es_storage w) = Some (t', log, st') \<and>
     log = [] \<and> in_memory_stream st' = in_memory_stream (es_storage w)"
proof -
  obtain w t p u e c t' log st' where w: "counter_run (race @ [PollInc 0 idle]) = Some w"
      "incarnations w 1 = Some t" "es_phase t = Appending p 1 (SeqNo 1) u e c"
    and fits: "length (in_memory_stream (es_storage w) counter_pid) + length c < 2 ^ 64"
    and step: "es_step (counter unit_codec) counter_wiring idle t (es_storage w) = Some (t', log, st')"
    and stale: "position (SeqNo 1) \<noteq> length (in_memory_stream (es_storage w) counter_pid)"
    using raced_loser by (fastforce simp: position_def)
  from stale_incarnation_is_fenced [OF counter_facts counter_run_reach [OF w(1)] in_memory_inv_default
      in_memory_default_reflects w(2,3) fits step stale] w(1,2) step
  show ?thesis by blast
qed

text \<open>
  C5: Continuations run behind durability. Every action a continuation of an effect ever took was
  taken after the effect's whole batch was durable, at the positions right before the one it ran
  at; and those events are in the stream in every later state, through crashes and restarts.
\<close>

theorem acted_after_durable:
  assumes "storage (event_store P) stream ok (snapshot_store P) snap"
    and "es_persistence_id A = Some pid" and "durable A (codec P) view fd seed"
    and "es_reach A P pid stream st0 w" and "ok st0"
    and "snapshot_reflects A view fd seed (stream st0 pid) (snap st0 pid)"
    and "(i, Acted n evs out) \<in> set (es_log w)"
  shows "position n \<le> length (stream (es_storage w) pid) \<and> length evs \<le> position n \<and>
    decode_stream (event_type A)
      (drop (position n - length evs) (take (position n) (stream (es_storage w) pid))) = Some evs"
  using durable_entity.es_reach_inv [OF durable_entityI [OF assms(1-3)] assms(4-6)] assms(7)
  by (force simp: es_inv_def committed_def)

theorem acted_after_durable_witness:
  "\<exists>w. counter_run first_count = Some w \<and>
     decode_stream (event_type (counter unit_codec)) (drop (position (SeqNo 1) - length [Increased])
       (take (position (SeqNo 1)) (in_memory_stream (es_storage w) counter_pid))) = Some [Increased]"
proof -
  obtain w where w: "counter_run first_count = Some w"
    "(0, Acted (SeqNo 1) [Increased] (7, 1)) \<in> set (es_log w)"
    using counted_once by blast
  from acted_after_durable [OF counter_facts counter_run_reach [OF w(1)] in_memory_inv_default
      in_memory_default_reflects w(2)] w(1)
  show ?thesis by blast
qed

text \<open>
  History is append-only: in every reachable state the events that were in the stream at the
  start are its beginning, unchanged.
\<close>

lemma history_is_append_only:
  assumes "storage (event_store P) stream ok (snapshot_store P) snap"
    and "es_persistence_id A = Some pid" and "durable A (codec P) view fd seed"
    and "es_reach A P pid stream st0 w" and "ok st0"
    and "snapshot_reflects A view fd seed (stream st0 pid) (snap st0 pid)"
  shows "prefix (stream st0 pid) (stream (es_storage w) pid) \<and> ok (es_storage w)"
  using durable_entity.es_reach_inv [OF durable_entityI [OF assms(1-3)] assms(4-6)] by blast

section \<open>Recovery and settling\<close>

text \<open>
  C14: Recovery ends. On every storage that keeps the contract, also where a load or a read fails
  or panics, \<^verbatim>\<open>recover\<close> returns: the replay loop takes finitely many pages, for every stream
  whose events have a sequence number each.
\<close>

theorem recover_returns:
  assumes "storage (event_store P) stream ok (snapshot_store P) snap"
    and "ok st" and "\<And>pid. length (stream st pid) < 2 ^ 64"
  shows "\<exists>r st'. recover A P st = Some (r, st')"
proof (cases "recover_begin A P st")
  case (Pair r st1)
  have st1: "ok st1 \<and> stream st1 = stream st"
    using Pair storage.load_stream [OF assms(1)] assms(2)
    by (auto simp: recover_begin_def split: option.splits prod.splits sum.splits)
  show ?thesis
  proof (cases r)
    case None
    with Pair show ?thesis by (simp add: recover_def)
  next
    case (Some x)
    obtain pid s n where x: "x = (pid, s, n)" by (cases x)
    have "event_store_contract (event_store P) stream ok"
      using assms(1) by (simp add: storage_def)
    from event_store_contract.replay_loop_returns [OF this refl, of st1 pid A s n] st1 assms(3)
    obtain r2 st2 where "replay_loop A P pid s n st1 = Some (r2, st2)" by auto
    with Pair Some x show ?thesis by (cases r2) (auto simp: recover_def)
  qed
qed

theorem recover_returns_witness:
  "\<exists>r st'. recover (counter unit_codec) counter_wiring in_memory_default = Some (r, st')"
  by (rule recover_returns [OF counter_storage])
    (simp_all add: in_memory_stream_def in_memory_events_def in_memory_default_def in_memory_inv_default
      [unfolded in_memory_default_def])

text \<open>
  C13: Replaying page by page is one fold over the whole stream. With no snapshot, or with one that
  is discarded because its manifest, its version or its payload does not decode, recovery on the
  in-memory store applies every event of the stream, in order and once, to the value of
  \<^verbatim>\<open>init\<close>, and resumes at the end of the stream, for any number of pages.
\<close>

theorem paged_replay_is_one_fold:
  assumes "event_store P = in_memory_event_store" and "snapshot_store P = in_memory_snapshot_store"
    and "es_persistence_id A = Some pid" and "in_memory_inv st"
    and "decoded_snapshot A (in_memory_snapshot st pid) = None" and "es_init A = Return s"
    and "decode_stream (event_type A) (in_memory_stream st pid) = Some evs"
    and "apply_events A s evs = Some s'"
  shows "recover A P st =
    Some (Some \<lparr>recovered_id = pid, recovered_state = s',
                recovered_next = SeqNo (of_nat (length (in_memory_stream st pid)))\<rparr>, st)"
  using recover_in_memory [OF assms(1-4), of s seq_no_zero evs s'] assms(5-8)
  by (simp add: recover_seed_def at_position_def)

theorem paged_replay_is_one_fold_witness:
  "\<exists>st. in_memory_stream st counter_pid \<noteq> [] \<and>
     recover (counter unit_codec) counter_wiring st =
       Some (Some \<lparr>recovered_id = counter_pid, recovered_state = 1,
         recovered_next = SeqNo (of_nat (length (in_memory_stream st counter_pid)))\<rparr>, st)"
proof -
  let ?st = "snd (in_memory_append counter_pid (SeqNo 0)
    [\<lparr>event_manifest = ''increased'', event_version = SchemaVersion 1, event_payload = [0xF6]\<rparr>] in_memory_default)"
  have ops: "event_store counter_wiring = in_memory_event_store"
    "snapshot_store counter_wiring = in_memory_snapshot_store"
    by (simp_all add: counter_wiring_def with_snapshot_store_def persistence_new_def)
  have inv: "in_memory_inv ?st"
    by (rule conjunct1 [OF in_memory_append_keeps [OF in_memory_inv_default _ prod.collapse [symmetric]]])
      (simp add: in_memory_stream_def in_memory_events_def in_memory_default_def)
  have facts: "in_memory_stream ?st counter_pid \<noteq> []"
    "decoded_snapshot (counter unit_codec) (in_memory_snapshot ?st counter_pid) = None"
    "decode_stream (event_type (counter unit_codec)) (in_memory_stream ?st counter_pid) = Some [Increased]"
    "apply_events (counter unit_codec) 0 [Increased] = Some 1"
    by code_simp+
  have "es_init (counter unit_codec) = Return 0" by (simp add: counter_def)
  from paged_replay_is_one_fold [OF ops counter_identity inv facts(2) this facts(3,4)] facts(1)
  show ?thesis by blast
qed

text \<open>
  C12: What is settled is recovered. If \<^verbatim>\<open>settle\<close> completes at the end of the stream, with or
  without events and with or without a snapshot, then a recovery from the resulting in-memory
  store succeeds and yields the position and the durable state that \<^verbatim>\<open>settle\<close> returned.
\<close>

theorem settled_is_recovered:
  assumes "event_store P = in_memory_event_store" and "snapshot_store P = in_memory_snapshot_store"
    and "es_persistence_id A = Some pid" and "durable A (codec P) view fd seed"
    and total: "es_init A = Return s0"
      "\<And>past ev rest s. decode_stream (event_type A) (in_memory_stream st' pid) = Some (past @ ev # rest) \<Longrightarrow>
         view s = foldl fd seed past \<Longrightarrow> es_apply A s ev \<noteq> None"
      "\<And>loaded sn n. decoded_snapshot A loaded = Some (sn, n) \<Longrightarrow> \<exists>s. init_from_snapshot A sn = Return s"
    and "in_memory_inv st" and "length (in_memory_stream st pid) + length (effect_events eff) < 2 ^ 64"
    and "reflects A view fd seed (in_memory_stream st pid) n s"
    and "position n = length (in_memory_stream st pid)"
    and "snapshot_reflects A view fd seed (in_memory_stream st pid) (in_memory_snapshot st pid)"
    and settle: "settle A P pid s n eff st = (Some d, outs, st')"
  shows "\<exists>r. recover A P st' = Some (Some r, st') \<and> recovered_next r = settled_next d \<and>
    view (recovered_state r) = view (settled_state d)"
proof -
  have entity: "durable_entity P in_memory_stream in_memory_inv in_memory_snapshot A pid view fd seed"
    by (rule durable_entityI [OF _ assms(3,4)]) (simp add: assms(1,2) memory.storage_axioms)
  from durable_entity.settle_completed [OF entity settle assms(8-12)]
  have "in_memory_inv st'"
    "snapshot_reflects A view fd seed (in_memory_stream st' pid) (in_memory_snapshot st' pid)"
    "reflects A view fd seed (in_memory_stream st' pid) (settled_next d) (settled_state d)"
    "position (settled_next d) = length (in_memory_stream st' pid)"
    by blast+
  note found = recover_finds [OF entity assms(1,2) total(1,2) _ this]
  show ?thesis by (rule found) (auto intro: total(3))
qed

theorem settled_is_recovered_witness:
  "\<exists>d outs st' r. settle (counter unit_codec) counter_wiring counter_pid 0 (SeqNo 0) (persist Increased)
       in_memory_default = (Some d, outs, st') \<and>
     recover (counter unit_codec) counter_wiring st' = Some (Some r, st') \<and> recovered_state r = settled_state d"
proof -
  obtain d outs st' where settle: "settle (counter unit_codec) counter_wiring counter_pid 0 (SeqNo 0)
      (persist Increased) in_memory_default = (Some d, outs, st')"
    and str: "decode_stream (event_type (counter unit_codec)) (in_memory_stream st' counter_pid) = Some [Increased]"
  proof -
    have "(case settle (counter unit_codec) counter_wiring counter_pid 0 (SeqNo 0)
        (persist Increased) in_memory_default of (r, outs, st') \<Rightarrow> r \<noteq> None \<and>
        decode_stream (event_type (counter unit_codec)) (in_memory_stream st' counter_pid) = Some [Increased])"
      by code_simp
    then show thesis using that by (auto split: prod.splits)
  qed
  have ops: "event_store counter_wiring = in_memory_event_store"
    "snapshot_store counter_wiring = in_memory_snapshot_store"
    by (simp_all add: counter_wiring_def with_snapshot_store_def persistence_new_def)
  have applies: "decode_stream (event_type (counter unit_codec)) (in_memory_stream st' counter_pid) =
      Some (past @ ev # rest) \<Longrightarrow> s = foldl count_event 0 past \<Longrightarrow> es_apply (counter unit_codec) s ev \<noteq> None"
    for past ev rest s
    unfolding str by (cases past) (auto simp: counter_def checked_add_def)
  have nothing_decoded: "decoded_snapshot (counter unit_codec) loaded = Some (sn, n) \<Longrightarrow>
      \<exists>s. init_from_snapshot (counter unit_codec) sn = Return s" for loaded sn n
    by (auto simp: decoded_snapshot_def counter_def nothing_never_decodes split: option.splits call.splits)
  have empty: "in_memory_stream in_memory_default counter_pid = []"
    by (simp add: in_memory_stream_def in_memory_events_def in_memory_default_def)
  have "\<exists>r. recover (counter unit_codec) counter_wiring st' = Some (Some r, st') \<and>
      recovered_next r = settled_next d \<and> recovered_state r = settled_state d"
    by (rule settled_is_recovered [OF ops counter_identity counter_entity.laws _ applies nothing_decoded
          in_memory_inv_default _ _ _ in_memory_default_reflects settle])
      (simp_all add: empty counter_def persist_def persist_all_def reflects_def position_def)
  with settle show ?thesis by blast
qed

text \<open>
  C30: Settling is all or nothing, whatever fails. After \<^verbatim>\<open>settle\<close> the stream is either as it was,
  and then an effect with events did not complete and none of its continuations acted; or the
  incarnation was at its end and it has been extended by the whole encoded batch.
\<close>

theorem settle_is_all_or_nothing:
  assumes "storage (event_store P) stream ok (snapshot_store P) snap"
    and "es_persistence_id A = Some pid" and "durable A (codec P) view fd seed"
    and "ok st" and "length (stream st pid) + length (effect_events eff) < 2 ^ 64"
    and "reflects A view fd seed (stream st pid) n s"
    and "snapshot_reflects A view fd seed (stream st pid) (snap st pid)"
    and "settle A P pid s n eff st = (r, outs, st')"
  shows "stream st' pid = stream st pid \<and> (effect_events eff = [] \<or> r = None \<and> outs = []) \<or>
    (\<exists>encoded. encode_events (event_codec (codec P)) (event_type A) (effect_events eff) = Return encoded \<and>
       position n = length (stream st pid) \<and> stream st' pid = stream st pid @ encoded)"
  using durable_entity.settle_all_or_nothing [OF durable_entityI [OF assms(1-3)] assms(8,4-7)] assms(5)
  by auto

theorem settle_is_all_or_nothing_witness:
  "\<exists>r outs st'. settle (counter unit_codec) counter_wiring counter_pid 0 (SeqNo 0) (persist Increased)
       in_memory_default = (r, outs, st') \<and>
     (in_memory_stream st' counter_pid = [] \<and> r = None \<and> outs = [] \<or>
      length (in_memory_stream st' counter_pid) = 1)"
proof -
  obtain r outs st' where settle: "settle (counter unit_codec) counter_wiring counter_pid 0 (SeqNo 0)
      (persist Increased) in_memory_default = (r, outs, st')"
    by (metis prod_cases3)
  have empty: "in_memory_stream in_memory_default counter_pid = []"
    by (simp add: in_memory_stream_def in_memory_events_def in_memory_default_def)
  have "reflects (counter unit_codec) (\<lambda>s. s) count_event 0 (in_memory_stream in_memory_default counter_pid) (SeqNo 0) 0"
    by (simp add: empty reflects_def position_def)
  from settle_is_all_or_nothing [OF counter_facts in_memory_inv_default _ this in_memory_default_reflects settle]
  have "in_memory_stream st' counter_pid = [] \<and> r = None \<and> outs = [] \<or> length (in_memory_stream st' counter_pid) = 1"
    by (auto simp: empty persist_def persist_all_def dest!: sym [of _ "in_memory_stream st' counter_pid"])
  with settle show ?thesis by blast
qed

lemma replay_page_gapless:
  assumes "replay_page A s n page = Return (s', n')" and "position n + length page < 2 ^ 64"
  shows "map stored_seq_no page = map at_position [position n ..< position n + length page]"
  using assms
proof (induction page arbitrary: s n)
  case (Cons stored page)
  from Cons.prems(1) obtain s1 where seq: "stored_seq_no stored = n"
    and rest: "replay_page A s1 (seq_no_succ n) page = Return (s', n')"
    by (auto split: if_splits option.splits)
  have succ: "position (seq_no_succ n) = Suc (position n)"
    using Cons.prems(2) by (simp add: succ_at)
  have "map stored_seq_no page = map at_position [Suc (position n) ..< Suc (position n) + length page]"
    using Cons.IH [OF rest] Cons.prems(2) by (simp add: succ)
  moreover have "[position n ..< position n + length (stored # page)] =
      position n # [Suc (position n) ..< Suc (position n) + length page]"
    by (simp add: upt_conv_Cons del: upt_Suc)
  ultimately show ?case using seq by (simp del: upt_Suc)
qed simp

text \<open>
  C36: A page is replayed exactly if it continues the stream without a gap from the expected
  position on, all of its events decode and no application of one panics; the resulting state is
  the fold of the decoded events and the position is behind the last one. Any other page fails the
  recovery, it is never skipped over.
\<close>

theorem replay_page_accepts_iff:
  assumes "position n + length page < 2 ^ 64"
  shows "replay_page A s n page = Return (s', n') \<longleftrightarrow>
    map stored_seq_no page = map at_position [position n ..< position n + length page] \<and>
    n' = at_position (position n + length page) \<and>
    (\<exists>evs. decode_stream (event_type A) (map stored_payload page) = Some evs \<and> apply_events A s evs = Some s')"
proof
  assume replay: "replay_page A s n page = Return (s', n')"
  from replay_page_gapless [OF this assms] replay_page_decodes [OF this assms]
  show "map stored_seq_no page = map at_position [position n ..< position n + length page] \<and>
    n' = at_position (position n + length page) \<and>
    (\<exists>evs. decode_stream (event_type A) (map stored_payload page) = Some evs \<and> apply_events A s evs = Some s')"
    by (metis at_position_position)
next
  assume ok: "map stored_seq_no page = map at_position [position n ..< position n + length page] \<and>
    n' = at_position (position n + length page) \<and>
    (\<exists>evs. decode_stream (event_type A) (map stored_payload page) = Some evs \<and> apply_events A s evs = Some s')"
  have "stored_seq_no (page ! i) = at_position (position n + i)" if "i < length page" for i
    using arg_cong [OF conjunct1 [OF ok], of "\<lambda>xs. xs ! i"] that by simp
  with ok assms replay_page_complete show "replay_page A s n page = Return (s', n')" by metis
qed

theorem replay_page_accepts_iff_witness:
  "replay_page (counter unit_codec) 0 (SeqNo 5)
     [\<lparr>stored_seq_no = SeqNo 6, stored_payload =
        \<lparr>event_manifest = ''increased'', event_version = SchemaVersion 1, event_payload = [0xF6]\<rparr>\<rparr>]
   \<noteq> Return (1, SeqNo 6)"
  by (subst replay_page_accepts_iff) (simp_all add: position_def at_position_def)

end
