(* ===== verification/Host.thy ===== *)
theory Host
  imports Actor
begin

text \<open>
  \<^verbatim>\<open>tellus/src/host.rs\<close>: the actor that hosts entities under keys, spawns them on demand and
  passivates idle ones. Its methods are functions on its state that also return what they did
  through the context and the references, in order, as a list of effects. What they learn from
  outside is an observation: the clock, the ID of the actor they spawn (one call spawns at most
  one), and whether the n-th conditional send to an actor is accepted. The hash maps are
  association lists; the order in which a sweep visits the entries is the order of the list.
\<close>

section \<open>Configuration\<close>

record host_config =
  idle_timeout :: "duration option"
  config_buffer :: usize

datatype invalid_host_config = ZeroIdleTimeout

definition host_config_new :: "usize \<Rightarrow> host_config" where
  "host_config_new buffer = \<lparr>idle_timeout = None, config_buffer = buffer\<rparr>"

definition with_idle_timeout :: "duration \<Rightarrow> host_config \<Rightarrow> (host_config, invalid_host_config) result" where
  "with_idle_timeout timeout c =
     (if timeout = 0 then Err ZeroIdleTimeout else Ok (c\<lparr>idle_timeout := Some timeout\<rparr>))"

definition host_config_default :: host_config where
  "host_config_default = host_config_new 64"

section \<open>State\<close>

datatype 'm entry = Live actor_id instant | Stopping actor_id "'m list"

record ('k, 'm) host_state =
  entries :: "('k \<times> 'm entry) list"
  keys :: "(actor_id \<times> 'k) list"
  ticker :: "actor_id option"

definition host_state_default :: "('k, 'm) host_state" where
  "host_state_default = \<lparr>entries = [], keys = [], ticker = None\<rparr>"

record 'm host =
  host_idle :: "duration option"
  host_buffer :: usize
  host_passivate :: 'm

definition host_new :: "host_config \<Rightarrow> 'm \<Rightarrow> 'm host" where
  "host_new c passivate =
     \<lparr>host_idle = idle_timeout c, host_buffer = config_buffer c, host_passivate = passivate\<rparr>"

definition entry_live :: "actor_id \<Rightarrow> instant \<Rightarrow> 'm entry" where
  "entry_live a now = Live a now"

fun entry_actor :: "'m entry \<Rightarrow> actor_id" where
  "entry_actor (Live a _) = a"
| "entry_actor (Stopping a _) = a"

fun entry_buffered :: "'m entry \<Rightarrow> 'm list" where
  "entry_buffered (Live _ _) = []"
| "entry_buffered (Stopping _ ms) = ms"

record host_obs =
  host_now :: instant
  host_fresh :: actor_id
  host_accepts :: "actor_id \<Rightarrow> nat \<Rightarrow> bool"

text \<open>
  The effects, in the order they happen; the key of a message is noted beside the incarnation it
  goes to.
\<close>

datatype ('k, 'm) host_effect =
    SpawnedEntity 'k actor_id
  | SpawnedTicker duration actor_id
  | WatchedActor actor_id
  | ToldEntity 'k actor_id 'm
  | ToldForced 'k actor_id 'm
  | AskedToStop actor_id 'm bool
  | BufferFull 'k actor_id 'm
  | EntityTerminated actor_id 'm

section \<open>Operations\<close>

text \<open>\<^verbatim>\<open>remember\<close>; \<^const>\<open>None\<close> is its failing debug assertion.\<close>

definition remember :: "actor_id \<Rightarrow> 'k \<Rightarrow> (actor_id \<times> 'k) list \<Rightarrow> (actor_id \<times> 'k) list option" where
  "remember a k ks = (case map_of ks a of None \<Rightarrow> Some (AList.update a k ks) | Some _ \<Rightarrow> None)"

definition spawn_entity :: "host_obs \<Rightarrow> 'k \<Rightarrow> actor_id \<times> ('k, 'm) host_effect list" where
  "spawn_entity ob k = (host_fresh ob, [SpawnedEntity k (host_fresh ob), WatchedActor (host_fresh ob)])"

definition route ::
  "'m host \<Rightarrow> host_obs \<Rightarrow> 'k \<Rightarrow> 'm \<Rightarrow> ('k, 'm) host_state
     \<Rightarrow> (('k, 'm) host_state \<times> ('k, 'm) host_effect list) option" where
  "route H ob k m st =
     (case map_of (entries st) k of
        Some (Live a last_message) \<Rightarrow>
          Some (st\<lparr>entries := AList.update k (Live a (host_now ob)) (entries st)\<rparr>, [ToldEntity k a m])
      | Some (Stopping a buffered) \<Rightarrow>
          (if length buffered < unat (host_buffer H)
           then Some (st\<lparr>entries := AList.update k (Stopping a (buffered @ [m])) (entries st)\<rparr>, [])
           else Some (st, [BufferFull k a m]))
      | None \<Rightarrow>
          (case spawn_entity ob k of (a, did) \<Rightarrow>
             (case remember a k (keys st) of
                None \<Rightarrow> None
              | Some ks \<Rightarrow>
                  Some (st\<lparr>entries := AList.update k (entry_live a (host_now ob)) (entries st), keys := ks\<rparr>,
                        did @ [ToldEntity k a m]))))"

text \<open>The sweep: an idle entity that takes the passivation message is stopping from then on.\<close>

fun passivate_entry :: "'m host \<Rightarrow> host_obs \<Rightarrow> duration \<Rightarrow> 'm entry \<Rightarrow> 'm entry \<times> ('k, 'm) host_effect list" where
  "passivate_entry H ob timeout (Stopping a buffered) = (Stopping a buffered, [])"
| "passivate_entry H ob timeout (Live a last_message) =
     (if elapsed (host_now ob) last_message < timeout then (Live a last_message, [])
      else if host_accepts ob a 0
      then (Stopping a [], [AskedToStop a (host_passivate H) True])
      else (Live a last_message, [AskedToStop a (host_passivate H) False]))"

definition passivate_idle ::
  "'m host \<Rightarrow> host_obs \<Rightarrow> ('k, 'm) host_state \<Rightarrow> ('k, 'm) host_state \<times> ('k, 'm) host_effect list" where
  "passivate_idle H ob st =
     (case host_idle H of
        None \<Rightarrow> (st, [])
      | Some timeout \<Rightarrow>
          (st\<lparr>entries := map (\<lambda>(k, e). (k, fst (passivate_entry H ob timeout e :: 'm entry \<times> ('k, 'm) host_effect list)))
                          (entries st)\<rparr>,
           concat (map (\<lambda>(k, e). snd (passivate_entry H ob timeout e)) (entries st))))"

definition tick_later ::
  "'m host \<Rightarrow> host_obs \<Rightarrow> ('k, 'm) host_state \<Rightarrow> ('k, 'm) host_state \<times> ('k, 'm) host_effect list" where
  "tick_later H ob st =
     (case host_idle H of
        None \<Rightarrow> (st\<lparr>ticker := None\<rparr>, [])
      | Some timeout \<Rightarrow>
          (st\<lparr>ticker := Some (host_fresh ob)\<rparr>,
           [SpawnedTicker timeout (host_fresh ob), WatchedActor (host_fresh ob)]))"

definition deliver_buffered :: "host_obs \<Rightarrow> 'k \<Rightarrow> actor_id \<Rightarrow> 'm list \<Rightarrow> ('k, 'm) host_effect list" where
  "deliver_buffered ob k a buffered =
     concat (map (\<lambda>(n, m). ToldForced k a m # (if host_accepts ob a n then [] else [EntityTerminated a m]))
       (enumerate 0 buffered))"

definition host_terminated ::
  "'m host \<Rightarrow> host_obs \<Rightarrow> actor_id \<Rightarrow> ('k, 'm) host_state
     \<Rightarrow> (('k, 'm) host_state \<times> ('k, 'm) host_effect list) option" where
  "host_terminated H ob a st =
     (if ticker st = Some a
      then (case passivate_idle H ob st of (st1, did1) \<Rightarrow>
              (case tick_later H ob st1 of (st2, did2) \<Rightarrow> Some (st2, did1 @ did2)))
      else case map_of (keys st) a of
             None \<Rightarrow> Some (st, [])
           | Some k \<Rightarrow>
               (let removed = st\<lparr>keys := AList.delete a (keys st), entries := AList.delete k (entries st)\<rparr>
                in case map_of (entries st) k of
                     None \<Rightarrow> Some (removed, [])
                   | Some (Live _ _) \<Rightarrow> Some (removed, [])
                   | Some (Stopping _ buffered) \<Rightarrow>
                       (if buffered = [] then Some (removed, [])
                        else case spawn_entity ob k of (b, did) \<Rightarrow>
                               (case remember b k (keys removed) of
                                  None \<Rightarrow> None
                                | Some ks \<Rightarrow>
                                    Some (removed\<lparr>entries := AList.update k (entry_live b (host_now ob)) (entries removed),
                                                  keys := ks\<rparr>,
                                          did @ deliver_buffered ob k b buffered)))))"

definition host_init :: "'m host \<Rightarrow> host_obs \<Rightarrow> ('k, 'm) host_state \<times> ('k, 'm) host_effect list" where
  "host_init H ob = tick_later H ob host_state_default"

definition host_receive ::
  "'m host \<Rightarrow> host_obs \<Rightarrow> ('k \<times> 'm) incoming \<Rightarrow> ('k, 'm) host_state
     \<Rightarrow> (('k, 'm) host_state control \<times> ('k, 'm) host_effect list) option" where
  "host_receive H ob incoming st =
     map_option (\<lambda>(st', did). (Continue st', did))
       (case incoming of
          Message (k, m) \<Rightarrow> route H ob k m st
        | Terminated a \<Rightarrow> host_terminated H ob a st)"

text \<open>The ticker: it stops on the first thing it receives, its own tick after the sleep.\<close>

datatype tick = Tick

definition ticker_receive :: "tick incoming \<Rightarrow> unit \<Rightarrow> unit control" where
  "ticker_receive incoming sleeping = Stop"

section \<open>Runs\<close>

text \<open>What happened to a host: what it was given and what it did, oldest first.\<close>

datatype ('k, 'm) host_event = Took "('k \<times> 'm) incoming" | Did "('k, 'm) host_effect"

fun spawned_by :: "('k, 'm) host_event \<Rightarrow> actor_id option" where
  "spawned_by (Did (SpawnedEntity _ a)) = Some a"
| "spawned_by (Did (SpawnedTicker _ a)) = Some a"
| "spawned_by _ = None"

definition spawned_ids :: "('k, 'm) host_event list \<Rightarrow> actor_id set" where
  "spawned_ids log = {a. \<exists>e \<in> set log. spawned_by e = Some a}"

inductive host_run ::
  "'m host \<Rightarrow> ('k, 'm) host_event list \<Rightarrow> ('k, 'm) host_state \<Rightarrow> bool" for H where
  host_started: "host_run H (map Did did) st" if "host_init H ob = (st, did)"
| host_received: "host_run H (log @ Took incoming # map Did did) st'"
    if "host_run H log st" and "host_fresh ob \<notin> spawned_ids log"
      and "host_receive H ob incoming st = Some (Continue st', did)"

section \<open>Views of a run\<close>

text \<open>
  The messages for a key: those routed to the host, those it admitted, that is did not refuse because
  of a full buffer, and those it told its incarnations. To tell is to send: an incarnation
  that has ended by itself, or whose own mailbox is full, loses the message as for every \<^verbatim>\<open>tell\<close>.
\<close>

fun routed_event :: "'k \<Rightarrow> ('k, 'm) host_event \<Rightarrow> 'm list" where
  "routed_event k (Took (Message (k', m))) = (if k' = k then [m] else [])"
| "routed_event k _ = []"

fun told_event :: "'k \<Rightarrow> ('k, 'm) host_event \<Rightarrow> 'm list" where
  "told_event k (Did (ToldEntity k' a m)) = (if k' = k then [m] else [])"
| "told_event k (Did (ToldForced k' a m)) = (if k' = k then [m] else [])"
| "told_event k _ = []"

fun full_event :: "'k \<Rightarrow> ('k, 'm) host_event \<Rightarrow> bool" where
  "full_event k (Did (BufferFull k' a m)) \<longleftrightarrow> k' = k"
| "full_event k _ \<longleftrightarrow> False"

fun tells_actor :: "actor_id \<Rightarrow> ('k, 'm) host_event \<Rightarrow> bool" where
  "tells_actor a (Did (ToldEntity k b m)) \<longleftrightarrow> b = a"
| "tells_actor a (Did (ToldForced k b m)) \<longleftrightarrow> b = a"
| "tells_actor a (Did (AskedToStop b m ok)) \<longleftrightarrow> b = a"
| "tells_actor a _ \<longleftrightarrow> False"

definition routed :: "'k \<Rightarrow> ('k, 'm) host_event list \<Rightarrow> 'm list" where
  "routed k log = concat (map (routed_event k) log)"

fun refused_first :: "'k \<Rightarrow> ('k, 'm) host_event list \<Rightarrow> bool" where
  "refused_first k (Did (BufferFull k' a m) # log) \<longleftrightarrow> k' = k"
| "refused_first k _ \<longleftrightarrow> False"

fun admitted :: "'k \<Rightarrow> ('k, 'm) host_event list \<Rightarrow> 'm list" where
  "admitted k [] = []"
| "admitted k (e # log) = (if refused_first k log then [] else routed_event k e) @ admitted k log"

definition told :: "'k \<Rightarrow> ('k, 'm) host_event list \<Rightarrow> 'm list" where
  "told k log = concat (map (told_event k) log)"

definition held :: "'k \<Rightarrow> ('k, 'm) host_state \<Rightarrow> 'm list" where
  "held k st = (case map_of (entries st) k of None \<Rightarrow> [] | Some e \<Rightarrow> entry_buffered e)"

end
