(* ===== verification/HostGuarantees.thy ===== *)
theory HostGuarantees
  imports Host
begin

text \<open>
  What a host promises: at most one incarnation per key, messages for a key told in order and none
  lost but the refused ones, and silence towards an entity that was asked to stop.
\<close>

section \<open>The cases of a step\<close>

lemma passivate_keys [simp]: "keys (fst (passivate_idle H ob st)) = keys st"
  "ticker (fst (passivate_idle H ob st)) = ticker st"
  by (auto simp: passivate_idle_def split: option.splits)

lemma host_receive_cases [consumes 1, case_names told buffered full spawned ticked unknown gone respawned]:
  assumes "host_receive H ob incoming st = Some (Continue st', did)"
  obtains
    k m a l where "incoming = Message (k, m)" "map_of (entries st) k = Some (Live a l)"
      "st' = st\<lparr>entries := AList.update k (Live a (host_now ob)) (entries st)\<rparr>" "did = [ToldEntity k a m]"
  | k m a b where "incoming = Message (k, m)" "map_of (entries st) k = Some (Stopping a b)"
      "length b < unat (host_buffer H)"
      "st' = st\<lparr>entries := AList.update k (Stopping a (b @ [m])) (entries st)\<rparr>" "did = []"
  | k m a b where "incoming = Message (k, m)" "map_of (entries st) k = Some (Stopping a b)"
      "st' = st" "did = [BufferFull k a m]"
  | k m where "incoming = Message (k, m)" "map_of (entries st) k = None" "map_of (keys st) (host_fresh ob) = None"
      "st' = st\<lparr>entries := AList.update k (Live (host_fresh ob) (host_now ob)) (entries st),
               keys := AList.update (host_fresh ob) k (keys st)\<rparr>"
      "did = [SpawnedEntity k (host_fresh ob), WatchedActor (host_fresh ob), ToldEntity k (host_fresh ob) m]"
  | a st1 did1 did2 where "incoming = Terminated a" "ticker st = Some a"
      "passivate_idle H ob st = (st1, did1)" "tick_later H ob st1 = (st', did2)" "did = did1 @ did2"
  | a where "incoming = Terminated a" "ticker st \<noteq> Some a" "map_of (keys st) a = None" "st' = st" "did = []"
  | a k where "incoming = Terminated a" "ticker st \<noteq> Some a" "map_of (keys st) a = Some k"
      "\<And>b. map_of (entries st) k = Some b \<Longrightarrow> entry_buffered b = []"
      "st' = st\<lparr>keys := AList.delete a (keys st), entries := AList.delete k (entries st)\<rparr>" "did = []"
  | a k b buf where "incoming = Terminated a" "ticker st \<noteq> Some a" "map_of (keys st) a = Some k"
      "map_of (entries st) k = Some (Stopping b buf)" "buf \<noteq> []"
      "map_of (AList.delete a (keys st)) (host_fresh ob) = None"
      "st' = st\<lparr>entries := AList.update k (Live (host_fresh ob) (host_now ob)) (AList.delete k (entries st)),
               keys := AList.update (host_fresh ob) k (AList.delete a (keys st))\<rparr>"
      "did = [SpawnedEntity k (host_fresh ob), WatchedActor (host_fresh ob)] @
         deliver_buffered ob k (host_fresh ob) buf"
proof (cases incoming)
  case (Message km)
  obtain k m where km: "km = (k, m)" by (cases km)
  show thesis
  proof (cases "map_of (entries st) k")
    case None
    then have "map_of (keys st) (host_fresh ob) = None \<and>
      st' = st\<lparr>entries := AList.update k (Live (host_fresh ob) (host_now ob)) (entries st),
               keys := AList.update (host_fresh ob) k (keys st)\<rparr> \<and>
      did = [SpawnedEntity k (host_fresh ob), WatchedActor (host_fresh ob), ToldEntity k (host_fresh ob) m]"
      using assms Message km
      by (auto simp: host_receive_def route_def spawn_entity_def remember_def entry_live_def split: option.splits)
    with that(4) Message km None show thesis by blast
  next
    case (Some e)
    show thesis
    proof (cases e)
      case (Live a l)
      then have "st' = st\<lparr>entries := AList.update k (Live a (host_now ob)) (entries st)\<rparr> \<and> did = [ToldEntity k a m]"
        using assms Message km Some by (simp add: host_receive_def route_def)
      with that(1) Message km Some Live show thesis by blast
    next
      case (Stopping a buf)
      show thesis
      proof (cases "length buf < unat (host_buffer H)")
        case True
        then have "st' = st\<lparr>entries := AList.update k (Stopping a (buf @ [m])) (entries st)\<rparr> \<and> did = []"
          using assms Message km Some Stopping by (simp add: host_receive_def route_def)
        with that(2) Message km Some Stopping True show thesis by blast
      next
        case False
        then have "st' = st \<and> did = [BufferFull k a m]"
          using assms Message km Some Stopping by (simp add: host_receive_def route_def)
        with that(3) Message km Some Stopping show thesis by blast
      qed
    qed
  qed
next
  case (Terminated a)
  consider (tick) "ticker st = Some a" | (unknown) "ticker st \<noteq> Some a" "map_of (keys st) a = None"
    | (known) k where "ticker st \<noteq> Some a" "map_of (keys st) a = Some k"
    by (cases "map_of (keys st) a") auto
  then show thesis
  proof cases
    case tick
    obtain st1 did1 where 1: "passivate_idle H ob st = (st1, did1)" by (cases "passivate_idle H ob st")
    obtain st2 did2 where 2: "tick_later H ob st1 = (st2, did2)" by (cases "tick_later H ob st1")
    have "st' = st2 \<and> did = did1 @ did2"
      using assms Terminated tick 1 2 by (simp add: host_receive_def host_terminated_def)
    with that(5) Terminated tick 1 2 show thesis by blast
  next
    case unknown
    then have "st' = st \<and> did = []" using assms Terminated by (simp add: host_receive_def host_terminated_def)
    with that(6) Terminated unknown show thesis by blast
  next
    case known
    show thesis
    proof (cases "\<exists>b buf. map_of (entries st) k = Some (Stopping b buf) \<and> buf \<noteq> []")
      case True
      then obtain b buf where buf: "map_of (entries st) k = Some (Stopping b buf)" "buf \<noteq> []" by blast
      then have "map_of (AList.delete a (keys st)) (host_fresh ob) = None \<and>
        st' = st\<lparr>entries := AList.update k (Live (host_fresh ob) (host_now ob)) (AList.delete k (entries st)),
                 keys := AList.update (host_fresh ob) k (AList.delete a (keys st))\<rparr> \<and>
        did = [SpawnedEntity k (host_fresh ob), WatchedActor (host_fresh ob)] @
           deliver_buffered ob k (host_fresh ob) buf"
        using assms Terminated known
        by (auto simp: host_receive_def host_terminated_def spawn_entity_def remember_def entry_live_def
            Let_def split: option.splits)
      then show thesis by (elim conjE) (rule that(8) [OF Terminated known buf])
    next
      case False
      then have no: "entry_buffered b = []" if "map_of (entries st) k = Some b" for b
        using that by (cases b) auto
      have "st' = st\<lparr>keys := AList.delete a (keys st), entries := AList.delete k (entries st)\<rparr> \<and> did = []"
        using assms Terminated known False
        by (cases "map_of (entries st) k")
          (auto simp: host_receive_def host_terminated_def Let_def split: entry.splits)
      with that(7) [OF Terminated known no] show thesis by blast
    qed
  qed
qed

section \<open>Invariants\<close>

text \<open>The two maps are inverse to each other: one incarnation per key, one key per incarnation.\<close>

definition unique :: "('k, 'm) host_state \<Rightarrow> bool" where
  "unique st \<longleftrightarrow> distinct (map fst (entries st)) \<and> distinct (map fst (keys st))"

definition linked :: "('k, 'm) host_state \<Rightarrow> bool" where
  "linked st \<longleftrightarrow>
     (\<forall>a k. map_of (keys st) a = Some k \<longleftrightarrow> (\<exists>e. map_of (entries st) k = Some e \<and> entry_actor e = a))"

definition known :: "('k, 'm) host_event list \<Rightarrow> ('k, 'm) host_state \<Rightarrow> bool" where
  "known log st \<longleftrightarrow>
     (\<forall>a k. map_of (keys st) a = Some k \<longrightarrow> a \<in> spawned_ids log \<and> ticker st \<noteq> Some a) \<and>
     (\<forall>a. ticker st = Some a \<longrightarrow> a \<in> spawned_ids log) \<and>
     (\<forall>a e. e \<in> set log \<longrightarrow> tells_actor a e \<longrightarrow> a \<in> spawned_ids log)"

definition bounded :: "'m host \<Rightarrow> ('k, 'm) host_state \<Rightarrow> bool" where
  "bounded H st \<longleftrightarrow>
     (\<forall>k e. map_of (entries st) k = Some e \<longrightarrow> length (entry_buffered e) \<le> unat (host_buffer H))"

definition ordered :: "('k, 'm) host_event list \<Rightarrow> ('k, 'm) host_state \<Rightarrow> bool" where
  "ordered log st \<longleftrightarrow>
     (\<forall>k. told k log @ held k st = admitted k log)"

fun asked :: "actor_id \<Rightarrow> ('k, 'm) host_event list \<Rightarrow> bool" where
  "asked a [] \<longleftrightarrow> False"
| "asked a (e # log) \<longleftrightarrow> (\<exists>m. e = Did (AskedToStop a m True)) \<or> asked a log"

text \<open>No message to an actor behind an accepted passivation message to it.\<close>

fun quiet_log :: "('k, 'm) host_event list \<Rightarrow> bool" where
  "quiet_log [] \<longleftrightarrow> True"
| "quiet_log (e # log) \<longleftrightarrow>
     (\<forall>a m. e = Did (AskedToStop a m True) \<longrightarrow> (\<forall>e' \<in> set log. \<not> tells_actor a e')) \<and> quiet_log log"

definition quiet :: "('k, 'm) host_event list \<Rightarrow> ('k, 'm) host_state \<Rightarrow> bool" where
  "quiet log st \<longleftrightarrow>
     quiet_log log \<and> (\<forall>k a l. map_of (entries st) k = Some (Live a l) \<longrightarrow> \<not> asked a log)"

lemma asked_iff: "asked a log \<longleftrightarrow> (\<exists>m. Did (AskedToStop a m True) \<in> set log)"
  by (induction log) auto

lemma quiet_log_append:
  "quiet_log (l1 @ l2) \<longleftrightarrow>
     quiet_log l1 \<and> quiet_log l2 \<and> (\<forall>a e. asked a l1 \<longrightarrow> e \<in> set l2 \<longrightarrow> \<not> tells_actor a e)"
  by (induction l1) auto

lemma spawned_ids_append: "spawned_ids (l1 @ l2) = spawned_ids l1 \<union> spawned_ids l2"
  by (auto simp: spawned_ids_def)

lemma spawned_ids_Nil [simp]: "spawned_ids [] = {}"
  by (simp add: spawned_ids_def)

lemma spawned_ids_Cons: "spawned_ids (e # l) = set_option (spawned_by e) \<union> spawned_ids l"
  by (auto simp: spawned_ids_def)

lemma told_append: "told k (l1 @ l2) = told k l1 @ told k l2"
  and routed_append: "routed k (l1 @ l2) = routed k l1 @ routed k l2"
  by (simp_all add: told_def routed_def)

lemma told_Cons: "told k (e # l) = told_event k e @ told k l"
  and routed_Cons: "routed k (e # l) = routed_event k e @ routed k l"
  and told_Nil: "told k [] = []" and routed_Nil: "routed k [] = []"
  by (simp_all add: told_def routed_def)

lemma admitted_append: "\<not> refused_first k l2 \<Longrightarrow> admitted k (l1 @ l2) = admitted k l1 @ admitted k l2"
proof (induction l1)
  case (Cons e l1)
  then have "refused_first k (l1 @ l2) = refused_first k l1"
    by (cases "(k, l1)" rule: refused_first.cases) auto
  with Cons show ?case by simp
qed simp

lemma admitted_step:
  "admitted k (log @ Took incoming # map Did did) =
     admitted k log @ (if refused_first k (map Did did) then [] else routed_event k (Took incoming))"
proof -
  have "admitted k (map Did ds) = []" for ds by (induction ds) auto
  then show ?thesis by (simp add: admitted_append)
qed

text \<open>Without a refusal, all is admitted.\<close>

lemma admitted_all: "\<forall>e \<in> set log. \<not> full_event k e \<Longrightarrow> admitted k log = routed k log"
proof (induction log)
  case (Cons e log)
  then have "\<not> refused_first k log" by (cases "(k, log)" rule: refused_first.cases) auto
  with Cons show ?case by (simp add: routed_Cons)
qed (simp add: routed_Nil)

lemmas log_simps = told_append routed_append told_Cons routed_Cons told_Nil routed_Nil
  spawned_ids_append spawned_ids_Cons quiet_log_append

lemmas alist_simps = update_conv' delete_conv'

section \<open>The sweep\<close>

definition swept :: "'m host \<Rightarrow> host_obs \<Rightarrow> duration \<Rightarrow> 'm entry \<Rightarrow> 'm entry" where
  "swept H ob timeout e = fst (passivate_entry H ob timeout e :: 'm entry \<times> (unit, 'm) host_effect list)"

lemma swept_fst: "fst (passivate_entry H ob timeout e :: 'm entry \<times> ('k, 'm) host_effect list) = swept H ob timeout e"
  by (cases e) (auto simp: swept_def)

lemma swept_actor [simp]: "entry_actor (swept H ob timeout e) = entry_actor e"
  by (cases e) (auto simp: swept_def)

lemma swept_buffered [simp]: "entry_buffered (swept H ob timeout e) = entry_buffered e"
  by (cases e) (auto simp: swept_def)

lemma swept_effects:
  assumes "x \<in> set (snd (passivate_entry H ob timeout e))"
  shows "\<exists>l ok. e = Live (entry_actor e) l \<and> x = AskedToStop (entry_actor e) (host_passivate H) ok \<and>
    (ok \<longrightarrow> swept H ob timeout e = Stopping (entry_actor e) [])"
  using assms by (cases e) (auto simp: swept_def split: if_splits)

lemma passivate_idle_None: "host_idle H = None \<Longrightarrow> passivate_idle H ob st = (st, [])"
  by (simp add: passivate_idle_def)

lemma passivate_idle_Some:
  assumes "host_idle H = Some timeout"
  shows "passivate_idle H ob st =
    (st\<lparr>entries := map (\<lambda>(k, e). (k, swept H ob timeout e)) (entries st)\<rparr>,
     concat (map (\<lambda>(k, e). snd (passivate_entry H ob timeout e)) (entries st)))"
  using assms by (simp add: passivate_idle_def swept_fst)

lemma map_of_swept: "map_of (map (\<lambda>(k, e). (k, f e)) al) k = map_option f (map_of al k)"
  by (simp add: map_of_map)

lemma fst_swept: "map fst (map (\<lambda>(k, e). (k, f e)) al) = map fst al"
  by (induction al) auto

lemma linked_swept:
  assumes "linked st" and "\<And>e. entry_actor (f e) = entry_actor e"
  shows "linked (st\<lparr>entries := map (\<lambda>(k, e). (k, f e)) (entries st)\<rparr>)"
  using assms by (auto simp: linked_def map_of_swept)

lemma linked_key:
  assumes "linked st" and "map_of (keys st) a = Some k" and "map_of (entries st) k' = Some e"
  shows "entry_actor e = a \<longleftrightarrow> k' = k"
  using assms unfolding linked_def by (metis option.inject)

lemma linked_actors:
  assumes "linked st" and "unique st"
  shows "distinct (map (entry_actor \<circ> snd) (entries st))"
proof -
  have "(k, e) = (k', e')" if "(k, e) \<in> set (entries st)" "(k', e') \<in> set (entries st)"
    "entry_actor e = entry_actor e'" for k e k' e'
  proof -
    have "map_of (entries st) k = Some e" "map_of (entries st) k' = Some e'"
      using assms(2) that(1,2) by (simp_all add: unique_def)
    then have "map_of (keys st) (entry_actor e) = Some k" "map_of (keys st) (entry_actor e) = Some k'"
      using assms(1) that(3) unfolding linked_def by metis+
    with \<open>map_of (entries st) k = Some e\<close> \<open>map_of (entries st) k' = Some e'\<close> show ?thesis by simp
  qed
  then have "inj_on (entry_actor \<circ> snd) (set (entries st))"
    by (auto intro!: inj_onI)
  moreover have "distinct (entries st)"
    using assms(2) by (auto simp: unique_def distinct_map)
  ultimately show ?thesis by (simp add: distinct_map)
qed

lemma sweep_quiet:
  assumes "distinct (map (entry_actor \<circ> snd) es)"
  shows "quiet_log (map Did (concat (map (\<lambda>(k, e). snd (passivate_entry H ob timeout e)) es)))"
  using assms
proof (induction es)
  case (Cons p es)
  obtain k e where p: "p = (k, e)" by (cases p)
  have "quiet_log (map Did (snd (passivate_entry H ob timeout e)))"
    by (cases e) auto
  moreover have "\<not> tells_actor a (Did x)"
    if "asked a (map Did (snd (passivate_entry H ob timeout e)))"
      and e': "(k', e') \<in> set es" and x: "x \<in> set (snd (passivate_entry H ob timeout e'))" for a x k' e'
  proof -
    have a: "a = entry_actor e" using that(1) by (auto simp: asked_iff dest: swept_effects)
    have "entry_actor e \<noteq> entry_actor e'" using Cons.prems p e' by force
    with swept_effects [OF x] a show ?thesis by auto
  qed
  ultimately show ?case using Cons p by (auto simp: quiet_log_append)
qed simp

section \<open>Preservation\<close>

lemma unique_step:
  assumes "unique st" and "host_receive H ob incoming st = Some (Continue st', did)"
  shows "unique st'"
  using assms(2)
proof (cases rule: host_receive_cases)
  case (ticked a st1 did1 did2)
  then show ?thesis using assms(1)
    by (cases "host_idle H")
      (auto simp: unique_def passivate_idle_None passivate_idle_Some tick_later_def fst_swept simp del: map_map)
qed (use assms(1) in \<open>auto simp: unique_def distinct_update distinct_delete\<close>)

lemma linked_step:
  assumes "linked st" and "host_receive H ob incoming st = Some (Continue st', did)"
  shows "linked st'"
  using assms(2)
proof (cases rule: host_receive_cases)
  case (told k m a l)
  then show ?thesis using assms(1) by (auto simp: linked_def alist_simps)
next
  case (buffered k m a b)
  then show ?thesis using assms(1) by (auto simp: linked_def alist_simps)
next
  case (spawned k m)
  have "entry_actor e \<noteq> host_fresh ob" if "map_of (entries st) k' = Some e" for k' e
    using assms(1) spawned(3) that unfolding linked_def by (metis option.distinct(1))
  with spawned assms(1) show ?thesis by (auto simp: linked_def alist_simps)
next
  case (ticked a st1 did1 did2)
  have "linked st1"
    using ticked(3) assms(1) linked_swept [OF assms(1)]
    by (cases "host_idle H") (auto simp: passivate_idle_None passivate_idle_Some)
  with ticked(4) show ?thesis by (auto simp: tick_later_def linked_def split: option.splits)
next
  case (gone a k)
  note key = linked_key [OF assms(1) gone(3)]
  show ?thesis
    unfolding linked_def
  proof (intro allI)
    fix x k'
    show "map_of (keys st') x = Some k' \<longleftrightarrow> (\<exists>e. map_of (entries st') k' = Some e \<and> entry_actor e = x)"
      using gone(3,5) assms(1) key [of k'] by (cases "k' = k"; cases "x = a") (auto simp: linked_def alist_simps)
  qed
next
  case (respawned a k b buf)
  have "b = a" using assms(1) respawned(3,4) by (auto simp: linked_def)
  have other: "entry_actor e \<noteq> host_fresh ob" if "map_of (entries st) k' = Some e" "k' \<noteq> k" for k' e
  proof
    assume "entry_actor e = host_fresh ob"
    with that(1) assms(1) have "map_of (keys st) (host_fresh ob) = Some k'" by (auto simp: linked_def)
    with respawned(3,6) that(2) show False by (auto simp: alist_simps split: if_splits)
  qed
  have keys: "map_of (keys st) x = Some k \<longleftrightarrow> x = a" for x
    using assms(1) respawned(3) by (auto simp: linked_def)
  show ?thesis
    unfolding linked_def
  proof (intro allI)
    fix x k'
    show "map_of (keys st') x = Some k' \<longleftrightarrow> (\<exists>e. map_of (entries st') k' = Some e \<and> entry_actor e = x)"
      using respawned(6,7) assms(1) keys [of x] other linked_key [OF assms(1) respawned(3), of k']
      by (cases "k' = k"; cases "x = a"; cases "x = host_fresh ob") (auto simp: linked_def alist_simps)
  qed
qed (use assms(1) in simp_all)

lemma bounded_step:
  assumes "bounded H st" and "host_receive H ob incoming st = Some (Continue st', did)"
  shows "bounded H st'"
  using assms(2)
proof (cases rule: host_receive_cases)
  case (ticked a st1 did1 did2)
  then show ?thesis using assms(1)
    by (cases "host_idle H")
      (auto simp: bounded_def passivate_idle_None passivate_idle_Some tick_later_def map_of_swept)
qed (use assms(1) in \<open>auto simp: bounded_def alist_simps split: if_splits\<close>)

text \<open>What the effects of a step tell, and whom they spawn.\<close>

lemma deliver_told: "told k' (map Did (deliver_buffered ob k a buf)) = (if k' = k then buf else [])"
proof -
  have "told k' (map Did (concat (map (\<lambda>(n, m). ToldForced k a m # (if host_accepts ob a n then [] else [EntityTerminated a m]))
      (enumerate i buf)))) = (if k' = k then buf else [])" for i
    by (induction buf arbitrary: i) (auto simp: told_append told_Cons told_Nil)
  then show ?thesis by (simp add: deliver_buffered_def)
qed

lemma deliver_effects:
  assumes "x \<in> set (deliver_buffered ob k a buf)"
  shows "\<exists>m. x = ToldForced k a m \<or> x = EntityTerminated a m"
  using assms by (auto simp: deliver_buffered_def split: if_splits)

lemma sweep_effects:
  assumes "passivate_idle H ob st = (st1, did1)" and "x \<in> set did1" and "unique st"
  obtains k a l m ok where "x = AskedToStop a m ok" "map_of (entries st) k = Some (Live a l)"
    "ok \<Longrightarrow> map_of (entries st1) k = Some (Stopping a [])"
proof -
  obtain timeout where idle: "host_idle H = Some timeout"
    using assms(1,2) by (cases "host_idle H") (auto simp: passivate_idle_None)
  then obtain k e where ke: "(k, e) \<in> set (entries st)" and x: "x \<in> set (snd (passivate_entry H ob timeout e))"
    using assms(1,2) by (auto simp: passivate_idle_Some)
  obtain l ok where e: "e = Live (entry_actor e) l" "x = AskedToStop (entry_actor e) (host_passivate H) ok"
      "ok \<longrightarrow> swept H ob timeout e = Stopping (entry_actor e) []"
    using swept_effects [OF x] by blast
  have here: "map_of (entries st) k = Some e" using ke assms(3) by (simp add: unique_def)
  then have "map_of (entries st1) k = Some (swept H ob timeout e)"
    using assms(1) idle by (auto simp: passivate_idle_Some map_of_swept)
  with that [of "entry_actor e" "host_passivate H" ok k l] e here show thesis by metis
qed

lemma tick_later_entries: "entries (fst (tick_later H ob st)) = entries st" "keys (fst (tick_later H ob st)) = keys st"
  by (auto simp: tick_later_def split: option.splits)

lemma step_targets:
  assumes "host_receive H ob incoming st = Some (Continue st', did)" and "unique st"
    and "x \<in> set did" and "tells_actor b (Did x)"
  shows "(\<exists>k l. map_of (entries st) k = Some (Live b l)) \<or>
    b = host_fresh ob \<and> (\<exists>k. SpawnedEntity k b \<in> set did)"
  using assms(1)
proof (cases rule: host_receive_cases)
  case (ticked a st1 did1 did2)
  have "x \<in> set did1"
    using ticked(4,5) assms(3,4) by (auto simp: tick_later_def split: option.splits)
  with sweep_effects [OF ticked(3) _ assms(2)] assms(4) show ?thesis
    by (metis tells_actor.simps(3))
next
  case (respawned a k b' buf)
  then have "b = host_fresh ob" using assms(3,4) by (auto dest!: deliver_effects)
  with respawned(8) show ?thesis by auto
qed (use assms(3,4) in auto)

lemma step_spawns:
  assumes "host_receive H ob incoming st = Some (Continue st', did)" and "unique st"
    and "a \<in> spawned_ids (map Did did)"
  shows "a = host_fresh ob"
  using assms(1)
proof (cases rule: host_receive_cases)
  case (ticked b st1 did1 did2)
  have "spawned_by (Did x) = None" if "x \<in> set did1" for x
    by (rule sweep_effects [OF ticked(3) that assms(2)]) simp
  then have "a \<notin> spawned_ids (map Did did1)" by (auto simp: spawned_ids_def)
  with ticked(4,5) assms(3) show ?thesis
    by (auto simp: spawned_ids_append spawned_ids_Cons tick_later_def split: option.splits)
next
  case (respawned b k b' buf)
  then show ?thesis using assms(3) by (auto simp: spawned_ids_def dest: deliver_effects)
qed (use assms(3) in \<open>auto simp: spawned_ids_Cons\<close>)

lemma step_live:
  assumes "host_receive H ob incoming st = Some (Continue st', did)"
    and "map_of (entries st') k = Some (Live a l)"
  shows "(\<exists>l'. map_of (entries st) k = Some (Live a l')) \<or> a = host_fresh ob"
  using assms(1)
proof (cases rule: host_receive_cases)
  case (ticked b st1 did1 did2)
  have "map_of (entries st1) k = Some (Live a l)"
    using ticked(4) assms(2) tick_later_entries(1) [of H ob st1] by simp
  then have "\<exists>e. map_of (entries st) k = Some e \<and> (e = Live a l \<or> (\<exists>t. swept H ob t e = Live a l))"
    using ticked(3) by (cases "host_idle H") (auto simp: passivate_idle_None passivate_idle_Some map_of_swept)
  moreover have "swept H ob t e = Live a l \<Longrightarrow> e = Live a l" for t e
    by (cases e) (auto simp: swept_def split: if_splits)
  ultimately show ?thesis by blast
qed (use assms(2) in \<open>auto simp: alist_simps split: if_splits\<close>)

lemma step_asked:
  assumes "host_receive H ob incoming st = Some (Continue st', did)" and "unique st" and "linked st"
    and "asked b (map Did did)"
  shows "(\<exists>k l. map_of (entries st) k = Some (Live b l)) \<and> (\<forall>k l. map_of (entries st') k \<noteq> Some (Live b l))"
  using assms(1)
proof (cases rule: host_receive_cases)
  case (ticked a st1 did1 did2)
  have "asked b (map Did did1)"
    using ticked(4,5) assms(4) by (auto simp: asked_iff tick_later_def split: option.splits)
  then obtain m where m: "AskedToStop b m True \<in> set did1" by (auto simp: asked_iff)
  obtain k l where k: "map_of (entries st) k = Some (Live b l)" "map_of (entries st1) k = Some (Stopping b [])"
    using sweep_effects [OF ticked(3) m assms(2)] by blast
  have "linked st'" by (rule linked_step [OF assms(3,1)])
  moreover have k': "map_of (entries st') k = Some (Stopping b [])"
    using k(2) ticked(4) tick_later_entries(1) [of H ob st1] by simp
  ultimately have "map_of (keys st') b = Some k" by (auto simp: linked_def)
  with linked_key [OF \<open>linked st'\<close> this] k(1) k' show ?thesis by fastforce
next
  case (respawned a k b' buf)
  then show ?thesis using assms(4) by (auto simp: asked_iff dest: deliver_effects)
qed (use assms(4) in auto)

lemma step_quiet:
  assumes "host_receive H ob incoming st = Some (Continue st', did)" and "unique st" and "linked st"
  shows "quiet_log (map Did did)"
  using assms(1)
proof (cases rule: host_receive_cases)
  case (ticked a st1 did1 did2)
  have "quiet_log (map Did did1)"
    using ticked(3) sweep_quiet [OF linked_actors [OF assms(3,2)]]
    by (cases "host_idle H") (auto simp: passivate_idle_None passivate_idle_Some)
  with ticked(4,5) show ?thesis
    by (auto simp: quiet_log_append tick_later_def split: option.splits)
next
  case (respawned a k b' buf)
  have "\<not> asked b (map Did did)" for b
    using respawned(8) by (auto simp: asked_iff dest: deliver_effects)
  moreover have "(\<And>b. \<not> asked b log) \<Longrightarrow> quiet_log log" for log :: "('a, 'b) host_event list"
    by (induction log) auto
  ultimately show ?thesis by blast
qed auto

section \<open>Runs\<close>

definition host_inv :: "'m host \<Rightarrow> ('k, 'm) host_event list \<Rightarrow> ('k, 'm) host_state \<Rightarrow> bool" where
  "host_inv H log st \<longleftrightarrow>
     unique st \<and> linked st \<and> known log st \<and> bounded H st \<and> ordered log st \<and> quiet log st"

lemma known_step:
  assumes "known log st" and "unique st" and "linked st" and fresh: "host_fresh ob \<notin> spawned_ids log"
    and step: "host_receive H ob incoming st = Some (Continue st', did)"
  shows "known (log @ Took incoming # map Did did) st'"
proof -
  let ?log = "log @ Took incoming # map Did did"
  have ids: "spawned_ids ?log = spawned_ids log \<union> spawned_ids (map Did did)"
    by (simp add: spawned_ids_append spawned_ids_Cons)
  have spawned: "SpawnedEntity k a \<in> set did \<Longrightarrow> a \<in> spawned_ids (map Did did)" for k a
    by (auto simp: spawned_ids_def intro!: bexI [of _ "SpawnedEntity k a"])
  have live: "a \<in> spawned_ids log \<and> ticker st \<noteq> Some a" if "map_of (entries st) k = Some (Live a l)" for a k l
  proof -
    have "map_of (keys st) a = Some k" using assms(3) that unfolding linked_def by (metis entry_actor.simps(1))
    with assms(1) show ?thesis by (simp add: known_def)
  qed
  have "a \<in> spawned_ids ?log" if e: "e \<in> set ?log" and t: "tells_actor a e" for a e
  proof (cases "e \<in> set log")
    case True
    then show ?thesis using assms(1) t unfolding known_def ids by blast
  next
    case False
    with e t obtain x where "x \<in> set did" "tells_actor a (Did x)" by auto
    with step_targets [OF step assms(2)] live spawned show ?thesis unfolding ids by blast
  qed
  moreover have "(a \<in> spawned_ids ?log \<and> ticker st' \<noteq> Some a)" if k: "map_of (keys st') a = Some k" for a k
    using step
  proof (cases rule: host_receive_cases)
    case (ticked b st1 did1 did2)
    have "map_of (keys st) a = Some k"
      using k ticked(3,4) tick_later_entries(2) [of H ob st1] passivate_keys(1) [of H ob st] by simp
    then have "a \<in> spawned_ids log" using assms(1) by (auto simp: known_def)
    with ticked(4) fresh show ?thesis by (auto simp: ids tick_later_def split: option.splits)
  next
    case (spawned k' m)
    then show ?thesis
      using k assms(1) fresh by (auto simp: known_def alist_simps spawned_ids_append spawned_ids_Cons split: if_splits)
  next
    case (respawned b k' b' buf)
    then show ?thesis
      using k assms(1) fresh by (auto simp: known_def alist_simps spawned_ids_append spawned_ids_Cons split: if_splits)
  qed (use k assms(1) in \<open>auto simp: known_def alist_simps spawned_ids_append split: if_splits\<close>)
  moreover have "a \<in> spawned_ids ?log" if t: "ticker st' = Some a" for a
    using step
  proof (cases rule: host_receive_cases)
    case (ticked b st1 did1 did2)
    then show ?thesis
      using t by (auto simp: spawned_ids_append spawned_ids_Cons tick_later_def split: option.splits)
  qed (use t assms(1) in \<open>auto simp: known_def spawned_ids_append\<close>)
  ultimately show ?thesis unfolding known_def by blast
qed

lemma quiet_step:
  assumes "quiet log st" and "known log st" and "unique st" and "linked st"
    and fresh: "host_fresh ob \<notin> spawned_ids log"
    and step: "host_receive H ob incoming st = Some (Continue st', did)"
  shows "quiet (log @ Took incoming # map Did did) st'"
proof -
  have asked_spawned: "a \<in> spawned_ids log" if "asked a log" for a
    using that assms(2) by (force simp: asked_iff known_def)
  then have free: "\<not> asked a log" if "(\<exists>k l. map_of (entries st) k = Some (Live a l)) \<or> a = host_fresh ob" for a
    using that assms(1) fresh by (auto simp: quiet_def)
  have "\<not> tells_actor a e" if "asked a log" and e: "e \<in> set (Took incoming # map Did did)" for a e
  proof
    assume "tells_actor a e"
    with e obtain x where "x \<in> set did" "tells_actor a (Did x)" by auto
    from step_targets [OF step assms(3) this] free [of a] that(1) show False by blast
  qed
  then have "quiet_log (log @ Took incoming # map Did did)"
    using assms(1) step_quiet [OF step assms(3,4)] by (auto simp: quiet_log_append quiet_def)
  moreover have "\<not> asked a (log @ Took incoming # map Did did)"
    if "map_of (entries st') k = Some (Live a l)" for k a l
  proof -
    have "\<not> asked a (map Did did)" using step_asked [OF step assms(3,4)] that by blast
    moreover have "\<not> asked a log" using step_live [OF step that] free by blast
    ultimately show ?thesis by (auto simp: asked_iff)
  qed
  ultimately show ?thesis unfolding quiet_def by blast
qed

lemma told_sweep:
  assumes "passivate_idle H ob st = (st1, did1)"
  shows "told k (map Did did1) = [] \<and> held k st1 = held k st"
proof (cases "host_idle H")
  case None
  then show ?thesis using assms by (auto simp: passivate_idle_None told_Nil)
next
  case (Some timeout)
  have "told k (map Did (snd (passivate_entry H ob timeout e))) = []" for e
    by (cases e) (auto simp: told_Nil told_Cons)
  then have "told k (map Did (concat (map (\<lambda>(k, e). snd (passivate_entry H ob timeout e)) es))) = []" for es
    by (induction es) (auto simp: told_Nil told_append)
  with Some assms show ?thesis
    by (auto simp: passivate_idle_Some held_def map_of_swept split: option.splits)
qed

lemma routed_Did: "routed k (map Did did) = []"
  by (induction did) (simp_all add: routed_Nil routed_Cons)

lemma deliver_not_refused: "\<not> refused_first k (map Did (deliver_buffered ob k' a buf))"
  by (cases buf) (auto simp: deliver_buffered_def)

lemma ordered_step:
  assumes "ordered log st" and "linked st" and step: "host_receive H ob incoming st = Some (Continue st', did)"
  shows "ordered (log @ Took incoming # map Did did) st'"
  unfolding ordered_def admitted_step
proof
  fix key
  have before: "told key log @ held key st = admitted key log" using assms(1) by (simp add: ordered_def)
  let ?new = "if refused_first key (map Did did) then [] else routed_event key (Took incoming)"
  have "held key st @ ?new = told key (map Did did) @ held key st'"
    using step
  proof (cases rule: host_receive_cases)
    case (ticked a st1 did1 did2)
    have "told key (map Did did2) = [] \<and> held key st' = held key st1"
      using ticked(4) by (auto simp: tick_later_def held_def told_Nil told_Cons split: option.splits)
    with ticked(1,5) told_sweep [OF ticked(3), of key] show ?thesis by (simp add: told_append)
  next
    case (respawned a k b buf)
    have "held key st = (if key = k then buf else held key st')"
      using respawned(4,7) by (auto simp: held_def alist_simps)
    moreover have "key = k \<Longrightarrow> held key st' = []" using respawned(7) by (simp add: held_def alist_simps)
    ultimately show ?thesis using respawned(1,8) by (auto simp: told_Cons deliver_told)
  next
    case (gone a k)
    then have "held key st' = held key st" by (auto simp: held_def alist_simps split: option.splits)
    with gone show ?thesis by (simp add: told_Nil)
  qed (auto simp: told_Cons told_Nil held_def alist_simps split: option.splits if_splits)
  then have new: "told key (map Did did) @ held key st' = held key st @ ?new" by (rule sym)
  have "told key (log @ Took incoming # map Did did) @ held key st' = told key log @ (told key (map Did did) @ held key st')"
    by (simp add: told_append told_Cons)
  also have "\<dots> = admitted key log @ ?new" unfolding new before [symmetric] by (simp only: append.assoc)
  finally show "told key (log @ Took incoming # map Did did) @ held key st' = admitted key log @ ?new" .
qed

lemma host_run_inv: "host_run H log st \<Longrightarrow> host_inv H log st"
proof (induction rule: host_run.induct)
  case (host_started ob st did)
  then show ?case
    by (auto simp: host_init_def tick_later_def host_state_default_def host_inv_def unique_def linked_def
        known_def bounded_def ordered_def quiet_def held_def log_simps routed_Did spawned_ids_Cons
        split: option.splits)
next
  case (host_received log st ob incoming st' did)
  then show ?case
    using unique_step linked_step known_step bounded_step ordered_step quiet_step
    unfolding host_inv_def by metis
qed

section \<open>Running a host\<close>

fun host_exec ::
  "'m host \<Rightarrow> (host_obs \<times> ('k \<times> 'm) incoming) list \<Rightarrow> ('k, 'm) host_event list \<times> ('k, 'm) host_state
     \<Rightarrow> (('k, 'm) host_event list \<times> ('k, 'm) host_state) option" where
  "host_exec H [] w = Some w"
| "host_exec H ((ob, incoming) # rest) (log, st) =
     (if list_all (\<lambda>e. spawned_by e \<noteq> Some (host_fresh ob)) log
      then case host_receive H ob incoming st of
             Some (Continue st', did) \<Rightarrow> host_exec H rest (log @ Took incoming # map Did did, st')
           | _ \<Rightarrow> None
      else None)"

lemma host_exec_run:
  "host_run H log st \<Longrightarrow> host_exec H steps (log, st) = Some (log', st') \<Longrightarrow> host_run H log' st'"
proof (induction steps arbitrary: log st)
  case (Cons step steps)
  obtain ob incoming where step: "step = (ob, incoming)" by (cases step)
  with Cons.prems(2) obtain st1 did where fresh: "host_fresh ob \<notin> spawned_ids log"
    and recv: "host_receive H ob incoming st = Some (Continue st1, did)"
    and rest: "host_exec H steps (log @ Took incoming # map Did did, st1) = Some (log', st')"
    by (auto simp: spawned_ids_def list_all_iff split: if_splits option.splits control.splits)
  show ?case by (rule Cons.IH [OF host_received [OF Cons.prems(1) fresh recv] rest])
qed simp

text \<open>A host with a timeout of 10: a message, a sweep after 100, and a message while the entity stops.\<close>

definition demo_host :: "nat host" where
  "demo_host = host_new (host_config_default\<lparr>idle_timeout := Some 10\<rparr>) 0"

definition demo_obs :: "nat \<Rightarrow> nat \<Rightarrow> host_obs" where
  "demo_obs now fresh = \<lparr>host_now = now, host_fresh = ActorId (of_nat fresh), host_accepts = (\<lambda>_ _. True)\<rparr>"

definition passivated :: "(host_obs \<times> (nat \<times> nat) incoming) list" where
  "passivated = [(demo_obs 1 1, Message (7, 5)), (demo_obs 100 2, Terminated (ActorId 0)),
     (demo_obs 101 3, Message (7, 6))]"

definition demo_run :: "(host_obs \<times> (nat \<times> nat) incoming) list
    \<Rightarrow> ((nat, nat) host_event list \<times> (nat, nat) host_state) option" where
  "demo_run steps = host_exec demo_host steps (map Did (snd (host_init demo_host (demo_obs 0 0))), fst (host_init demo_host (demo_obs 0 0)))"

lemma demo_run_run: "demo_run steps = Some (log, st) \<Longrightarrow> host_run demo_host log st"
  unfolding demo_run_def by (rule host_exec_run [OF host_started]) (simp_all add: prod.collapse)

definition small_host :: "nat host" where
  "small_host = host_new ((host_config_new 1)\<lparr>idle_timeout := Some 10\<rparr>) 0"

definition refusing :: "(host_obs \<times> (nat \<times> nat) incoming) list" where
  "refusing = passivated @ [(demo_obs 102 4, Message (7, 8))]"

definition small_run :: "(host_obs \<times> (nat \<times> nat) incoming) list
    \<Rightarrow> ((nat, nat) host_event list \<times> (nat, nat) host_state) option" where
  "small_run steps = host_exec small_host steps (map Did (snd (host_init small_host (demo_obs 0 0))), fst (host_init small_host (demo_obs 0 0)))"

lemma small_run_run: "small_run steps = Some (log, st) \<Longrightarrow> host_run small_host log st"
  unfolding small_run_def by (rule host_exec_run [OF host_started]) (simp_all add: prod.collapse)

lemma demo_passivated:
  "\<exists>log st. demo_run passivated = Some (log, st) \<and>
     log = take 7 log @ Did (AskedToStop (ActorId 1) 0 True) # drop 8 log \<and>
     Took (Message (7, 6)) \<in> set (drop 8 log) \<and> ActorId 9 \<notin> spawned_ids log"
proof -
  have "map_option (\<lambda>(log, st).
     log = take 7 log @ Did (AskedToStop (ActorId 1) 0 True) # drop 8 log \<and>
     Took (Message (7, 6)) \<in> set (drop 8 log) \<and> list_all (\<lambda>e. spawned_by e \<noteq> Some (ActorId 9)) log)
    (demo_run passivated) = Some True"
    by code_simp
  then show ?thesis by (fastforce simp: list_all_iff spawned_ids_def)
qed

section \<open>Guarantees\<close>

text \<open>
  C16: One incarnation per key. In every run of a host whose spawn function makes fresh actors, the
  two maps of its state are inverse to each other, so a key has at most one incarnation and a
  terminated signal finds exactly its entity; the debug assertion of \<^verbatim>\<open>remember\<close> never fails;
  and a buffer never exceeds its configured size.
\<close>

theorem host_one_incarnation:
  assumes "host_run H log st" and "host_fresh ob \<notin> spawned_ids log"
  shows "(map_of (keys st) a = Some k \<longleftrightarrow> (\<exists>e. map_of (entries st) k = Some e \<and> entry_actor e = a)) \<and>
    length (held k st) \<le> unat (host_buffer H) \<and> host_receive H ob incoming st \<noteq> None"
proof -
  have inv: "linked st" "known log st" "bounded H st"
    using host_run_inv [OF assms(1)] by (simp_all add: host_inv_def)
  have new: "map_of (keys st) (host_fresh ob) = None"
    using inv(2) assms(2) by (cases "map_of (keys st) (host_fresh ob)") (auto simp: known_def)
  then have del: "map_of (AList.delete a' (keys st)) (host_fresh ob) = None" for a'
    by (simp add: alist_simps)
  have "route H ob k' m st \<noteq> None" for k' m
    using new by (auto simp: route_def spawn_entity_def remember_def split: option.splits entry.splits)
  moreover have "host_terminated H ob a' st \<noteq> None" for a'
    using del
    by (auto simp: host_terminated_def spawn_entity_def remember_def Let_def split: option.splits entry.splits prod.splits)
  ultimately have "host_receive H ob incoming st \<noteq> None"
    by (auto simp: host_receive_def split: incoming.splits)
  with inv show ?thesis by (auto simp: linked_def bounded_def held_def split: option.splits)
qed

theorem host_one_incarnation_witness:
  "\<exists>log st. demo_run passivated = Some (log, st) \<and>
     host_receive demo_host (demo_obs 102 9) (Terminated (ActorId 1)) st \<noteq> None \<and> length (held 7 st) \<le> 64"
proof -
  obtain log st where run: "demo_run passivated = Some (log, st)" and "ActorId 9 \<notin> spawned_ids log"
    using demo_passivated by blast
  then have fresh: "host_fresh (demo_obs 102 9) \<notin> spawned_ids log" by (simp add: demo_obs_def)
  from host_one_incarnation [OF demo_run_run [OF run] fresh, of _ 7 "Terminated (ActorId 1)"] run
  show ?thesis
    by (auto simp: demo_host_def host_new_def host_config_default_def host_config_new_def)
qed

text \<open>
  C15: Messages for a key keep their order across incarnations, and the host loses none but those it
  refuses. In every run, what the host told the successive incarnations of the key, followed by
  what it holds back for the next one, is exactly what was sent to the host for that key without the
  messages that met a full buffer, in that order. A message is refused if and only if the entity of
  the key is stopping and the buffer holds as many messages as configured. Whether an incarnation
  still takes what it is told is up to its mailbox.
\<close>

theorem host_keeps_order:
  assumes "host_run H log st"
  shows "told k log @ held k st = admitted k log \<and>
    ((\<exists>c did a. host_receive H ob (Message (k, m)) st = Some (c, did) \<and> BufferFull k a m \<in> set did) \<longleftrightarrow>
      (\<exists>a. map_of (entries st) k = Some (Stopping a (held k st))) \<and> length (held k st) = unat (host_buffer H))"
proof
  have inv: "ordered log st" "bounded H st" using host_run_inv [OF assms] by (simp_all add: host_inv_def)
  show "told k log @ held k st = admitted k log" using inv(1) by (simp add: ordered_def)
  have "length (held k st) \<le> unat (host_buffer H)" using inv(2) by (auto simp: bounded_def held_def split: option.splits)
  then show "(\<exists>c did a. host_receive H ob (Message (k, m)) st = Some (c, did) \<and> BufferFull k a m \<in> set did) \<longleftrightarrow>
      (\<exists>a. map_of (entries st) k = Some (Stopping a (held k st))) \<and> length (held k st) = unat (host_buffer H)"
    by (auto simp: host_receive_def route_def spawn_entity_def held_def split: option.splits entry.splits)
qed

text \<open>A host with room for one message: while the entity stops, the first message is kept, the second is not.\<close>

lemma demo_refused:
  "\<exists>log st. small_run refusing = Some (log, st) \<and> admitted 7 log = [5, 6] \<and> routed 7 log = [5, 6, 8]"
proof -
  have "map_option (\<lambda>(log, st). (admitted 7 log, routed 7 log)) (small_run refusing) = Some ([5, 6], [5, 6, 8])"
    by code_simp
  then show ?thesis by auto
qed

theorem host_keeps_order_witness:
  "\<exists>log st. small_run refusing = Some (log, st) \<and> routed 7 log = [5, 6, 8] \<and> told 7 log @ held 7 st = [5, 6]"
proof -
  obtain log st where run: "small_run refusing = Some (log, st)" and "admitted 7 log = [5, 6]" "routed 7 log = [5, 6, 8]"
    using demo_refused by blast
  with host_keeps_order [OF small_run_run [OF run], of 7] show ?thesis by auto
qed

text \<open>
  C17: After an entity accepted the passivation message the host sends nothing more to that
  incarnation, so the passivation message is the last one it gets from its host.
\<close>

theorem host_quiet_after_passivation:
  assumes "host_run H (before @ Did (AskedToStop a m True) # after) st" and "e \<in> set after"
  shows "\<not> tells_actor a e"
  using host_run_inv [OF assms(1)] assms(2) by (auto simp: host_inv_def quiet_def quiet_log_append)

theorem host_quiet_after_passivation_witness:
  "\<exists>log st. demo_run passivated = Some (log, st) \<and> Took (Message (7, 6)) \<in> set (drop 8 log) \<and>
     \<not> tells_actor (ActorId 1) (Took (Message (7, 6)) :: (nat, nat) host_event)"
proof -
  obtain log st where run: "demo_run passivated = Some (log, st)"
    and log: "log = take 7 log @ Did (AskedToStop (ActorId 1) 0 True) # drop 8 log"
    and e: "Took (Message (7, 6)) \<in> set (drop 8 log)"
    using demo_passivated by blast
  have "host_run demo_host (take 7 log @ Did (AskedToStop (ActorId 1) 0 True) # drop 8 log) st"
    using demo_run_run [OF run] log by simp
  from host_quiet_after_passivation [OF this e] run e show ?thesis by blast
qed

end
