(* ===== verification/Testing.thy ===== *)
theory Testing
  imports Mailbox EventExamples
begin

text \<open>
  \<^verbatim>\<open>tellus/src/testing.rs\<close>: the test context, a context with its mailbox outside of a run loop, and
  \<open>test_settle\<close>, which settles an effect without a store. A panic is not caught there, it is
  \<^const>\<open>None\<close>. \<^verbatim>\<open>TestContext::terminate\<close> is \<^verbatim>\<open>terminate\<close> of the theory \<open>Task\<close>.
\<close>

record 'c test_context =
  test_actor :: actor_id
  test_mailbox :: "'c mailbox"

definition test_context_new :: "('m incoming, 'c) flume \<Rightarrow> actor_id \<Rightarrow> 'c test_context" where
  "test_context_new fl fresh = \<lparr>test_actor = fresh, test_mailbox = make_mailbox fl Unbounded\<rparr>"

text \<open>\<^verbatim>\<open>iter::from_fn(|| self.mailbox.try_recv()).collect()\<close>: receive until there is nothing.\<close>

partial_function (option) receive_all ::
  "('m incoming, 'c) flume \<Rightarrow> 'c mailbox \<Rightarrow> ('m incoming list \<times> 'c mailbox) option" where
  [code]: "receive_all fl mb =
     (case mailbox_try_recv fl mb of
        None \<Rightarrow> Some ([], mb)
      | Some (i, mb1) \<Rightarrow> Option.bind (receive_all fl mb1) (\<lambda>(is, mb2). Some (i # is, mb2)))"

definition take_incoming ::
  "('m incoming, 'c) flume \<Rightarrow> 'c test_context \<Rightarrow> ('m incoming list \<times> 'c test_context) option" where
  "take_incoming fl tc =
     map_option (\<lambda>(is, mb). (is, tc\<lparr>test_mailbox := mb\<rparr>)) (receive_all fl (test_mailbox tc))"

record 's settlement =
  settlement_state :: 's
  settlement_stop :: bool

definition test_settle ::
  "('m, 's, 'ev, 'sn, 'e, 'o) event_sourced \<Rightarrow> 's \<Rightarrow> ('s, 'ev, 'o) effect \<Rightarrow> 's settlement option \<times> 'o list" where
  "test_settle A s eff =
     (case apply_events A s (effect_events eff) of
        None \<Rightarrow> (None, [])
      | Some s' \<Rightarrow>
          (case run_thens s' (effect_thens eff) of (outs, all_ran) \<Rightarrow>
             (if all_ran then Some \<lparr>settlement_state = s', settlement_stop = effect_stop eff\<rparr> else None, outs)))"

context mailbox_channel
begin

lemma try_recv_Nil: "contents (item_chan mb) = [] \<Longrightarrow> mailbox_try_recv fl mb = None"
  using recv_Received [of "item_chan mb"]
  by (auto simp: mailbox_try_recv_def split: recv_poll.splits)

lemma try_recv_Cons:
  assumes "contents (item_chan mb) = x # xs"
  shows "\<exists>mb'. mailbox_try_recv fl mb = Some (x, mb') \<and> contents (item_chan mb') = xs \<and>
    connected (item_chan mb') = connected (item_chan mb)"
proof -
  obtain c' where c': "fl_recv fl (item_chan mb) = Received x c'" using recv_Cons [OF assms] by blast
  with recv_Received [OF c'] assms show ?thesis by (simp add: mailbox_try_recv_def)
qed

text \<open>It returns everything that was enqueued, in order, and leaves nothing.\<close>

lemma receive_all_returns:
  "\<exists>mb'. receive_all fl mb = Some (contents (item_chan mb), mb') \<and> contents (item_chan mb') = [] \<and>
     connected (item_chan mb') = connected (item_chan mb)"
proof (induction "contents (item_chan mb)" arbitrary: mb)
  case Nil
  then show ?case using try_recv_Nil [of mb] by (subst receive_all.simps) simp
next
  case (Cons x xs)
  obtain mb1 where mb1: "mailbox_try_recv fl mb = Some (x, mb1)" "xs = contents (item_chan mb1)"
      "connected (item_chan mb1) = connected (item_chan mb)"
    using try_recv_Cons [of mb x xs] Cons.hyps(2) by auto
  with Cons.hyps(1) [OF mb1(2)] Cons.hyps(2) show ?case by (subst receive_all.simps) auto
qed

end

text \<open>
  A test context collects everything. \<^verbatim>\<open>take_incoming\<close> ends, on every channel that behaves as
  documented; it returns everything that was enqueued in the mailbox since, in the order it
  arrived, and a second call returns nothing.
\<close>

lemma take_incoming_collects:
  assumes "mailbox_channel fl contents connected tx_alive"
  shows "\<exists>tc' tc''. take_incoming fl tc = Some (contents (item_chan (test_mailbox tc)), tc') \<and>
    take_incoming fl tc' = Some ([], tc'') \<and> test_actor tc' = test_actor tc"
proof -
  note all = mailbox_channel.receive_all_returns [OF assms]
  obtain mb where mb: "receive_all fl (test_mailbox tc) = Some (contents (item_chan (test_mailbox tc)), mb)"
      "contents (item_chan mb) = []"
    using all [of "test_mailbox tc"] by blast
  obtain mb' where "receive_all fl mb = Some ([], mb')" using all [of mb] mb(2) by auto
  with mb(1) show ?thesis by (simp add: take_incoming_def)
qed

text \<open>
  C38: Testing an effect without a store agrees with settling it. On a store that accepts the
  append, with events that encode, \<^verbatim>\<open>settle\<close> of the run loop returns exactly when
  \<^verbatim>\<open>testing::settle\<close> does, with the same state and stop decision and the same actions of the
  continuations in the same order, including the ones before a panic.
\<close>

theorem test_settle_agrees:
  assumes "event_store P = in_memory_event_store" and "in_memory_inv st"
    and "position n = length (in_memory_stream st pid)"
    and "length (in_memory_stream st pid) + length (effect_events eff) < 2 ^ 64"
    and "encode_events (event_codec (codec P)) (event_type A) (effect_events eff) = Return encoded"
    and "settle A P pid s n eff st = (r, outs, st')"
  shows "test_settle A s eff =
    (map_option (\<lambda>d. \<lparr>settlement_state = settled_state d, settlement_stop = settled_stop d\<rparr>) r, outs)"
proof -
  have end_agrees: "(case run_thens s' (effect_thens eff) of (os, all_ran) \<Rightarrow>
      (if all_ran then Some \<lparr>settlement_state = s', settlement_stop = effect_stop eff\<rparr> else None, os)) =
      (map_option (\<lambda>d. \<lparr>settlement_state = settled_state d, settlement_stop = settled_stop d\<rparr>) r, outs)"
    if "settle_end A P pid s' n' eff st1 = (r, outs, st')" for s' n' st1
    using that
    by (auto simp: settle_end_def settle_then_def split: prod.splits option.splits if_splits)
  show ?thesis
  proof (cases "effect_events eff")
    case Nil
    then have "settle_end A P pid s n eff st = (r, outs, st')"
      using assms(6) by (simp add: settle_def settle_begin_def)
    from end_agrees [OF this] Nil show ?thesis by (simp add: test_settle_def)
  next
    case (Cons ev evs)
    then have "effect_events eff \<noteq> []" by simp
    then have batch: "settle_begin A P eff = ToAppend encoded"
      by (simp add: settle_begin_def assms(5))
    have "length encoded = length (effect_events eff)" using assms(5) by (rule encode_events_length)
    moreover have n: "n = at_position (length (in_memory_stream st pid))"
      using assms(3) by (metis at_position_position)
    ultimately obtain st1 where "es_append (event_store P) pid n encoded st = (Return (), st1)"
      using in_memory_append_events(1) [OF assms(2) _ n, of encoded] assms(1,4)
      by (cases "in_memory_append pid n encoded st") (simp add: in_memory_ops)
    with batch assms(6) end_agrees show ?thesis
      by (cases "apply_events A s (effect_events eff)")
        (auto simp: settle_def append_events_def settle_applied_Return test_settle_def)
  qed
qed

theorem test_settle_agrees_witness:
  "\<exists>r outs st'. settle (counter unit_codec) counter_wiring counter_pid 0 (SeqNo 0)
       (and_then (\<lambda>count. Some (7, count)) (persist Increased)) in_memory_default = (r, outs, st') \<and>
     test_settle (counter unit_codec) 0 (and_then (\<lambda>count. Some (7, count)) (persist Increased)) =
       (map_option (\<lambda>d. \<lparr>settlement_state = settled_state d, settlement_stop = settled_stop d\<rparr>) r, outs)"
proof -
  let ?eff = "and_then (\<lambda>count. Some (7, count)) (persist Increased) :: (u64, increased, nat \<times> u64) effect"
  obtain r outs st' where settle: "settle (counter unit_codec) counter_wiring counter_pid 0 (SeqNo 0)
      ?eff in_memory_default = (r, outs, st')"
    by (metis prod_cases3)
  have enc: "encode_events (event_codec (codec counter_wiring)) (event_type (counter unit_codec)) (effect_events ?eff) =
      Return [\<lparr>event_manifest = ''increased'', event_version = SchemaVersion 1, event_payload = [0xF6]\<rparr>]"
    by code_simp
  have empty: "in_memory_stream in_memory_default counter_pid = []"
    by (simp add: in_memory_stream_def in_memory_events_def in_memory_default_def)
  have "event_store counter_wiring = in_memory_event_store"
    by (simp add: counter_wiring_def with_snapshot_store_def persistence_new_def)
  from test_settle_agrees [OF this in_memory_inv_default _ _ enc settle] settle show ?thesis
    by (simp add: empty position_def and_then_def persist_def persist_all_def)
qed

end
