(* ===== verification/Postgres.thy ===== *)
theory Postgres
  imports Stores
begin

text \<open>
  \<^verbatim>\<open>tellus-persistence-postgres/src/lib.rs\<close>: both stores over PostgreSQL. The two tables of the
  schema are lists of rows in insertion order; each SQL statement of the code is a function on
  them, executed atomically as a single statement is. Whether the database or the connection
  fails is an input: a queue of outcomes, one per statement. A statement can be refused, and then
  it changed nothing; or its reply is lost, and then it was executed. \<^verbatim>\<open>BIGINT\<close> and \<^verbatim>\<open>INT\<close>
  columns are integers whose ranges are checked where the code or the database does.
\<close>

section \<open>The database\<close>

record event_row =
  row_entity :: persistence_id
  row_seq_no :: int
  row_manifest :: string
  row_version :: int
  row_payload :: bytes

record snapshot_row =
  snap_entity :: persistence_id
  snap_next_seq_no :: int
  snap_manifest :: string
  snap_version :: int
  snap_payload :: bytes

datatype sqlx_error = Database "string option" | Io string

datatype outcome = Executed | Refused sqlx_error | ReplyLost string

record pg_pool =
  events_table :: "event_row list"
  snapshots_table :: "snapshot_row list"
  outcomes :: "outcome list"

definition run_statement ::
  "(pg_pool \<Rightarrow> ('a, sqlx_error) result \<times> pg_pool) \<Rightarrow> pg_pool \<Rightarrow> ('a, sqlx_error) result \<times> pg_pool" where
  "run_statement f db =
     (case outcomes db of
        [] \<Rightarrow> f db
      | out # rest \<Rightarrow>
          (let db = db\<lparr>outcomes := rest\<rparr>
           in case out of
                Executed \<Rightarrow> f db
              | Refused e \<Rightarrow> (Err e, db)
              | ReplyLost why \<Rightarrow> (Err (Io why), snd (f db))))"

definition bigint_max :: int where
  "bigint_max = 2 ^ 63 - 1"

definition rows_of :: "pg_pool \<Rightarrow> persistence_id \<Rightarrow> event_row list" where
  "rows_of db pid = filter (\<lambda>r. row_entity r = pid) (events_table db)"

text \<open>
  \<^verbatim>\<open>SELECT COALESCE(MAX(seq_no) + 1, 0)\<close> over the rows of an entity; the sum may leave the range
  of the column type, which is an error of its own.
\<close>

definition select_next_seq_no :: "persistence_id \<Rightarrow> pg_pool \<Rightarrow> (int, sqlx_error) result \<times> pg_pool" where
  "select_next_seq_no pid db =
     (case map row_seq_no (rows_of db pid) of
        [] \<Rightarrow> (Ok 0, db)
      | n # ns \<Rightarrow>
          (let next = fold max ns n + 1
           in if next \<le> bigint_max then (Ok next, db) else (Err (Database (Some ''22003'')), db)))"

text \<open>
  The conditional \<^verbatim>\<open>INSERT\<close>: no row if the subquery does not match, a unique violation if a
  primary key is taken, else all rows; the number of inserted rows is the result.
\<close>

definition insert_events ::
  "persistence_id \<Rightarrow> event_row list \<Rightarrow> int \<Rightarrow> pg_pool \<Rightarrow> (nat, sqlx_error) result \<times> pg_pool" where
  "insert_events pid rows expected db =
     (case select_next_seq_no pid db of
        (Err e, _) \<Rightarrow> (Err e, db)
      | (Ok next, _) \<Rightarrow>
          (if next \<noteq> expected then (Ok 0, db)
           else if distinct (map row_seq_no (rows_of db pid @ rows))
           then (Ok (length rows), db\<lparr>events_table := events_table db @ rows\<rparr>)
           else (Err (Database (Some ''23505'')), db)))"

definition select_events ::
  "persistence_id \<Rightarrow> int \<Rightarrow> nat \<Rightarrow> pg_pool \<Rightarrow> (event_row list, sqlx_error) result \<times> pg_pool" where
  "select_events pid from_seq_no limit db =
     (Ok (take limit (sort_key row_seq_no (filter (\<lambda>r. from_seq_no \<le> row_seq_no r) (rows_of db pid)))), db)"

definition upsert_snapshot :: "snapshot_row \<Rightarrow> pg_pool \<Rightarrow> (unit, sqlx_error) result \<times> pg_pool" where
  "upsert_snapshot row db =
     (Ok (), db\<lparr>snapshots_table :=
        row # filter (\<lambda>r. snap_entity r \<noteq> snap_entity row) (snapshots_table db)\<rparr>)"

definition select_snapshot ::
  "persistence_id \<Rightarrow> pg_pool \<Rightarrow> (snapshot_row option, sqlx_error) result \<times> pg_pool" where
  "select_snapshot pid db = (Ok (find (\<lambda>r. snap_entity r = pid) (snapshots_table db)), db)"

section \<open>The store\<close>

datatype pg_error = Sqlx sqlx_error | Migrate string | SeqNoOutOfRange | SchemaVersionOutOfRange

definition into_bigint :: "seq_no \<Rightarrow> (int, pg_error) result" where
  "into_bigint n = (if uint (as_u64 n) \<le> bigint_max then Ok (uint (as_u64 n)) else Err SeqNoOutOfRange)"

definition pg_seq_no :: "int \<Rightarrow> (seq_no, pg_error) result" where
  "pg_seq_no n = (if 0 \<le> n then Ok (SeqNo (word_of_int n)) else Err SeqNoOutOfRange)"

definition pg_schema_version :: "int \<Rightarrow> (schema_version, pg_error) result" where
  "pg_schema_version n =
     (if 0 \<le> n \<and> n < 2 ^ 16 then Ok (SchemaVersion (word_of_int n)) else Err SchemaVersionOutOfRange)"

definition pg_stored_event :: "event_row \<Rightarrow> (stored_event, pg_error) result" where
  "pg_stored_event row =
     result_bind (pg_seq_no (row_seq_no row)) (\<lambda>n.
     result_bind (pg_schema_version (row_version row)) (\<lambda>v.
       Ok \<lparr>stored_seq_no = n,
           stored_payload = \<lparr>event_manifest = row_manifest row, event_version = v, event_payload = row_payload row\<rparr>\<rparr>))"

definition pg_stored_snapshot :: "snapshot_row \<Rightarrow> (stored_snapshot, pg_error) result" where
  "pg_stored_snapshot row =
     result_bind (pg_seq_no (snap_next_seq_no row)) (\<lambda>n.
     result_bind (pg_schema_version (snap_version row)) (\<lambda>v.
       Ok \<lparr>stored_next_seq_no = n,
           stored_encoded = \<lparr>snapshot_manifest = snap_manifest row, snapshot_version = v, snapshot_payload = snap_payload row\<rparr>\<rparr>))"

definition is_unique_violation :: "sqlx_error \<Rightarrow> bool" where
  "is_unique_violation e = (e = Database (Some ''23505''))"

text \<open>The loop that numbers the events of a batch and fills the columns; \<open>n\<close> is the index.\<close>

fun number_events ::
  "persistence_id \<Rightarrow> int \<Rightarrow> nat \<Rightarrow> encoded_event list \<Rightarrow> (event_row list, pg_error) result" where
  "number_events pid next_seq_no n [] = Ok []"
| "number_events pid next_seq_no n (event # events) =
     (if int n \<le> bigint_max \<and> next_seq_no + int n \<le> bigint_max
      then result_bind (number_events pid next_seq_no (Suc n) events) (\<lambda>rows.
             Ok (\<lparr>row_entity = pid, row_seq_no = next_seq_no + int n, row_manifest = event_manifest event,
                  row_version = uint (as_u16 (event_version event)), row_payload = event_payload event\<rparr> # rows))
      else Err SeqNoOutOfRange)"

definition pg_append ::
  "persistence_id \<Rightarrow> seq_no \<Rightarrow> encoded_event list \<Rightarrow> pg_pool \<Rightarrow> (unit, pg_error append_error) call \<times> pg_pool" where
  "pg_append pid next_seq_no events db =
     (case into_bigint next_seq_no of
        Err e \<Rightarrow> (Fail (Store e), db)
      | Ok next \<Rightarrow>
          (if events = []
           then case run_statement (select_next_seq_no pid) db of
                  (Err e, db') \<Rightarrow> (Fail (Store (Sqlx e)), db')
                | (Ok actual, db') \<Rightarrow> (if actual = next then Return () else Fail Conflict, db')
           else case number_events pid next 0 events of
                  Err e \<Rightarrow> (Fail (Store e), db)
                | Ok rows \<Rightarrow>
                    (case run_statement (insert_events pid rows next) db of
                       (Ok affected, db') \<Rightarrow> (if affected = length rows then Return () else Fail Conflict, db')
                     | (Err e, db') \<Rightarrow>
                         (if is_unique_violation e then Fail Conflict else Fail (Store (Sqlx e)), db'))))"

fun collect_rows :: "('r \<Rightarrow> ('a, 'e) result) \<Rightarrow> 'r list \<Rightarrow> ('a list, 'e) result" where
  "collect_rows f [] = Ok []"
| "collect_rows f (r # rs) = result_bind (f r) (\<lambda>a. result_bind (collect_rows f rs) (\<lambda>as. Ok (a # as)))"

definition pg_read ::
  "persistence_id \<Rightarrow> seq_no \<Rightarrow> nat \<Rightarrow> pg_pool \<Rightarrow> (stored_event list, pg_error) call \<times> pg_pool" where
  "pg_read pid from_seq_no limit db =
     (case into_bigint from_seq_no of
        Err e \<Rightarrow> (Fail e, db)
      | Ok start \<Rightarrow>
          (let limit = (if int limit \<le> bigint_max then limit else nat bigint_max)
           in case run_statement (select_events pid start limit) db of
                (Err e, db') \<Rightarrow> (Fail (Sqlx e), db')
              | (Ok rows, db') \<Rightarrow>
                  (case collect_rows pg_stored_event rows of
                     Err e \<Rightarrow> (Fail e, db')
                   | Ok events \<Rightarrow> (Return events, db'))))"

definition pg_save ::
  "persistence_id \<Rightarrow> seq_no \<Rightarrow> encoded_snapshot \<Rightarrow> pg_pool \<Rightarrow> (unit, pg_error) call \<times> pg_pool" where
  "pg_save pid next_seq_no snapshot db =
     (case into_bigint next_seq_no of
        Err e \<Rightarrow> (Fail e, db)
      | Ok next \<Rightarrow>
          (case run_statement (upsert_snapshot
                  \<lparr>snap_entity = pid, snap_next_seq_no = next, snap_manifest = snapshot_manifest snapshot,
                   snap_version = uint (as_u16 (snapshot_version snapshot)), snap_payload = snapshot_payload snapshot\<rparr>) db of
             (Err e, db') \<Rightarrow> (Fail (Sqlx e), db')
           | (Ok _, db') \<Rightarrow> (Return (), db')))"

definition pg_load :: "persistence_id \<Rightarrow> pg_pool \<Rightarrow> (stored_snapshot option, pg_error) call \<times> pg_pool" where
  "pg_load pid db =
     (case run_statement (select_snapshot pid) db of
        (Err e, db') \<Rightarrow> (Fail (Sqlx e), db')
      | (Ok None, db') \<Rightarrow> (Return None, db')
      | (Ok (Some row), db') \<Rightarrow>
          (case pg_stored_snapshot row of
             Err e \<Rightarrow> (Fail e, db')
           | Ok snapshot \<Rightarrow> (Return (Some snapshot), db')))"

definition pg_event_store :: "(pg_pool, pg_error) event_store" where
  "pg_event_store = \<lparr>es_append = pg_append, es_read = pg_read\<rparr>"

definition pg_snapshot_store :: "(pg_pool, pg_error) snapshot_store" where
  "pg_snapshot_store = \<lparr>ss_save = pg_save, ss_load = pg_load\<rparr>"

section \<open>What the tables hold\<close>

definition pg_row_event :: "event_row \<Rightarrow> encoded_event" where
  "pg_row_event r = \<lparr>event_manifest = row_manifest r,
     event_version = SchemaVersion (word_of_int (row_version r)), event_payload = row_payload r\<rparr>"

definition pg_stream :: "pg_pool \<Rightarrow> persistence_id \<Rightarrow> encoded_event list" where
  "pg_stream db pid = map pg_row_event (rows_of db pid)"

definition pg_snap :: "pg_pool \<Rightarrow> persistence_id \<Rightarrow> stored_snapshot option" where
  "pg_snap db pid =
     (case find (\<lambda>r. snap_entity r = pid) (snapshots_table db) of
        None \<Rightarrow> None
      | Some row \<Rightarrow> (case pg_stored_snapshot row of Ok s \<Rightarrow> Some s | Err _ \<Rightarrow> None))"

text \<open>Every stream is gapless from 0 on, and every schema version came from a \<^verbatim>\<open>u16\<close>.\<close>

definition pg_inv :: "pg_pool \<Rightarrow> bool" where
  "pg_inv db \<longleftrightarrow>
     (\<forall>pid. map row_seq_no (rows_of db pid) = map int [0 ..< length (rows_of db pid)] \<and>
            int (length (rows_of db pid)) \<le> 2 ^ 63 \<and>
            (\<forall>r \<in> set (rows_of db pid). 0 \<le> row_version r \<and> row_version r < 2 ^ 16))"

section \<open>Statements\<close>

lemma rows_of_outcomes [simp]: "rows_of (db\<lparr>outcomes := x\<rparr>) pid = rows_of db pid"
  by (simp add: rows_of_def)

lemma rows_of_snapshots [simp]: "rows_of (db\<lparr>snapshots_table := x\<rparr>) pid = rows_of db pid"
  by (simp add: rows_of_def)

text \<open>The tables of two states agree; the outcomes still to come may differ.\<close>

definition same_tables :: "pg_pool \<Rightarrow> pg_pool \<Rightarrow> bool" where
  "same_tables db db' \<longleftrightarrow> events_table db' = events_table db \<and> snapshots_table db' = snapshots_table db"

lemma same_tables_rows: "same_tables db db' \<Longrightarrow> rows_of db' = rows_of db"
  by (simp add: same_tables_def rows_of_def fun_eq_iff)

lemma same_tables_views:
  assumes "same_tables db db'"
  shows "pg_stream db' = pg_stream db" "pg_snap db' = pg_snap db" "pg_inv db' = pg_inv db"
  using assms same_tables_rows [OF assms]
  by (simp_all add: same_tables_def pg_stream_def pg_snap_def pg_inv_def fun_eq_iff)

lemma run_statement_cases [consumes 1, case_names ran refused lost]:
  assumes "run_statement f db = (r, db')"
  obtains db0 where "same_tables db db0" "f db0 = (r, db')"
  | e where "same_tables db db'" "r = Err e"
  | db0 why where "same_tables db db0" "r = Err (Io why)" "db' = snd (f db0)"
proof (cases "outcomes db")
  case Nil
  with assms that(1) [of db] show thesis by (simp add: run_statement_def same_tables_def)
next
  case (Cons out rest)
  let ?db = "db\<lparr>outcomes := rest\<rparr>"
  have same: "same_tables db ?db" by (simp add: same_tables_def)
  show thesis
  proof (cases out)
    case Executed
    with Cons assms have "f ?db = (r, db')" by (simp add: run_statement_def)
    with that(1) same show thesis by blast
  next
    case (Refused e)
    with Cons assms have "r = Err e \<and> db' = ?db" by (simp add: run_statement_def)
    with that(2) same show thesis by blast
  next
    case (ReplyLost why)
    with Cons assms have "r = Err (Io why) \<and> db' = snd (f ?db)" by (simp add: run_statement_def)
    with that(3) same show thesis by blast
  qed
qed

lemma select_next_snd [simp]: "snd (select_next_seq_no pid db) = db"
  by (auto simp: select_next_seq_no_def Let_def split: list.splits)

lemma select_next_inv:
  assumes "pg_inv db"
  shows "select_next_seq_no pid db =
    (if int (length (rows_of db pid)) \<le> bigint_max then Ok (int (length (rows_of db pid)))
     else Err (Database (Some ''22003'')), db)"
proof -
  let ?len = "length (rows_of db pid)"
  have seqs: "map row_seq_no (rows_of db pid) = map int [0 ..< ?len]"
    using assms by (simp add: pg_inv_def)
  show ?thesis
  proof (cases "rows_of db pid")
    case Nil
    then show ?thesis by (simp add: select_next_seq_no_def bigint_max_def)
  next
    case (Cons r rs)
    then obtain n ns where ns: "map row_seq_no (rows_of db pid) = n # ns" by simp
    have "fold max ns n = Max (set (n # ns))" by (rule Max.set_eq_fold [symmetric])
    also have "\<dots> = Max (int ` {0 ..< ?len})" using seqs ns by (metis set_map set_upt)
    also have "\<dots> = int (Max {0 ..< ?len})"
      by (rule mono_Max_commute [symmetric]) (use Cons in \<open>auto simp: mono_def\<close>)
    also have "Max {0 ..< ?len} = ?len - 1"
      by (rule Max_eqI) (use Cons in auto)
    finally have "fold max ns n + 1 = int ?len" using Cons by simp
    with ns show ?thesis by (simp add: select_next_seq_no_def Let_def)
  qed
qed

lemma number_events_Ok:
  assumes "number_events pid next n events = Ok rows"
  shows "map row_seq_no rows = map (\<lambda>i. next + int i) [n ..< n + length events] \<and>
    map pg_row_event rows = events \<and> length rows = length events \<and>
    (\<forall>r \<in> set rows. row_entity r = pid \<and> 0 \<le> row_version r \<and> row_version r < 2 ^ 16) \<and>
    (events \<noteq> [] \<longrightarrow> next + int (n + length events) \<le> 2 ^ 63)"
  using assms
proof (induction events arbitrary: n rows)
  case (Cons event events)
  from Cons.prems obtain rest where rest: "number_events pid next (Suc n) events = Ok rest"
    and rows: "rows = \<lparr>row_entity = pid, row_seq_no = next + int n, row_manifest = event_manifest event,
        row_version = uint (as_u16 (event_version event)), row_payload = event_payload event\<rparr> # rest"
    and bound: "next + int n \<le> bigint_max"
    by (auto simp: result_bind_Ok_iff split: if_splits)
  have "uint (as_u16 (event_version event)) < 2 ^ 16"
    using uint_lt2p [of "as_u16 (event_version event)"] by simp
  moreover have "events = [] \<Longrightarrow> next + int (n + length (event # events)) \<le> 2 ^ 63"
    using bound by (simp add: bigint_max_def)
  moreover have "[n ..< n + length (event # events)] = n # [Suc n ..< Suc n + length events]"
    by (simp add: upt_conv_Cons del: upt_Suc)
  ultimately show ?case
    using Cons.IH [OF rest] rows by (auto simp: pg_row_event_def algebra_simps)
qed simp

lemma rows_of_insert:
  assumes "\<forall>r \<in> set rows. row_entity r = pid"
  shows "rows_of (db\<lparr>events_table := events_table db @ rows\<rparr>) p = rows_of db p @ (if p = pid then rows else [])"
  using assms by (auto simp: rows_of_def filter_empty_conv intro!: filter_True)

text \<open>The conditional insert of a numbered batch, on gapless streams.\<close>

lemma insert_numbered:
  assumes inv: "pg_inv db" and rows: "number_events pid next 0 events = Ok rows" and "events \<noteq> []"
    and insert: "insert_events pid rows next db = (r, db')"
  shows "if next = int (length (rows_of db pid)) \<and> int (length (rows_of db pid)) \<le> bigint_max
    then r = Ok (length rows) \<and> pg_inv db' \<and> pg_snap db' = pg_snap db \<and>
      pg_stream db' = (pg_stream db)(pid := pg_stream db pid @ events)
    else db' = db \<and> (r = Ok 0 \<or> (\<exists>e. r = Err e))"
proof (cases "next = int (length (rows_of db pid)) \<and> int (length (rows_of db pid)) \<le> bigint_max")
  case True
  let ?len = "length (rows_of db pid)"
  note num = number_events_Ok [OF rows]
  have seqs: "map row_seq_no (rows_of db pid) = map int [0 ..< ?len]" using inv by (simp add: pg_inv_def)
  have "map row_seq_no rows = map (\<lambda>i. int ?len + int i) [0 ..< length rows]"
    using num True by simp
  also have "\<dots> = map int [?len ..< ?len + length rows]" by (rule nth_equalityI) simp_all
  finally have new: "map row_seq_no rows = map int [?len ..< ?len + length rows]" .
  have all: "map row_seq_no (rows_of db pid @ rows) = map int [0 ..< ?len + length rows]"
    using seqs new by (simp add: upt_add_eq_append [of 0 ?len])
  then have "distinct (map row_seq_no (rows_of db pid @ rows))" by (simp add: distinct_map)
  with True insert have r: "r = Ok (length rows)" and db': "db' = db\<lparr>events_table := events_table db @ rows\<rparr>"
    by (auto simp: insert_events_def select_next_inv [OF inv])
  have entity: "\<forall>r \<in> set rows. row_entity r = pid" using num by blast
  note rows' = rows_of_insert [OF entity, of db, folded db']
  have "pg_stream db' = (pg_stream db)(pid := pg_stream db pid @ events)"
    using num by (auto simp: pg_stream_def rows' fun_eq_iff)
  moreover have "pg_inv db'"
    unfolding pg_inv_def
  proof
    fix p
    show "map row_seq_no (rows_of db' p) = map int [0 ..< length (rows_of db' p)] \<and>
        int (length (rows_of db' p)) \<le> 2 ^ 63 \<and>
        (\<forall>r \<in> set (rows_of db' p). 0 \<le> row_version r \<and> row_version r < 2 ^ 16)"
    proof (cases "p = pid")
      case True
      have "int (?len + length rows) \<le> 2 ^ 63"
        using num \<open>next = _ \<and> _\<close> assms(3) by simp
      moreover have "\<forall>r \<in> set (rows_of db pid) \<union> set rows. 0 \<le> row_version r \<and> row_version r < 2 ^ 16"
        using inv num unfolding pg_inv_def by blast
      ultimately show ?thesis
        unfolding rows' using all True by (simp only: simp_thms if_True length_append set_append)
    next
      case False
      with inv show ?thesis unfolding rows' pg_inv_def by simp
    qed
  qed
  moreover have "pg_snap db' = pg_snap db" by (simp add: db' pg_snap_def fun_eq_iff)
  ultimately show ?thesis using True r by simp
next
  case False
  with insert show ?thesis
    by (auto simp: insert_events_def select_next_inv [OF inv] split: if_splits)
qed

lemma insert_failed_same: "insert_events pid rows next db = (Err e, db') \<Longrightarrow> db' = db"
  by (auto simp: insert_events_def split: prod.splits sum.splits if_splits)

lemma into_bigint_Ok: "into_bigint n = Ok m \<longleftrightarrow> m = int (position n) \<and> int (position n) \<le> bigint_max"
  by (auto simp: into_bigint_def position_def)

lemma pg_append_cases:
  assumes inv: "pg_inv db" and fits: "length (pg_stream db pid) + length events < 2 ^ 64"
    and append: "pg_append pid n events db = (r, db')"
  shows "pg_inv db' \<and> pg_snap db' = pg_snap db \<and>
    (pg_stream db' = pg_stream db \<and> r \<noteq> Return () \<or>
     n = at_position (length (pg_stream db pid)) \<and> r \<noteq> Fail Conflict \<and>
     pg_stream db' = (pg_stream db)(pid := pg_stream db pid @ events))"
proof -
  have len: "length (pg_stream db pid) = length (rows_of db pid)" by (simp add: pg_stream_def)
  have at: "position n = length (rows_of db pid) \<longleftrightarrow> n = at_position (length (pg_stream db pid))"
    using fits len by (metis add_lessD1 at_position_position position_at)
  have same: "pg_inv db1 \<and> pg_snap db1 = pg_snap db \<and> pg_stream db1 = pg_stream db" if "same_tables db db1" for db1
    using same_tables_views [OF that] inv by simp
  show ?thesis
  proof (cases "into_bigint n")
    case (Inl e)
    then show ?thesis using append inv by (auto simp: pg_append_def)
  next
    case (Inr nx)
    then have nxt: "nx = int (position n)" by (simp add: into_bigint_Ok)
    show ?thesis
    proof (cases "events = []")
      case True
      obtain a where a: "run_statement (select_next_seq_no pid) db = (a, db')"
        and r: "r = (case a of Err e \<Rightarrow> Fail (Store (Sqlx e)) | Ok actual \<Rightarrow> if actual = nx then Return () else Fail Conflict)"
        using append Inr True by (auto simp: pg_append_def split: prod.splits sum.splits)
      from a show ?thesis
      proof (cases rule: run_statement_cases)
        case (ran db0)
        have "pg_inv db0" "rows_of db0 = rows_of db"
          using same [OF ran(1)] same_tables_rows [OF ran(1)] by simp_all
        then have "db' = db0" and "a = (if int (length (rows_of db pid)) \<le> bigint_max
            then Ok (int (length (rows_of db pid))) else Err (Database (Some ''22003'')))"
          using ran(2) select_next_inv [of db0 pid] by auto
        with same [OF ran(1)] r nxt at True show ?thesis by (auto split: if_splits)
      next
        case (refused e)
        with same r show ?thesis by auto
      next
        case (lost db0 why)
        with same [OF lost(1)] r show ?thesis by auto
      qed
    next
      case False
      show ?thesis
      proof (cases "number_events pid nx 0 events")
        case (Inl e)
        then show ?thesis using append Inr False inv by (auto simp: pg_append_def)
      next
        fix rows
        assume rows: "number_events pid nx 0 events = Ok rows"
        then have nonempty: "length rows \<noteq> 0" using number_events_Ok [OF rows] False by simp
        obtain a where a: "run_statement (insert_events pid rows nx) db = (a, db')"
          and r: "r = (case a of Ok affected \<Rightarrow> if affected = length rows then Return () else Fail Conflict
                       | Err e \<Rightarrow> if is_unique_violation e then Fail Conflict else Fail (Store (Sqlx e)))"
          using append Inr False rows by (auto simp: pg_append_def split: prod.splits sum.splits)
        have ins: "if nx = int (length (rows_of db pid)) \<and> int (length (rows_of db pid)) \<le> bigint_max
            then b = Ok (length rows) \<and> pg_inv db1 \<and> pg_snap db1 = pg_snap db \<and>
              pg_stream db1 = (pg_stream db)(pid := pg_stream db pid @ events)
            else db1 = db0 \<and> (b = Ok 0 \<or> (\<exists>e. b = Err e))"
          if "same_tables db db0" and "insert_events pid rows nx db0 = (b, db1)" for db0 db1 b
        proof -
          have "pg_inv db0" using same [OF that(1)] by simp
          from insert_numbered [OF this rows False that(2)] same_tables_views [OF that(1)]
            same_tables_rows [OF that(1)]
          show ?thesis by simp
        qed
        from a show ?thesis
        proof (cases rule: run_statement_cases)
          case (ran db0)
          from ins [OF ran] same [OF ran(1)] r nonempty nxt at show ?thesis
            by (auto split: if_splits)
        next
          case (refused e)
          with same r show ?thesis by auto
        next
          case (lost db0 why)
          obtain b where b: "insert_events pid rows nx db0 = (b, db')"
            using lost(3) by (metis prod.collapse)
          from ins [OF lost(1) b] same [OF lost(1)] r lost(2) nxt at show ?thesis
            by (auto simp: is_unique_violation_def split: if_splits)
        qed
      qed
    qed
  qed
qed

section \<open>Reads, snapshots and the contract\<close>

lemma collect_rows_events:
  assumes "\<forall>r \<in> set rows. 0 \<le> row_seq_no r \<and> 0 \<le> row_version r \<and> row_version r < 2 ^ 16"
  shows "collect_rows pg_stored_event rows =
    Ok (map (\<lambda>r. \<lparr>stored_seq_no = SeqNo (word_of_int (row_seq_no r)), stored_payload = pg_row_event r\<rparr>) rows)"
  using assms
  by (induction rows) (simp_all add: pg_stored_event_def pg_seq_no_def pg_schema_version_def pg_row_event_def)

text \<open>On a gapless stream the query selects its rows from the position on, already in order.\<close>

lemma select_gapless:
  assumes "map row_seq_no rows = map int [0 ..< length rows]"
  shows "sort_key row_seq_no (filter (\<lambda>r. int k \<le> row_seq_no r) rows) = drop k rows"
proof -
  have nth: "row_seq_no (rows ! i) = int i" if "i < length rows" for i
    using arg_cong [OF assms, of "\<lambda>xs. xs ! i"] that by simp
  have "filter (\<lambda>r. int k \<le> row_seq_no r) (take k rows) = []"
    using nth by (auto simp: filter_empty_conv in_set_conv_nth)
  moreover have "filter (\<lambda>r. int k \<le> row_seq_no r) (drop k rows) = drop k rows"
    using nth by (auto simp: filter_id_conv in_set_conv_nth)
  ultimately have "filter (\<lambda>r. int k \<le> row_seq_no r) rows = drop k rows"
    by (metis append_take_drop_id filter_append self_append_conv2)
  moreover have "sorted (map row_seq_no (drop k rows))"
  proof -
    have "map row_seq_no (drop k rows) = map int [k ..< length rows]"
      using assms by (metis drop_map drop_upt add_0)
    then show ?thesis by (simp add: sorted_iff_nth_mono)
  qed
  ultimately show ?thesis by (simp add: sort_key_id_if_sorted)
qed

lemma pg_read_page:
  assumes inv: "pg_inv db" and "limit < 2 ^ 63" and read: "pg_read pid n limit db = (r, db')"
  shows "same_tables db db' \<and>
    (\<forall>page. r = Return page \<longrightarrow> page = take limit (drop (position n) (numbered (pg_stream db pid))))"
proof (cases "into_bigint n")
  case (Inl e)
  then show ?thesis using read by (auto simp: pg_read_def same_tables_def)
next
  case (Inr start)
  then have start: "start = int (position n)" by (simp add: into_bigint_Ok)
  have limit: "int limit \<le> bigint_max" using assms(2) by (simp add: bigint_max_def)
  obtain a where a: "run_statement (select_events pid start limit) db = (a, db')"
    and r: "r = (case a of Err e \<Rightarrow> Fail (Sqlx e)
                 | Ok rows \<Rightarrow> (case collect_rows pg_stored_event rows of Err e \<Rightarrow> Fail e | Ok evs \<Rightarrow> Return evs))"
    using read Inr limit by (auto simp: pg_read_def Let_def split: prod.splits sum.splits)
  from a show ?thesis
  proof (cases rule: run_statement_cases)
    case (ran db0)
    let ?rows = "rows_of db pid"
    have seqs: "map row_seq_no ?rows = map int [0 ..< length ?rows]"
      and good: "\<forall>r \<in> set ?rows. 0 \<le> row_version r \<and> row_version r < 2 ^ 16"
      using inv by (auto simp: pg_inv_def)
    have nth: "row_seq_no (?rows ! i) = int i" if "i < length ?rows" for i
      using arg_cong [OF seqs, of "\<lambda>xs. xs ! i"] that by simp
    have "a = Ok (take limit (drop (position n) ?rows))" and db': "db' = db0"
      using ran(2) select_gapless [OF seqs] same_tables_rows [OF ran(1)]
      by (auto simp: select_events_def start)
    moreover have "collect_rows pg_stored_event (take limit (drop (position n) ?rows)) =
        Ok (take limit (drop (position n) (numbered (pg_stream db pid))))"
    proof -
      have "\<forall>r \<in> set (take limit (drop (position n) ?rows)). 0 \<le> row_seq_no r \<and> 0 \<le> row_version r \<and> row_version r < 2 ^ 16"
        using good nth by (auto dest!: in_set_takeD in_set_dropD simp: in_set_conv_nth)
      moreover have "map (\<lambda>r. \<lparr>stored_seq_no = SeqNo (word_of_int (row_seq_no r)), stored_payload = pg_row_event r\<rparr>) ?rows
          = numbered (pg_stream db pid)"
        by (rule nth_equalityI) (simp_all add: pg_stream_def nth_numbered nth at_position_def)
      ultimately show ?thesis by (simp add: collect_rows_events flip: take_map drop_map)
    qed
    ultimately show ?thesis using ran(1) r by simp
  next
    case (refused e)
    then show ?thesis using r by auto
  next
    case (lost db0 why)
    then show ?thesis using r by (auto simp: select_events_def)
  qed
qed

lemma pg_save_cases:
  assumes save: "pg_save pid n snapshot db = (r, db')"
  shows "rows_of db' = rows_of db \<and> (pg_snap db' = pg_snap db \<and> r \<noteq> Return () \<or>
    pg_snap db' = (pg_snap db)(pid \<mapsto> \<lparr>stored_next_seq_no = n, stored_encoded = snapshot\<rparr>))"
proof (cases "into_bigint n")
  case (Inl e)
  then show ?thesis using save by (auto simp: pg_save_def)
next
  case (Inr nx)
  let ?row = "\<lparr>snap_entity = pid, snap_next_seq_no = nx, snap_manifest = snapshot_manifest snapshot,
     snap_version = uint (as_u16 (snapshot_version snapshot)), snap_payload = snapshot_payload snapshot\<rparr>"
  obtain a where a: "run_statement (upsert_snapshot ?row) db = (a, db')"
    and r: "r = (case a of Err e \<Rightarrow> Fail (Sqlx e) | Ok _ \<Rightarrow> Return ())"
    using save Inr by (auto simp: pg_save_def split: prod.splits sum.splits)
  have "uint (as_u16 (snapshot_version snapshot)) < 2 ^ 16"
    using uint_lt2p [of "as_u16 (snapshot_version snapshot)"] by simp
  then have stored: "pg_stored_snapshot ?row = Ok \<lparr>stored_next_seq_no = n, stored_encoded = snapshot\<rparr>"
    using Inr by (auto simp: pg_stored_snapshot_def pg_seq_no_def pg_schema_version_def into_bigint_def split: if_splits)
  have find_other: "find (\<lambda>r. snap_entity r = p) (filter (\<lambda>r. snap_entity r \<noteq> pid) xs) = find (\<lambda>r. snap_entity r = p) xs"
    if "p \<noteq> pid" for p xs
    using that by (induction xs) auto
  have up: "rows_of db1 = rows_of db \<and>
      pg_snap db1 = (pg_snap db)(pid \<mapsto> \<lparr>stored_next_seq_no = n, stored_encoded = snapshot\<rparr>)"
    if "same_tables db db0" and "upsert_snapshot ?row db0 = (b, db1)" for db0 db1 b
    using that stored same_tables_rows [OF that(1)]
    by (auto simp: upsert_snapshot_def pg_snap_def same_tables_def fun_eq_iff find_other)
  from a show ?thesis
  proof (cases rule: run_statement_cases)
    case (ran db0)
    with up show ?thesis by blast
  next
    case (refused e)
    then show ?thesis using r same_tables_rows same_tables_views by auto
  next
    case (lost db0 why)
    with up [OF lost(1), of "fst (upsert_snapshot ?row db0)" db'] show ?thesis by simp
  qed
qed

lemma pg_load_cases:
  assumes load: "pg_load pid db = (r, db')"
  shows "same_tables db db' \<and> (\<forall>s. r = Return s \<longrightarrow> s = pg_snap db pid)"
proof -
  obtain a where a: "run_statement (select_snapshot pid) db = (a, db')"
    and r: "r = (case a of Err e \<Rightarrow> Fail (Sqlx e) | Ok None \<Rightarrow> Return None
                 | Ok (Some row) \<Rightarrow> (case pg_stored_snapshot row of Err e \<Rightarrow> Fail e | Ok s \<Rightarrow> Return (Some s)))"
    using load by (auto simp: pg_load_def split: prod.splits sum.splits option.splits)
  from a show ?thesis
    using r
    by (cases rule: run_statement_cases)
      (auto simp: select_snapshot_def pg_snap_def same_tables_def split: sum.splits option.splits)
qed

lemma pg_inv_rows: "rows_of db' = rows_of db \<Longrightarrow> pg_inv db \<Longrightarrow> pg_inv db'"
  by (simp add: pg_inv_def)

lemma run_statement_snapshots:
  assumes "\<And>db. snapshots_table (snd (f db)) = snapshots_table db" and "run_statement f db = (r, db')"
  shows "snapshots_table db' = snapshots_table db"
  using assms(2)
proof (cases rule: run_statement_cases)
  case (ran db0)
  with assms(1) [of db0] show ?thesis by (simp add: same_tables_def)
next
  case (lost db0 why)
  with assms(1) [of db0] show ?thesis by (simp add: same_tables_def)
qed (simp add: same_tables_def)

lemma events_statements_snapshots:
  "snapshots_table (snd (insert_events pid rows nx db)) = snapshots_table db"
  "snapshots_table (snd (select_next_seq_no pid db)) = snapshots_table db"
  "snapshots_table (snd (select_events pid k limit db)) = snapshots_table db"
  by (auto simp: insert_events_def select_events_def split: prod.splits sum.splits)

lemmas run_events_statement = run_statement_snapshots [OF events_statements_snapshots(1)]
  run_statement_snapshots [OF events_statements_snapshots(2)] run_statement_snapshots [OF events_statements_snapshots(3)]

interpretation postgres: storage pg_event_store pg_stream pg_inv pg_snapshot_store pg_snap
proof unfold_locales
  fix db db' pid n and events :: "encoded_event list"
  assume "pg_inv db" and "length (pg_stream db pid) + length events < 2 ^ 64"
  note cases = pg_append_cases [OF this]
  show "es_append pg_event_store pid n events db = (Return (), db') \<Longrightarrow>
      n = at_position (length (pg_stream db pid)) \<and>
      pg_stream db' = (pg_stream db)(pid := pg_stream db pid @ events) \<and> pg_inv db'"
    using cases by (auto simp: pg_event_store_def)
  show "es_append pg_event_store pid n events db = (Fail Conflict, db') \<Longrightarrow> pg_stream db' = pg_stream db \<and> pg_inv db'"
    using cases by (auto simp: pg_event_store_def)
  show "es_append pg_event_store pid n events db = (r, db') \<Longrightarrow> r \<noteq> Return () \<Longrightarrow>
      pg_inv db' \<and> (pg_stream db' = pg_stream db \<or> n = at_position (length (pg_stream db pid)) \<and>
        pg_stream db' = (pg_stream db)(pid := pg_stream db pid @ events))" for r
    using cases by (auto simp: pg_event_store_def)
next
  fix db db' pid n limit p
  assume "pg_inv db" and "limit < 2 ^ 63" and "es_read pg_event_store pid n limit db = (p, db')"
  with pg_read_page [of db limit pid n p db'] same_tables_views [of db db']
  show "pg_stream db' = pg_stream db \<and> pg_inv db' \<and>
      (\<forall>page. p = Return page \<longrightarrow> page = take limit (drop (position n) (numbered (pg_stream db pid))))"
    by (simp add: pg_event_store_def)
next
  fix pid n snapshot db r db'
  assume "ss_save pg_snapshot_store pid n snapshot db = (r, db')"
  then have "pg_save pid n snapshot db = (r, db')" by (simp add: pg_snapshot_store_def)
  note cases = pg_save_cases [OF this]
  then show "pg_snap db' = pg_snap db \<or>
      pg_snap db' = (pg_snap db)(pid \<mapsto> \<lparr>stored_next_seq_no = n, stored_encoded = snapshot\<rparr>)" by blast
  from cases show "pg_stream db' = pg_stream db \<and> (pg_inv db \<longrightarrow> pg_inv db')"
    using pg_inv_rows by (auto simp: pg_stream_def fun_eq_iff)
next
  fix pid db l db'
  assume "ss_load pg_snapshot_store pid db = (l, db')"
  then have "pg_load pid db = (l, db')" by (simp add: pg_snapshot_store_def)
  note cases = pg_load_cases [OF this]
  with same_tables_views [of db db']
  show "pg_snap db' = pg_snap db \<and> (\<forall>s. l = Return s \<longrightarrow> s = pg_snap db pid)" by simp
  from cases same_tables_views [of db db'] show "pg_stream db' = pg_stream db \<and> (pg_inv db \<longrightarrow> pg_inv db')" by simp
next
  fix pid n events db r db'
  assume "es_append pg_event_store pid n events db = (r, db')"
  then have "snapshots_table db' = snapshots_table db"
    by (auto simp: pg_event_store_def pg_append_def split: sum.splits prod.splits if_splits dest: run_events_statement)
  then show "pg_snap db' = pg_snap db" by (simp add: pg_snap_def fun_eq_iff)
next
  fix pid n limit db r db'
  assume "es_read pg_event_store pid n limit db = (r, db')"
  then have "snapshots_table db' = snapshots_table db"
    by (auto simp: pg_event_store_def pg_read_def Let_def split: sum.splits prod.splits dest: run_events_statement)
  then show "pg_snap db' = pg_snap db" by (simp add: pg_snap_def fun_eq_iff)
qed

text \<open>
  C31: The PostgreSQL store keeps the contract of \<^verbatim>\<open>EventStore::append\<close>, whatever the database
  refuses and whichever replies get lost. If the append returns, the given position was the end of
  the stream and the whole batch has been appended; if it reports a conflict, no stream has
  changed; if it fails otherwise, it is all or nothing; and all streams stay gapless.
\<close>

theorem postgres_append_contract:
  assumes "pg_inv db" and "length (pg_stream db pid) + length events < 2 ^ 64"
    and "pg_append pid n events db = (r, db')"
  shows "pg_inv db' \<and>
    (case r of
       Return _ \<Rightarrow> position n = length (pg_stream db pid) \<and>
         pg_stream db' = (pg_stream db)(pid := pg_stream db pid @ events)
     | Fail Conflict \<Rightarrow> pg_stream db' = pg_stream db
     | _ \<Rightarrow> pg_stream db' = pg_stream db \<or>
         position n = length (pg_stream db pid) \<and>
         pg_stream db' = (pg_stream db)(pid := pg_stream db pid @ events))"
  using pg_append_cases [OF assms] assms(2)
  by (auto split: call.splits append_error.splits)

text \<open>A first event whose reply is lost, and a stale second attempt.\<close>

definition pg_demo :: pg_pool where
  "pg_demo = \<lparr>events_table = [], snapshots_table = [], outcomes = [ReplyLost ''connection reset'']\<rparr>"

theorem postgres_append_contract_witness:
  "\<exists>r db'. pg_append \<lparr>entity_type = ''a'', entity_id = ''b''\<rparr> (SeqNo 0)
       [\<lparr>event_manifest = ''m'', event_version = SchemaVersion 1, event_payload = []\<rparr>] pg_demo = (r, db') \<and>
     pg_inv db' \<and> r = Fail (Store (Sqlx (Io ''connection reset''))) \<and>
     length (pg_stream db' \<lparr>entity_type = ''a'', entity_id = ''b''\<rparr>) = 1"
proof -
  let ?pid = "\<lparr>entity_type = ''a'', entity_id = ''b''\<rparr>"
  let ?ev = "\<lparr>event_manifest = ''m'', event_version = SchemaVersion 1, event_payload = []\<rparr>"
  obtain r db' where run: "pg_append ?pid (SeqNo 0) [?ev] pg_demo = (r, db')"
    by (cases "pg_append ?pid (SeqNo 0) [?ev] pg_demo")
  have "fst (pg_append ?pid (SeqNo 0) [?ev] pg_demo) = Fail (Store (Sqlx (Io ''connection reset''))) \<and>
      length (pg_stream (snd (pg_append ?pid (SeqNo 0) [?ev] pg_demo)) ?pid) = 1"
    by code_simp
  moreover have "pg_inv pg_demo" by (simp add: pg_inv_def pg_demo_def rows_of_def)
  then have "pg_inv db'"
    using postgres_append_contract [OF _ _ run] by (simp add: pg_demo_def pg_stream_def rows_of_def)
  ultimately show ?thesis using run by simp
qed

end
