(* ===== verification/StoreChecks.thy ===== *)
theory StoreChecks
  imports Postgres
begin

text \<open>
  \<^verbatim>\<open>tellus/src/persistence_tests.rs\<close>: the checks the crate offers to the authors of stores. A check
  runs on a storage and the process-wide counter of fresh IDs; a violated assertion or a failed
  \<^verbatim>\<open>expect\<close> panics, which is \<^const>\<open>None\<close>. What \<^verbatim>\<open>SystemTime\<close> says when an ID is drawn is an
  argument, as is the order in which the runtime executes racing tasks.
\<close>

section \<open>Checks\<close>

type_synonym ('a, 'st) check = "'st \<times> u64 \<Rightarrow> ('a \<times> ('st \<times> u64)) option"

definition check_return :: "'a \<Rightarrow> ('a, 'st) check" where
  "check_return a s = Some (a, s)"

definition check_bind :: "('a, 'st) check \<Rightarrow> ('a \<Rightarrow> ('b, 'st) check) \<Rightarrow> ('b, 'st) check" where
  "check_bind m f s = (case m s of None \<Rightarrow> None | Some (a, s') \<Rightarrow> f a s')"

definition check_assert :: "bool \<Rightarrow> (unit, 'st) check" where
  "check_assert b s = (if b then Some ((), s) else None)"

fun check_each :: "('a \<Rightarrow> (unit, 'st) check) \<Rightarrow> 'a list \<Rightarrow> (unit, 'st) check" where
  "check_each f [] = check_return ()"
| "check_each f (x # xs) = check_bind (f x) (\<lambda>_. check_each f xs)"

text \<open>\<^verbatim>\<open>expect\<close> on the result of a call to a store, and the assertion that it is a conflict.\<close>

definition expect_return :: "('st \<Rightarrow> ('a, 'e) call \<times> 'st) \<Rightarrow> ('a, 'st) check" where
  "expect_return f = (\<lambda>(st, count). case f st of (Return a, st') \<Rightarrow> Some (a, (st', count)) | _ \<Rightarrow> None)"

definition expect_conflict :: "('st \<Rightarrow> ('a, 'e append_error) call \<times> 'st) \<Rightarrow> (unit, 'st) check" where
  "expect_conflict f =
     (\<lambda>(st, count). case f st of (Fail Conflict, st') \<Rightarrow> Some ((), (st', count)) | _ \<Rightarrow> None)"

type_synonym wall_clock = "u64 \<Rightarrow> (duration, duration) result"

definition unique_persistence_id :: "wall_clock \<Rightarrow> (persistence_id, 'st) check" where
  "unique_persistence_id clock = (\<lambda>(st, count).
     case clock count of
       Err _ \<Rightarrow> None
     | Ok nanos \<Rightarrow>
         (case persistence_id_new ''contract'' (decimal nanos @ ''-'' @ decimal (unat count)) of
            Err _ \<Rightarrow> None
          | Ok pid \<Rightarrow> Some (pid, (st, count + 1))))"

definition LIMIT :: nat where
  "LIMIT = 1024"

definition sample_events :: "nat \<Rightarrow> encoded_event list" where
  "sample_events events =
     map (\<lambda>n. \<lparr>event_manifest = ''contract-event'', event_version = SchemaVersion (of_nat n + 1),
               event_payload = [0xC0, of_nat n, 0xFF]\<rparr>) [0 ..< events]"

definition writer_events :: "8 word \<Rightarrow> encoded_event list" where
  "writer_events writer =
     map (\<lambda>n. \<lparr>event_manifest = ''contract-event'', event_version = SchemaVersion 1,
               event_payload = [0xC2, writer, of_nat n]\<rparr>) [0 ..< 3]"

definition sample_snapshot :: "8 word \<Rightarrow> encoded_snapshot" where
  "sample_snapshot tag =
     \<lparr>snapshot_manifest = ''contract-snapshot'', snapshot_version = SchemaVersion 1, snapshot_payload = [0xC1, tag]\<rparr>"

section \<open>Checks of event stores\<close>

text \<open>\<^verbatim>\<open>for (n, stored) in stored.iter().enumerate()\<close> with the assertion of its body.\<close>

definition check_stored :: "(nat \<Rightarrow> stored_event \<Rightarrow> bool) \<Rightarrow> stored_event list \<Rightarrow> (unit, 'st) check" where
  "check_stored good stored = check_each (\<lambda>(n, s). check_assert (good n s)) (enumerate 0 stored)"

text \<open>\<^verbatim>\<open>events[n]\<close> panics out of range.\<close>

definition same_event :: "encoded_event list \<Rightarrow> nat \<Rightarrow> stored_event \<Rightarrow> bool" where
  "same_event events n stored \<longleftrightarrow> n < length events \<and> stored_payload stored = events ! n"

definition append_then_read_round_trips :: "wall_clock \<Rightarrow> ('st, 'x) event_store \<Rightarrow> (unit, 'st) check" where
  "append_then_read_round_trips clock es =
     check_bind (unique_persistence_id clock) (\<lambda>pid.
     let events = sample_events 3 in
     check_bind (expect_return (es_append es pid seq_no_zero events)) (\<lambda>_.
     check_bind (expect_return (es_read es pid seq_no_zero LIMIT)) (\<lambda>stored.
     check_bind (check_assert (length stored = length events)) (\<lambda>_.
     check_stored (\<lambda>n s. stored_seq_no s = SeqNo (of_nat n) \<and> same_event events n s) stored))))"

definition conflicting_append_is_rejected_and_leaves_the_stream_untouched ::
  "wall_clock \<Rightarrow> ('st, 'x) event_store \<Rightarrow> (unit, 'st) check" where
  "conflicting_append_is_rejected_and_leaves_the_stream_untouched clock es =
     check_bind (unique_persistence_id clock) (\<lambda>pid.
     let events = sample_events 2 in
     check_bind (expect_return (es_append es pid seq_no_zero events)) (\<lambda>_.
     check_bind (check_each (\<lambda>stale. expect_conflict (es_append es pid stale (sample_events 3)))
                   (map SeqNo [0, 1, 7])) (\<lambda>_.
     check_bind (expect_return (es_read es pid seq_no_zero LIMIT)) (\<lambda>stored.
     check_bind (check_assert (length stored = length events)) (\<lambda>_.
     check_stored (same_event events) stored)))))"

definition an_empty_append_is_fenced :: "wall_clock \<Rightarrow> ('st, 'x) event_store \<Rightarrow> (unit, 'st) check" where
  "an_empty_append_is_fenced clock es =
     check_bind (unique_persistence_id clock) (\<lambda>pid.
     check_bind (expect_return (es_append es pid seq_no_zero [])) (\<lambda>_.
     let events = sample_events 2 in
     check_bind (expect_return (es_append es pid seq_no_zero events)) (\<lambda>_.
     check_bind (expect_return (es_append es pid (SeqNo 2) [])) (\<lambda>_.
     check_bind (check_each (\<lambda>stale. expect_conflict (es_append es pid stale [])) (map SeqNo [0, 1, 7])) (\<lambda>_.
     check_bind (expect_return (es_read es pid seq_no_zero LIMIT)) (\<lambda>stored.
     check_assert (length stored = length events)))))))"

text \<open>
  The writer tasks append in the order the runtime runs them. Joining them yields the winners and
  the number of conflicts; the order of joining only permutes the winners, of which there must be
  exactly one.
\<close>

definition WRITERS :: nat where
  "WRITERS = 8"

fun racing_appends ::
  "('st, 'x) event_store \<Rightarrow> persistence_id \<Rightarrow> 8 word list \<Rightarrow> (8 word list \<times> nat, 'st) check" where
  "racing_appends es pid [] s = Some (([], 0), s)"
| "racing_appends es pid (writer # writers) (st, count) =
     (case es_append es pid seq_no_zero (writer_events writer) st of
        (Return _, st') \<Rightarrow>
          map_option (\<lambda>((winners, conflicts), s). ((writer # winners, conflicts), s))
            (racing_appends es pid writers (st', count))
      | (Fail Conflict, st') \<Rightarrow>
          map_option (\<lambda>((winners, conflicts), s). ((winners, conflicts + 1), s))
            (racing_appends es pid writers (st', count))
      | _ \<Rightarrow> None)"

definition concurrent_appends_are_fenced ::
  "wall_clock \<Rightarrow> (8 word list \<Rightarrow> 8 word list) \<Rightarrow> ('st, 'x) event_store \<Rightarrow> (unit, 'st) check" where
  "concurrent_appends_are_fenced clock sched es =
     check_bind (unique_persistence_id clock) (\<lambda>pid.
     check_bind (racing_appends es pid (sched (map of_nat [0 ..< WRITERS]))) (\<lambda>(winners, conflicts).
     check_bind (check_assert (length winners = 1)) (\<lambda>_.
     check_bind (check_assert (conflicts = WRITERS - 1)) (\<lambda>_.
     check_bind (expect_return (es_read es pid seq_no_zero LIMIT)) (\<lambda>stored.
     check_bind (check_assert (map stored_seq_no stored =
                   map (\<lambda>n. SeqNo (of_nat n)) [0 ..< length (writer_events (winners ! 0))])) (\<lambda>_.
     check_assert (map stored_payload stored = writer_events (winners ! 0))))))))"

definition streams_are_isolated :: "wall_clock \<Rightarrow> ('st, 'x) event_store \<Rightarrow> (unit, 'st) check" where
  "streams_are_isolated clock es =
     check_bind (unique_persistence_id clock) (\<lambda>pid_a.
     check_bind (unique_persistence_id clock) (\<lambda>pid_b.
     let events_a = sample_events 2; events_b = sample_events 1 in
     check_bind (expect_return (es_append es pid_a seq_no_zero [events_a ! 0])) (\<lambda>_.
     check_bind (expect_return (es_append es pid_b seq_no_zero events_b)) (\<lambda>_.
     check_bind (expect_return (es_append es pid_a (SeqNo 1) [events_a ! 1])) (\<lambda>_.
     check_bind (expect_return (es_read es pid_a seq_no_zero LIMIT)) (\<lambda>stored_a.
     check_bind (expect_return (es_read es pid_b seq_no_zero LIMIT)) (\<lambda>stored_b.
     check_bind (check_assert (map stored_seq_no stored_a = [seq_no_zero, SeqNo 1])) (\<lambda>_.
     check_bind (check_assert (map stored_seq_no stored_b = [seq_no_zero])) (\<lambda>_.
     check_bind (check_assert (map stored_payload stored_a = events_a)) (\<lambda>_.
     check_assert (map stored_payload stored_b = events_b)))))))))))"

definition reads_are_paged_and_inclusive :: "wall_clock \<Rightarrow> ('st, 'x) event_store \<Rightarrow> (unit, 'st) check" where
  "reads_are_paged_and_inclusive clock es =
     check_bind (unique_persistence_id clock) (\<lambda>pid.
     check_bind (expect_return (es_append es pid seq_no_zero (sample_events 5))) (\<lambda>_.
     check_bind (expect_return (es_read es pid (SeqNo 1) 2)) (\<lambda>page.
     check_bind (check_assert (map stored_seq_no page = [SeqNo 1, SeqNo 2])) (\<lambda>_.
     check_bind (expect_return (es_read es pid (SeqNo 3) LIMIT)) (\<lambda>tail.
     check_bind (check_assert (map stored_seq_no tail = [SeqNo 3, SeqNo 4])) (\<lambda>_.
     check_bind (expect_return (es_read es pid (SeqNo 5) LIMIT)) (\<lambda>beyond.
     check_bind (check_assert (beyond = [])) (\<lambda>_.
     check_bind (unique_persistence_id clock) (\<lambda>other.
     check_bind (expect_return (es_read es other seq_no_zero LIMIT)) (\<lambda>unknown.
     check_assert (unknown = [])))))))))))"

definition event_store_checks ::
  "wall_clock \<Rightarrow> (8 word list \<Rightarrow> 8 word list) \<Rightarrow> ('st, 'x) event_store \<Rightarrow> (unit, 'st) check" where
  "event_store_checks clock sched es =
     check_bind (append_then_read_round_trips clock es) (\<lambda>_.
     check_bind (conflicting_append_is_rejected_and_leaves_the_stream_untouched clock es) (\<lambda>_.
     check_bind (an_empty_append_is_fenced clock es) (\<lambda>_.
     check_bind (concurrent_appends_are_fenced clock sched es) (\<lambda>_.
     check_bind (streams_are_isolated clock es) (\<lambda>_.
     reads_are_paged_and_inclusive clock es)))))"

section \<open>Checks of snapshot stores\<close>

definition snapshots_round_trip_and_the_latest_wins ::
  "wall_clock \<Rightarrow> ('st, 'y) snapshot_store \<Rightarrow> (unit, 'st) check" where
  "snapshots_round_trip_and_the_latest_wins clock ss =
     check_bind (unique_persistence_id clock) (\<lambda>pid.
     check_bind (expect_return (ss_load ss pid)) (\<lambda>unknown.
     check_bind (check_assert (unknown = None)) (\<lambda>_.
     check_bind (expect_return (ss_save ss pid (SeqNo 3) (sample_snapshot 1))) (\<lambda>_.
     check_bind (expect_return (ss_load ss pid)) (\<lambda>loaded.
     check_bind (check_assert
       (loaded = Some \<lparr>stored_next_seq_no = SeqNo 3, stored_encoded = sample_snapshot 1\<rparr>)) (\<lambda>_.
     check_bind (expect_return (ss_save ss pid (SeqNo 6) (sample_snapshot 2))) (\<lambda>_.
     check_bind (expect_return (ss_load ss pid)) (\<lambda>loaded.
     check_assert
       (loaded = Some \<lparr>stored_next_seq_no = SeqNo 6, stored_encoded = sample_snapshot 2\<rparr>)))))))))"

definition snapshot_store_checks :: "wall_clock \<Rightarrow> ('st, 'y) snapshot_store \<Rightarrow> (unit, 'st) check" where
  "snapshot_store_checks clock ss = snapshots_round_trip_and_the_latest_wins clock ss"

definition snapshot_with_event_tail ::
  "wall_clock \<Rightarrow> ('st, 'x) event_store \<Rightarrow> ('st, 'y) snapshot_store \<Rightarrow> (unit, 'st) check" where
  "snapshot_with_event_tail clock es ss =
     check_bind (unique_persistence_id clock) (\<lambda>pid.
     check_bind (expect_return (es_append es pid seq_no_zero (sample_events 5))) (\<lambda>_.
     check_bind (expect_return (ss_save ss pid (SeqNo 3) (sample_snapshot 1))) (\<lambda>_.
     check_bind (expect_return (ss_load ss pid)) (\<lambda>loaded.
     case loaded of
       None \<Rightarrow> (\<lambda>s. None)
     | Some snapshot \<Rightarrow>
         check_bind (check_assert (stored_next_seq_no snapshot = SeqNo 3)) (\<lambda>_.
         check_bind (expect_return (es_read es pid (stored_next_seq_no snapshot) LIMIT)) (\<lambda>tail.
         check_assert (map stored_seq_no tail = [SeqNo 3, SeqNo 4])))))))"

section \<open>Drawing IDs\<close>

definition drawn_id :: "wall_clock \<Rightarrow> u64 \<Rightarrow> persistence_id" where
  "drawn_id clock k =
     \<lparr>entity_type = ''contract'',
      entity_id = decimal (case clock k of Ok nanos \<Rightarrow> nanos | Err _ \<Rightarrow> 0) @ ''-'' @ decimal (unat k)\<rparr>"

text \<open>The wall clock is not before the epoch, and a \<^verbatim>\<open>Duration\<close> is bounded.\<close>

definition clock_ok :: "wall_clock \<Rightarrow> bool" where
  "clock_ok clock \<longleftrightarrow> (\<forall>k. case clock k of Ok nanos \<Rightarrow> nanos \<le> duration_max | Err _ \<Rightarrow> False)"

lemma drawn_id_inject [simp]: "drawn_id clock j = drawn_id clock k \<longleftrightarrow> j = k"
proof
  assume "drawn_id clock j = drawn_id clock k"
  then have "split_once (CHR ''-'') (entity_id (drawn_id clock j)) =
      split_once (CHR ''-'') (entity_id (drawn_id clock k))" by simp
  then have "decimal (unat j) = decimal (unat k)"
    by (simp add: drawn_id_def split_once_append)
  then have "unat j = unat k" by (metis undecimal_decimal)
  then show "j = k" by (simp add: word_unat_eq_iff)
qed simp

lemma drawn_ids_distinct: "n \<le> 2 ^ 64 \<Longrightarrow> distinct (map (\<lambda>i. drawn_id clock (k + of_nat i)) [0 ..< n])"
proof -
  assume n: "n \<le> 2 ^ 64"
  have "i = j" if "i < n" "j < n" "(of_nat i :: u64) = of_nat j" for i j
  proof -
    have "unat (of_nat i :: u64) = i" "unat (of_nat j :: u64) = j"
      using that(1,2) n unat_of_nat_small [of i, where 'n = 64] unat_of_nat_small [of j, where 'n = 64] by auto
    with that(3) show ?thesis by metis
  qed
  then show ?thesis by (auto simp: distinct_map inj_on_def drawn_id_inject)
qed

lemma unique_persistence_id_run:
  assumes "clock_ok clock"
  shows "unique_persistence_id clock (st, k) = Some (drawn_id clock k, (st, k + 1))"
proof -
  obtain nanos where clock: "clock k = Ok nanos" "nanos \<le> duration_max"
    using assms unfolding clock_ok_def by (cases "clock k") (auto dest: spec [of _ k])
  have "length (decimal nanos) \<le> Suc 30"
    using clock(2) by (intro decimal_length) (simp add: duration_max_def)
  moreover have "length (decimal (unat k)) \<le> Suc 20"
    using unat_less_exp [of k] by (intro decimal_length) simp
  ultimately show ?thesis
    by (simp add: unique_persistence_id_def clock persistence_id_new_def valid_segment_def
        MAX_SEGMENT_LEN_def drawn_id_def)
qed

section \<open>Stores that do not fail\<close>

text \<open>
  The contracts let any call fail. A check passes only on a storage whose calls succeed where they
  can: an append at the end of the stream returns, a stale one is a conflict, reads, saves and
  loads return. Positions are below $2^{63}$, the range of the narrowest store.
\<close>

locale reliable_storage = storage es stream inv ss snap + keeping_snapshot_store ss snap
  for es :: "('st, 'x) event_store" and stream :: "'st \<Rightarrow> persistence_id \<Rightarrow> encoded_event list"
    and inv :: "'st \<Rightarrow> bool" and ss :: "('st, 'y) snapshot_store"
    and snap :: "'st \<Rightarrow> persistence_id \<Rightarrow> stored_snapshot option" +
  assumes append_decides:
      "\<lbrakk>inv st; position n + length events < 2 ^ 63; length (stream st pid) + length events < 2 ^ 63\<rbrakk>
       \<Longrightarrow> fst (es_append es pid n events st) =
           (if position n = length (stream st pid) then Return () else Fail Conflict)"
    and read_returns:
      "\<lbrakk>inv st; position n < 2 ^ 63; limit < 2 ^ 63\<rbrakk> \<Longrightarrow> \<exists>page. fst (es_read es pid n limit st) = Return page"
    and save_returns: "\<lbrakk>inv st; position n < 2 ^ 63\<rbrakk> \<Longrightarrow> fst (ss_save ss pid n snapshot st) = Return ()"
    and load_returns: "inv st \<Longrightarrow> \<exists>loaded. fst (ss_load ss pid st) = Return loaded"

lemma position_SeqNo [simp]: "position (SeqNo n) = unat n"
  by (simp add: position_def)

lemma length_sample_events [simp]: "length (sample_events n) = n"
  by (simp add: sample_events_def)

lemma length_writer_events [simp]: "length (writer_events w) = 3"
  by (simp add: writer_events_def)

text \<open>A check passes from a state and ends in one with the given property.\<close>

definition passes :: "('a, 'st) check \<Rightarrow> ('a \<Rightarrow> 'st \<times> u64 \<Rightarrow> bool) \<Rightarrow> 'st \<times> u64 \<Rightarrow> bool" where
  "passes m Q s \<longleftrightarrow> (\<exists>a s'. m s = Some (a, s') \<and> Q a s')"

named_theorems passes_rules \<open>one step of a check, backwards\<close>

lemma passes_bind [passes_rules]:
  "passes m (\<lambda>a. passes (f a) Q) s \<Longrightarrow> passes (check_bind m f) Q s"
  by (auto simp: passes_def check_bind_def)

lemma passes_return [passes_rules]: "Q a s \<Longrightarrow> passes (check_return a) Q s"
  by (simp add: passes_def check_return_def)

lemma passes_assert [passes_rules]: "b \<Longrightarrow> Q () s \<Longrightarrow> passes (check_assert b) Q s"
  by (simp add: passes_def check_assert_def)

lemma passes_mono: "passes m Q s \<Longrightarrow> (\<And>a s'. Q a s' \<Longrightarrow> R a s') \<Longrightarrow> passes m R s"
  by (auto simp: passes_def)

lemma passes_draw [passes_rules]:
  "clock_ok clock \<Longrightarrow> Q (drawn_id clock k) (st, k + 1) \<Longrightarrow> passes (unique_persistence_id clock) Q (st, k)"
  by (simp add: passes_def unique_persistence_id_run)

text \<open>A loop of checks keeps an invariant of the state.\<close>

lemma passes_each:
  assumes "J s" and "\<And>x s. x \<in> set xs \<Longrightarrow> J s \<Longrightarrow> passes (f x) (\<lambda>_. J) s" and "\<And>s. J s \<Longrightarrow> Q () s"
  shows "passes (check_each f xs) Q s"
  using assms(1,2)
proof (induction xs arbitrary: s)
  case Nil
  then show ?case using assms(3) by (simp add: passes_return)
next
  case (Cons x xs)
  have "passes (f x) (\<lambda>_. J) s" using Cons.prems by simp
  then have "passes (f x) (\<lambda>_. passes (check_each f xs) Q) s"
    by (rule passes_mono) (rule Cons.IH, simp_all add: Cons.prems(2))
  then show ?case by (simp add: passes_bind)
qed

lemma passes_stored [passes_rules]:
  assumes "Q () s" and "\<And>n. n < length stored \<Longrightarrow> good n (stored ! n)"
  shows "passes (check_stored good stored) Q s"
  unfolding check_stored_def using assms
  by (auto intro!: passes_each [where J = "\<lambda>s'. s' = s"] passes_assert simp: in_set_enumerate_eq)

context reliable_storage
begin

lemma passes_append [passes_rules]:
  assumes "inv st" and "position n = length (stream st pid)"
    and "length (stream st pid) + length events < 2 ^ 63"
    and post: "\<And>st'. inv st' \<Longrightarrow> stream st' = (stream st)(pid := stream st pid @ events) \<Longrightarrow>
      snap st' = snap st \<Longrightarrow> Q () (st', k)"
  shows "passes (expect_return (es_append es pid n events)) Q (st, k)"
proof (cases "es_append es pid n events st")
  case (Pair r st')
  then have r: "r = Return ()"
    using append_decides [OF assms(1), of n events pid] assms(2,3) by simp
  have "length (stream st pid) + length events < 2 ^ 64" using assms(3) by simp
  from append_ok [OF assms(1) this Pair [unfolded r]] append_snap [OF Pair] post Pair r
  show ?thesis by (simp add: passes_def expect_return_def)
qed

lemma passes_conflict:
  assumes "inv st" and "position n + length events < 2 ^ 63" and "position n \<noteq> length (stream st pid)"
    and "length (stream st pid) + length events < 2 ^ 63"
    and post: "\<And>st'. inv st' \<Longrightarrow> stream st' = stream st \<Longrightarrow> snap st' = snap st \<Longrightarrow> Q () (st', k)"
  shows "passes (expect_conflict (es_append es pid n events)) Q (st, k)"
proof (cases "es_append es pid n events st")
  case (Pair r st')
  then have r: "r = Fail Conflict"
    using append_decides [OF assms(1,2,4)] assms(3) by simp
  have "length (stream st pid) + length events < 2 ^ 64" using assms(4) by simp
  from append_conflict [OF assms(1) this Pair [unfolded r]] append_snap [OF Pair] post Pair r
  show ?thesis by (simp add: passes_def expect_conflict_def)
qed

lemma passes_stale [passes_rules]:
  assumes "inv st" and "\<forall>n \<in> set stale. position n + length events < 2 ^ 63 \<and> position n \<noteq> length (stream st pid)"
    and "length (stream st pid) + length events < 2 ^ 63"
    and post: "\<And>st'. inv st' \<Longrightarrow> stream st' = stream st \<Longrightarrow> snap st' = snap st \<Longrightarrow> Q () (st', k)"
  shows "passes (check_each (\<lambda>n. expect_conflict (es_append es pid n events)) stale) Q (st, k)"
proof (rule passes_each [where J = "\<lambda>(st', k'). inv st' \<and> stream st' = stream st \<and> snap st' = snap st \<and> k' = k"])
  fix n s
  assume "n \<in> set stale" and "case s of (st', k') \<Rightarrow> inv st' \<and> stream st' = stream st \<and> snap st' = snap st \<and> k' = k"
  then show "passes (expect_conflict (es_append es pid n events))
      (\<lambda>_ (st', k'). inv st' \<and> stream st' = stream st \<and> snap st' = snap st \<and> k' = k) s"
    using assms(2,3) by (cases s) (auto intro!: passes_conflict)
qed (use assms(1) post in auto)

lemma passes_read [passes_rules]:
  assumes "inv st" and "position n < 2 ^ 63" and "limit < 2 ^ 63"
    and post: "\<And>st'. inv st' \<Longrightarrow> stream st' = stream st \<Longrightarrow> snap st' = snap st \<Longrightarrow>
      Q (take limit (drop (position n) (numbered (stream st pid)))) (st', k)"
  shows "passes (expect_return (es_read es pid n limit)) Q (st, k)"
proof (cases "es_read es pid n limit st")
  case (Pair r st')
  obtain page where "r = Return page" using read_returns [OF assms(1-3), of pid] Pair by auto
  with read_page [OF assms(1,3) Pair] read_snap [OF Pair] post Pair
  show ?thesis by (simp add: passes_def expect_return_def)
qed

lemma passes_save [passes_rules]:
  assumes "inv st" and "position n < 2 ^ 63"
    and post: "\<And>st'. inv st' \<Longrightarrow> stream st' = stream st \<Longrightarrow>
      snap st' = (snap st)(pid \<mapsto> \<lparr>stored_next_seq_no = n, stored_encoded = snapshot\<rparr>) \<Longrightarrow> Q () (st', k)"
  shows "passes (expect_return (ss_save ss pid n snapshot)) Q (st, k)"
proof (cases "ss_save ss pid n snapshot st")
  case (Pair r st')
  then have r: "r = Return ()" using save_returns [OF assms(1,2), of pid snapshot] by simp
  from save_ok [OF Pair [unfolded r]] save_stream [OF Pair] post assms(1) Pair r
  show ?thesis by (simp add: passes_def expect_return_def)
qed

lemma passes_load [passes_rules]:
  assumes "inv st"
    and post: "\<And>st'. inv st' \<Longrightarrow> stream st' = stream st \<Longrightarrow> snap st' = snap st \<Longrightarrow> Q (snap st pid) (st', k)"
  shows "passes (expect_return (ss_load ss pid)) Q (st, k)"
proof (cases "ss_load ss pid st")
  case (Pair r st')
  obtain s where "r = Return s" using load_returns [OF assms(1), of pid] Pair by auto
  with load_snap [OF Pair] load_stream [OF Pair] post assms(1) Pair
  show ?thesis by (simp add: passes_def expect_return_def)
qed

text \<open>
  A check that draws \<open>n\<close> IDs passes on every storage that holds nothing under them, and leaves all
  other IDs alone.
\<close>

definition unused :: "wall_clock \<Rightarrow> 'st \<Rightarrow> u64 \<Rightarrow> nat \<Rightarrow> bool" where
  "unused clock st k n \<longleftrightarrow>
     (\<forall>i < n. stream st (drawn_id clock (k + of_nat i)) = [] \<and> snap st (drawn_id clock (k + of_nat i)) = None)"

definition left_alone :: "wall_clock \<Rightarrow> 'st \<Rightarrow> u64 \<Rightarrow> nat \<Rightarrow> 'st \<Rightarrow> bool" where
  "left_alone clock st k n st' \<longleftrightarrow>
     (\<forall>pid. (\<forall>i < n. pid \<noteq> drawn_id clock (k + of_nat i)) \<longrightarrow>
        stream st' pid = stream st pid \<and> snap st' pid = snap st pid)"

definition accepted :: "wall_clock \<Rightarrow> nat \<Rightarrow> (unit, 'st) check \<Rightarrow> bool" where
  "accepted clock n m \<longleftrightarrow>
     (\<forall>st k. inv st \<longrightarrow> unused clock st k n \<longrightarrow>
        passes m (\<lambda>_ (st', k'). inv st' \<and> k' = k + of_nat n \<and> left_alone clock st k n st') (st, k))"

lemma accepted_seq:
  assumes "accepted clock i m" and "accepted clock j m'" and "i + j \<le> 2 ^ 64"
  shows "accepted clock (i + j) (check_bind m (\<lambda>_. m'))"
  unfolding accepted_def
proof (intro allI impI passes_bind)
  fix st k
  assume inv: "inv st" and unused: "unused clock st k (i + j)"
  then have "unused clock st k i" by (simp add: unused_def)
  with assms(1) inv have first: "passes m (\<lambda>_ (st', k'). inv st' \<and> k' = k + of_nat i \<and> left_alone clock st k i st') (st, k)"
    by (simp add: accepted_def)
  show "passes m (\<lambda>_. passes m' (\<lambda>_ (st', k'). inv st' \<and> k' = k + of_nat (i + j) \<and>
      left_alone clock st k (i + j) st')) (st, k)"
  proof (rule passes_mono [OF first], clarify)
    fix st1
    assume st1: "inv st1" and alone: "left_alone clock st k i st1"
    have differ: "k + of_nat i + of_nat b \<noteq> k + of_nat a" if "a < i" "b < j" for a b
    proof
      assume "k + of_nat i + of_nat b = k + of_nat a"
      then have "of_nat (i + b) = (of_nat a :: u64)" by (simp add: add.assoc)
      moreover have "unat (of_nat (i + b) :: u64) = i + b" "unat (of_nat a :: u64) = a"
        using that assms(3) by (intro unat_of_nat_small; simp)+
      ultimately have "i + b = a" by metis
      with that show False by simp
    qed
    have "unused clock st1 (k + of_nat i) j"
      unfolding unused_def
    proof (intro allI impI)
      fix b
      assume "b < j"
      let ?id = "drawn_id clock (k + of_nat i + of_nat b)"
      have "stream st1 ?id = stream st ?id \<and> snap st1 ?id = snap st ?id"
        using alone differ \<open>b < j\<close> by (simp add: left_alone_def)
      moreover have "stream st ?id = [] \<and> snap st ?id = None"
        using unused [unfolded unused_def, rule_format, of "i + b"] \<open>b < j\<close> by (simp add: add.assoc)
      ultimately show "stream st1 ?id = [] \<and> snap st1 ?id = None" by simp
    qed
    with assms(2) st1 have "passes m' (\<lambda>_ (st', k'). inv st' \<and> k' = k + of_nat i + of_nat j \<and>
        left_alone clock st1 (k + of_nat i) j st') (st1, k + of_nat i)"
      by (simp add: accepted_def)
    moreover have "left_alone clock st k (i + j) st2" if "left_alone clock st1 (k + of_nat i) j st2" for st2
      unfolding left_alone_def
    proof (intro allI impI)
      fix pid
      assume other: "\<forall>a < i + j. pid \<noteq> drawn_id clock (k + of_nat a)"
      then have "\<forall>b < j. pid \<noteq> drawn_id clock (k + of_nat i + of_nat b)"
        by (metis add.assoc nat_add_left_cancel_less of_nat_add)
      with other alone that show "stream st2 pid = stream st pid \<and> snap st2 pid = snap st pid"
        by (simp add: left_alone_def)
    qed
    ultimately show "passes m' (\<lambda>_ (st', k'). inv st' \<and> k' = k + of_nat (i + j) \<and>
        left_alone clock st k (i + j) st') (st1, k + of_nat i)"
      by (elim passes_mono) (auto simp: add.assoc)
  qed
qed

lemma accepted_one:
  assumes "\<And>st k. \<lbrakk>inv st; stream st (drawn_id clock k) = []; snap st (drawn_id clock k) = None\<rbrakk> \<Longrightarrow>
      passes m (\<lambda>_ (st', k'). inv st' \<and> k' = k + 1 \<and>
        (\<forall>pid. pid \<noteq> drawn_id clock k \<longrightarrow> stream st' pid = stream st pid \<and> snap st' pid = snap st pid)) (st, k)"
  shows "accepted clock 1 m"
  using assms by (simp add: accepted_def unused_def left_alone_def)

lemma accepted_two:
  assumes "\<And>st k. \<lbrakk>inv st; stream st (drawn_id clock k) = []; stream st (drawn_id clock (k + 1)) = []\<rbrakk> \<Longrightarrow>
      passes m (\<lambda>_ (st', k'). inv st' \<and> k' = k + 2 \<and>
        (\<forall>pid. pid \<noteq> drawn_id clock k \<and> pid \<noteq> drawn_id clock (k + 1) \<longrightarrow>
           stream st' pid = stream st pid \<and> snap st' pid = snap st pid)) (st, k)"
  shows "accepted clock 2 m"
  using assms by (simp add: accepted_def unused_def left_alone_def numeral_2_eq_2 less_Suc_eq all_conj_distrib)

lemma round_trip_accepted:
  "clock_ok clock \<Longrightarrow> accepted clock 1 (append_then_read_round_trips clock es)"
  unfolding append_then_read_round_trips_def Let_def
  by (intro accepted_one passes_rules)
    (simp_all add: position_SeqNo LIMIT_def nth_numbered same_event_def at_position_def)

lemma conflicting_accepted:
  "clock_ok clock \<Longrightarrow> accepted clock 1 (conflicting_append_is_rejected_and_leaves_the_stream_untouched clock es)"
  unfolding conflicting_append_is_rejected_and_leaves_the_stream_untouched_def Let_def
  by (intro accepted_one passes_rules)
    (simp_all add: LIMIT_def nth_numbered same_event_def at_position_def)

lemma empty_append_accepted:
  "clock_ok clock \<Longrightarrow> accepted clock 1 (an_empty_append_is_fenced clock es)"
  unfolding an_empty_append_is_fenced_def Let_def
  by (intro accepted_one passes_rules) (simp_all add: LIMIT_def)

lemma isolated_accepted:
  "clock_ok clock \<Longrightarrow> accepted clock 2 (streams_are_isolated clock es)"
  unfolding streams_are_isolated_def Let_def
  by (intro accepted_two passes_rules)
    (simp_all add: LIMIT_def numbered_def at_position_def sample_events_def upt_rec seq_no_zero_def)

lemma paged_accepted:
  "clock_ok clock \<Longrightarrow> accepted clock 2 (reads_are_paged_and_inclusive clock es)"
  unfolding reads_are_paged_and_inclusive_def Let_def
  by (intro accepted_two passes_rules)
    (simp_all add: LIMIT_def numbered_def at_position_def sample_events_def upt_rec)

lemma snapshots_accepted:
  "clock_ok clock \<Longrightarrow> accepted clock 1 (snapshot_store_checks clock ss)"
  unfolding snapshot_store_checks_def snapshots_round_trip_and_the_latest_wins_def
  by (intro accepted_one passes_rules) simp_all

lemma snapshot_tail_accepted:
  "clock_ok clock \<Longrightarrow> accepted clock 1 (snapshot_with_event_tail clock es ss)"
  unfolding snapshot_with_event_tail_def
  by (intro accepted_one passes_rules)
    (simp_all, intro passes_rules,
      simp_all add: LIMIT_def numbered_def at_position_def sample_events_def upt_rec)

text \<open>The first of the racing writers wins, all later ones are stale.\<close>

lemma racing_losers:
  assumes "inv st" and "stream st pid \<noteq> []" and "length (stream st pid) + 3 < 2 ^ 63"
  shows "\<exists>st'. racing_appends es pid writers (st, k) = Some (([], length writers), (st', k)) \<and>
    inv st' \<and> stream st' = stream st \<and> snap st' = snap st"
  using assms
proof (induction writers arbitrary: st)
  case (Cons writer writers)
  obtain r st1 where run: "es_append es pid seq_no_zero (writer_events writer) st = (r, st1)" by fastforce
  have "r = Fail Conflict"
    using append_decides [OF Cons.prems(1), of seq_no_zero "writer_events writer" pid] Cons.prems(2,3) run by simp
  moreover have "inv st1 \<and> stream st1 = stream st \<and> snap st1 = snap st"
    using append_conflict [OF Cons.prems(1), of pid "writer_events writer" seq_no_zero st1]
      append_snap [OF run] run calculation Cons.prems(3) by simp
  ultimately show ?case using Cons.IH [of st1] Cons.prems(2,3) run by auto
qed simp

lemma passes_race [passes_rules]:
  assumes "inv st" and "stream st pid = []" and "writers \<noteq> []"
    and post: "\<And>st'. inv st' \<Longrightarrow> stream st' = (stream st)(pid := writer_events (hd writers)) \<Longrightarrow> snap st' = snap st \<Longrightarrow>
      Q ([hd writers], length writers - 1) (st', k)"
  shows "passes (racing_appends es pid writers) Q (st, k)"
proof -
  obtain writer rest where writers: "writers = writer # rest" using assms(3) by (cases writers) auto
  obtain r st1 where run: "es_append es pid seq_no_zero (writer_events writer) st = (r, st1)" by fastforce
  have r: "r = Return ()"
    using append_decides [OF assms(1), of seq_no_zero "writer_events writer" pid] assms(2) run by simp
  have st1: "inv st1 \<and> stream st1 = (stream st)(pid := writer_events writer) \<and> snap st1 = snap st"
    using append_ok [OF assms(1), of pid "writer_events writer" seq_no_zero st1]
      append_snap [OF run] run r assms(2) by simp
  then obtain st' where "racing_appends es pid rest (st1, k) = Some (([], length rest), (st', k))"
      "inv st'" "stream st' = stream st1" "snap st' = snap st1"
    using racing_losers [of st1 pid rest k] by (auto simp: writer_events_def upt_rec)
  with post st1 run r show ?thesis by (simp add: passes_def writers)
qed

lemma concurrent_accepted:
  assumes "clock_ok clock" and "length (sched (map of_nat [0 ..< WRITERS])) = WRITERS"
  shows "accepted clock 1 (concurrent_appends_are_fenced clock sched es)"
proof -
  have some: "sched (map of_nat [0 ..< WRITERS]) \<noteq> []" using assms(2) by (auto simp: WRITERS_def)
  show ?thesis
    unfolding concurrent_appends_are_fenced_def using assms some
    by (intro accepted_one passes_rules)
      (simp_all, intro passes_rules,
        simp_all add: LIMIT_def numbered_def at_position_def writer_events_def upt_rec)
qed

lemma checks_accepted:
  assumes "clock_ok clock" and "length (sched (map of_nat [0 ..< WRITERS])) = WRITERS"
  shows "accepted clock 10 (check_bind (event_store_checks clock sched es) (\<lambda>_.
    check_bind (snapshot_store_checks clock ss) (\<lambda>_. snapshot_with_event_tail clock es ss)))"
proof -
  note seq = accepted_seq [rotated]
  have "accepted clock (1 + (1 + (1 + (1 + (2 + 2))))) (event_store_checks clock sched es)"
    unfolding event_store_checks_def
    by (intro accepted_seq round_trip_accepted conflicting_accepted empty_append_accepted
        concurrent_accepted isolated_accepted paged_accepted assms) simp_all
  then have "accepted clock ((1 + (1 + (1 + (1 + (2 + 2))))) + (1 + 1))
      (check_bind (event_store_checks clock sched es) (\<lambda>_.
        check_bind (snapshot_store_checks clock ss) (\<lambda>_. snapshot_with_event_tail clock es ss)))"
    by (intro accepted_seq snapshots_accepted snapshot_tail_accepted assms) simp_all
  then show ?thesis by simp
qed

end

section \<open>The stores of the repository do not fail\<close>

interpretation memory_reliable: reliable_storage in_memory_event_store in_memory_stream in_memory_inv
  in_memory_snapshot_store in_memory_snapshot
proof unfold_locales
  fix st :: in_memory_store and n pid and events :: "encoded_event list"
  assume inv: "in_memory_inv st" and "length (in_memory_stream st pid) + length events < 2 ^ 63"
  then have fits: "length (in_memory_stream st pid) + length events < 2 ^ 64" by simp
  have "position n = length (in_memory_stream st pid) \<longleftrightarrow> n = at_position (length (in_memory_stream st pid))"
    using fits by (metis add_lessD1 at_position_position position_at)
  with in_memory_append_keeps [OF inv fits, of n]
  show "fst (es_append in_memory_event_store pid n events st) =
      (if position n = length (in_memory_stream st pid) then Return () else Fail Conflict)"
    by (cases "in_memory_append pid n events st") (auto simp: in_memory_ops)
qed (auto simp: in_memory_ops in_memory_read_def in_memory_save_def in_memory_load_def)

text \<open>A database that executes every statement, and whose snapshots were written by the store.\<close>

definition pg_healthy :: "pg_pool \<Rightarrow> bool" where
  "pg_healthy db \<longleftrightarrow> pg_inv db \<and> outcomes db = [] \<and>
     (\<forall>row \<in> set (snapshots_table db). \<exists>s. pg_stored_snapshot row = Ok s)"

lemma run_statement_healthy [simp]: "outcomes db = [] \<Longrightarrow> run_statement f db = f db"
  by (simp add: run_statement_def)

lemma number_events_fits:
  "0 \<le> start \<Longrightarrow> start + int (n + length events) \<le> 2 ^ 63 \<Longrightarrow> \<exists>rows. number_events pid start n events = Ok rows"
proof (induction events arbitrary: n)
  case (Cons event events)
  then obtain rows where "number_events pid start (Suc n) events = Ok rows" by fastforce
  with Cons.prems show ?case by (auto simp: bigint_max_def)
qed simp

lemma find_in_set: "find P xs = Some x \<Longrightarrow> x \<in> set xs"
  by (auto simp: find_Some_iff)

lemma into_bigint_small: "position n < 2 ^ 63 \<Longrightarrow> into_bigint n = Ok (int (position n))"
  by (simp add: into_bigint_Ok bigint_max_def)

lemma pg_append_decides:
  assumes healthy: "pg_healthy db" and fits: "position n + length events < 2 ^ 63"
    "length (pg_stream db pid) + length events < 2 ^ 63"
  shows "fst (pg_append pid n events db) =
    (if position n = length (pg_stream db pid) then Return () else Fail Conflict)"
proof -
  have inv: "pg_inv db" and run: "run_statement f db = f db" for f :: "pg_pool \<Rightarrow> ('a, sqlx_error) result \<times> pg_pool"
    using healthy by (simp_all add: pg_healthy_def)
  let ?len = "length (rows_of db pid)"
  have len: "length (pg_stream db pid) = ?len" by (simp add: pg_stream_def)
  then have small: "int ?len \<le> bigint_max" using fits(2) by (simp add: bigint_max_def)
  have into: "into_bigint n = Ok (int (position n))"
    using fits(1) by (intro into_bigint_small) simp
  show ?thesis
  proof (cases "events = []")
    case True
    with into small len healthy show ?thesis
      by (simp add: pg_append_def pg_healthy_def select_next_inv [OF inv])
  next
    case False
    obtain rows where rows: "number_events pid (int (position n)) 0 events = Ok rows"
      using number_events_fits [of "int (position n)" 0 events pid] fits(1) by auto
    obtain r db' where insert: "insert_events pid rows (int (position n)) db = (r, db')" by fastforce
    have "length rows = length events" using number_events_Ok [OF rows] by simp
    moreover have "r = (if position n = ?len then Ok (length rows) else Ok 0)"
      using insert_numbered [OF inv rows False insert] small insert
      by (auto simp: insert_events_def select_next_inv [OF inv])
    ultimately show ?thesis
      using into False rows insert len healthy by (simp add: pg_append_def pg_healthy_def)
  qed
qed

text \<open>No operation of the store makes the database unhealthy.\<close>

lemma pg_append_frame:
  "outcomes db = [] \<Longrightarrow> pg_append pid n events db = (r, db') \<Longrightarrow>
     outcomes db' = [] \<and> snapshots_table db' = snapshots_table db"
  by (auto simp: pg_append_def insert_events_def select_next_seq_no_def Let_def
      split: sum.splits prod.splits if_splits list.splits)

lemma pg_read_frame: "outcomes db = [] \<Longrightarrow> snd (pg_read pid n limit db) = db"
  by (auto simp: pg_read_def select_events_def Let_def split: sum.splits)

lemma pg_load_frame: "outcomes db = [] \<Longrightarrow> snd (pg_load pid db) = db"
  by (auto simp: pg_load_def select_snapshot_def split: sum.splits option.splits)

lemma pg_save_healthy:
  assumes "pg_healthy db" and "pg_save pid n snapshot db = (r, db')"
  shows "pg_healthy db'"
proof -
  have "pg_inv db'" using assms pg_save_cases [OF assms(2)] pg_inv_rows by (auto simp: pg_healthy_def)
  moreover have "uint (as_u16 (snapshot_version snapshot)) < 2 ^ 16"
    using uint_lt2p [of "as_u16 (snapshot_version snapshot)"] by simp
  ultimately show ?thesis
    using assms
    by (auto simp: pg_healthy_def pg_save_def upsert_snapshot_def pg_stored_snapshot_def pg_seq_no_def
        pg_schema_version_def into_bigint_def split: if_splits)
qed

lemma pg_append_healthy:
  assumes "pg_healthy db" and "length (pg_stream db pid) + length events < 2 ^ 64"
    and "pg_append pid n events db = (r, db')"
  shows "pg_healthy db'"
  using assms pg_append_frame [OF _ assms(3)] pg_append_cases [OF _ assms(2,3)] by (auto simp: pg_healthy_def)

lemma pg_read_returns:
  assumes healthy: "pg_healthy db" and "position n < 2 ^ 63"
  shows "\<exists>page. fst (pg_read pid n limit db) = Return page"
proof -
  have seqs: "map row_seq_no (rows_of db pid) = map int [0 ..< length (rows_of db pid)]"
    and versions: "\<forall>r \<in> set (rows_of db pid). 0 \<le> row_version r \<and> row_version r < 2 ^ 16"
    using healthy by (auto simp: pg_healthy_def pg_inv_def)
  have "0 \<le> row_seq_no r" if "r \<in> set (rows_of db pid)" for r
  proof -
    have "row_seq_no r \<in> set (map row_seq_no (rows_of db pid))" using that by simp
    then show ?thesis unfolding seqs by auto
  qed
  with versions have "collect_rows pg_stored_event
      (take l (sort_key row_seq_no (filter (\<lambda>r. start \<le> row_seq_no r) (rows_of db pid)))) \<noteq> Err e" for l start e
    by (subst collect_rows_events) (auto dest!: in_set_takeD)
  then show ?thesis
    using healthy into_bigint_small [OF assms(2)]
    by (auto simp: pg_read_def Let_def pg_healthy_def select_events_def split: sum.splits)
qed

interpretation postgres_reliable: reliable_storage pg_event_store pg_stream pg_healthy pg_snapshot_store pg_snap
proof unfold_locales
  fix db db' pid n r and events :: "encoded_event list"
  assume healthy: "pg_healthy db" and fits: "length (pg_stream db pid) + length events < 2 ^ 64"
  then have inv: "pg_inv db" by (simp add: pg_healthy_def)
  have kept: "pg_healthy db'" if "es_append pg_event_store pid n events db = (r, db')" for r
    using pg_append_healthy [OF healthy fits] that by (simp add: pg_event_store_def)
  show "es_append pg_event_store pid n events db = (Return (), db') \<Longrightarrow>
      n = at_position (length (pg_stream db pid)) \<and>
      pg_stream db' = (pg_stream db)(pid := pg_stream db pid @ events) \<and> pg_healthy db'"
    using postgres.append_ok [OF inv fits] kept by blast
  show "es_append pg_event_store pid n events db = (Fail Conflict, db') \<Longrightarrow>
      pg_stream db' = pg_stream db \<and> pg_healthy db'"
    using postgres.append_conflict [OF inv fits] kept by blast
  show "es_append pg_event_store pid n events db = (r, db') \<Longrightarrow> r \<noteq> Return () \<Longrightarrow>
      pg_healthy db' \<and> (pg_stream db' = pg_stream db \<or> n = at_position (length (pg_stream db pid)) \<and>
        pg_stream db' = (pg_stream db)(pid := pg_stream db pid @ events))" for r
    using postgres.append_failed [OF inv fits] kept by blast
next
  fix db db' pid n p and limit :: nat
  assume "pg_healthy db" and "limit < 2 ^ 63" and "es_read pg_event_store pid n limit db = (p, db')"
  then show "pg_stream db' = pg_stream db \<and> pg_healthy db' \<and>
      (\<forall>page. p = Return page \<longrightarrow> page = take limit (drop (position n) (numbered (pg_stream db pid))))"
    using postgres.read_page [of db limit pid n p db'] pg_read_frame [of db pid n limit]
    by (simp add: pg_healthy_def pg_event_store_def)
next
  fix pid n snapshot db r db'
  assume save: "ss_save pg_snapshot_store pid n snapshot db = (r, db')"
  then show "pg_stream db' = pg_stream db \<and> (pg_healthy db \<longrightarrow> pg_healthy db')"
    using postgres.save_stream [OF save] pg_save_healthy by (auto simp: pg_snapshot_store_def)
next
  fix pid db r db'
  assume load: "ss_load pg_snapshot_store pid db = (r, db')"
  then show "pg_stream db' = pg_stream db \<and> (pg_healthy db \<longrightarrow> pg_healthy db')"
    using postgres.load_stream [OF load] pg_load_frame [of db pid] by (auto simp: pg_snapshot_store_def pg_healthy_def)
next
  fix pid n snapshot db db'
  assume "ss_save pg_snapshot_store pid n snapshot db = (Return (), db')"
  then show "pg_snap db' = (pg_snap db)(pid \<mapsto> \<lparr>stored_next_seq_no = n, stored_encoded = snapshot\<rparr>)"
    using pg_save_cases by (fastforce simp: pg_snapshot_store_def)
next
  fix db pid n and events :: "encoded_event list"
  assume "pg_healthy db" and "position n + length events < 2 ^ 63" and "length (pg_stream db pid) + length events < 2 ^ 63"
  then show "fst (es_append pg_event_store pid n events db) =
      (if position n = length (pg_stream db pid) then Return () else Fail Conflict)"
    using pg_append_decides by (simp add: pg_event_store_def)
next
  fix db pid n and limit :: nat
  assume "pg_healthy db" and "position n < 2 ^ 63" and "limit < 2 ^ 63"
  then show "\<exists>page. fst (es_read pg_event_store pid n limit db) = Return page"
    using pg_read_returns by (simp add: pg_event_store_def)
next
  fix db pid n snapshot
  assume "pg_healthy db" and "position n < 2 ^ 63"
  then show "fst (ss_save pg_snapshot_store pid n snapshot db) = Return ()"
    by (simp add: pg_snapshot_store_def pg_save_def pg_healthy_def upsert_snapshot_def into_bigint_small)
next
  fix db pid
  assume "pg_healthy db"
  then show "\<exists>loaded. fst (ss_load pg_snapshot_store pid db) = Return loaded"
    by (fastforce simp: pg_snapshot_store_def pg_load_def pg_healthy_def select_snapshot_def
        split: option.splits sum.splits dest: find_in_set)
qed (fact postgres.save_snap postgres.load_snap postgres.append_snap postgres.read_snap)+

section \<open>The checks are sound\<close>

text \<open>
  C32: The checks \<^verbatim>\<open>event_store_contract\<close>, \<^verbatim>\<open>snapshot_store_contract\<close> and
  \<^verbatim>\<open>snapshot_with_event_tail\<close> reject no good storage: run one after the other on any storage that
  keeps the contracts and whose calls do not fail, they pass, in whatever order the runtime
  executes the racing writers. The clock is at any time past the epoch (the code panics before), and the
  storage holds nothing yet under the ten IDs they draw. These are all different, also if the clock
  stands still, and every other ID is left alone.
\<close>

theorem good_storage_passes_checks:
  assumes "reliable_storage es stream ok ss snap" and "clock_ok clock" and "ok st"
    and "\<forall>ws. distinct ws \<longrightarrow> distinct (sched ws) \<and> set (sched ws) = set ws"
    and "\<forall>i < 10. stream st (drawn_id clock (k + of_nat i)) = [] \<and> snap st (drawn_id clock (k + of_nat i)) = None"
  shows "\<exists>st'. check_bind (event_store_checks clock sched es) (\<lambda>_.
      check_bind (snapshot_store_checks clock ss) (\<lambda>_. snapshot_with_event_tail clock es ss)) (st, k) =
        Some ((), (st', k + 10)) \<and> ok st' \<and> distinct (map (\<lambda>i. drawn_id clock (k + of_nat i)) [0 ..< 10]) \<and>
      (\<forall>pid. (\<forall>i < 10. pid \<noteq> drawn_id clock (k + of_nat i)) \<longrightarrow>
         stream st' pid = stream st pid \<and> snap st' pid = snap st pid)"
proof -
  note accepts = reliable_storage.checks_accepted [OF assms(1,2)]
  have ws: "distinct (map of_nat [0 ..< WRITERS] :: 8 word list)" by (simp add: WRITERS_def upt_rec)
  with assms(4) have "distinct (sched (map of_nat [0 ..< WRITERS]))"
    and "set (sched (map of_nat [0 ..< WRITERS])) = set (map of_nat [0 ..< WRITERS])" by blast+
  with ws have "length (sched (map of_nat [0 ..< WRITERS])) = WRITERS"
    by (metis distinct_card length_map length_upt minus_nat.diff_0)
  from accepts [of sched, OF this] assms(3,5) drawn_ids_distinct [of 10 clock k] show ?thesis
    unfolding reliable_storage.accepted_def [OF assms(1)] reliable_storage.unused_def [OF assms(1)]
      reliable_storage.left_alone_def [OF assms(1)] passes_def
    by fastforce
qed

text \<open>Both stores of the repository, empty, with the last writer first.\<close>

theorem good_storage_passes_checks_witness:
  "(\<exists>st. check_bind (event_store_checks (\<lambda>_. Ok 1700000000) rev in_memory_event_store) (\<lambda>_.
      check_bind (snapshot_store_checks (\<lambda>_. Ok 1700000000) in_memory_snapshot_store) (\<lambda>_.
      snapshot_with_event_tail (\<lambda>_. Ok 1700000000) in_memory_event_store in_memory_snapshot_store))
        (in_memory_default, 0) = Some ((), (st, 10))) \<and>
   (\<exists>db. check_bind (event_store_checks (\<lambda>_. Ok 1700000000) rev pg_event_store) (\<lambda>_.
      check_bind (snapshot_store_checks (\<lambda>_. Ok 1700000000) pg_snapshot_store) (\<lambda>_.
      snapshot_with_event_tail (\<lambda>_. Ok 1700000000) pg_event_store pg_snapshot_store))
        (\<lparr>events_table = [], snapshots_table = [], outcomes = []\<rparr>, 0) = Some ((), (db, 10)))"
proof -
  let ?db = "\<lparr>events_table = [], snapshots_table = [], outcomes = []\<rparr>"
  have clock: "clock_ok (\<lambda>_. Ok 1700000000)" by (simp add: clock_ok_def duration_max_def)
  have sched: "\<forall>ws. distinct ws \<longrightarrow> distinct (rev ws) \<and> set (rev ws) = set ws" by simp
  have memory: "\<forall>i < 10. in_memory_stream in_memory_default (drawn_id (\<lambda>_. Ok 1700000000) (0 + of_nat i)) = [] \<and>
      in_memory_snapshot in_memory_default (drawn_id (\<lambda>_. Ok 1700000000) (0 + of_nat i)) = None"
    by (simp add: in_memory_default_def in_memory_stream_def in_memory_events_def in_memory_snapshot_def)
  have healthy: "pg_healthy ?db" by (simp add: pg_healthy_def pg_inv_def rows_of_def)
  have postgres: "\<forall>i < 10. pg_stream ?db (drawn_id (\<lambda>_. Ok 1700000000) (0 + of_nat i)) = [] \<and>
      pg_snap ?db (drawn_id (\<lambda>_. Ok 1700000000) (0 + of_nat i)) = None"
    by (simp add: pg_stream_def rows_of_def pg_snap_def)
  show ?thesis
    using good_storage_passes_checks [OF memory_reliable.reliable_storage_axioms clock in_memory_inv_default sched memory]
      good_storage_passes_checks [OF postgres_reliable.reliable_storage_axioms clock healthy sched postgres]
    by auto
qed

end
