(* ===== verification/Spec2Isabelle.thy ===== *)
theory Spec2Isabelle
  imports Contention ScatterGather WorkPulling SupervisionExample PlainExamples Devices PersistenceProfile Report EventGuarantees HostGuarantees Testing StoreChecks
begin

text \<open>
  A verification of tellus, a library of typed actors for Tokio (\<^verbatim>\<open>src/tellus\<close>), with event-sourced
  actors (\<^verbatim>\<open>src/tellus/src/persistence\<close>) and a PostgreSQL storage for them
  (\<^verbatim>\<open>src/tellus-persistence-postgres\<close>).

  \<^bold>\<open>The program.\<close> An actor is a task that receives messages from its mailbox, one at a time, and
  decides after each whether to go on, fail or stop. A mailbox (\<^verbatim>\<open>mailbox.rs\<close>) is a flume channel
  behind a reservation of capacity (\<^verbatim>\<open>quota.rs\<close>), with a registry of the actors that watch its
  owner. Actors form a tree: a context (\<^verbatim>\<open>actor_context.rs\<close>) spawns children, whose tasks hold a
  receiver of the parent's stop channel; a parent stops its children by a signal on that channel and
  waits until all receivers are gone. A failed actor is restarted after a backoff (\<^verbatim>\<open>backoff.rs\<close>,
  \<^verbatim>\<open>actor_config.rs\<close>) or stopped; a terminated one signals its watchers. The actor system
  (\<^verbatim>\<open>actor_system.rs\<close>) spawns the root and watches it. An event-sourced actor
  (\<^verbatim>\<open>persistence/spawn.rs\<close>) recovers its state from a snapshot and the events behind it, and
  settles the effect of each command: it appends the events, applies them, runs the continuations
  and takes a snapshot. A host (\<^verbatim>\<open>host.rs\<close>) keeps one entity per key and passivates idle ones.

  \<^bold>\<open>The shared layer.\<close>
  \<^item> \<open>Prelude\<close>: machine integers as words, results, calls that may fail or panic and what catches
    them, hash maps as association lists, the order of a biased \<^verbatim>\<open>select!\<close>.
  \<^item> \<open>Channel\<close>, \<open>StopSignal\<close>: flume and the Tokio watch channel are dependencies. Their operations
    are records the model is parametric in; what the code relies on are the locales \<open>flume_channel\<close>
    and \<open>watch_channel\<close>, interpreted on a list channel and on a counting watch channel.

  \<^bold>\<open>Actors.\<close>
  \<^item> \<open>Backoff\<close>, \<open>ActorConfig\<close>, \<open>Supervision\<close>: \<^verbatim>\<open>backoff.rs\<close>, \<^verbatim>\<open>actor_config.rs\<close> and
    \<^verbatim>\<open>next_restart\<close>. Delays double within their bounds up to the step at which the code stops to
    double; a streak of restarts ends with the reset or at its maximum.
  \<^item> \<open>Quota\<close>, \<open>Actor\<close>, \<open>Mailbox\<close>: \<^verbatim>\<open>quota.rs\<close>, \<^verbatim>\<open>actor_id.rs\<close>, \<^verbatim>\<open>actor.rs\<close>, \<^verbatim>\<open>mailbox.rs\<close>. The
    locale \<open>mailbox_contract\<close> is a bounded queue, and the sublocale \<open>mailbox_channel\<close> proves that
    the counted channel refines it.
  \<^item> \<open>Contention\<close>: any number of threads inside the atomic accesses of the sends and receives. The
    count is exact at every interleaving and never wraps.
  \<^item> \<open>World\<close>, \<open>Task\<close>, \<open>System\<close>: \<^verbatim>\<open>actor_ref.rs\<close>, \<^verbatim>\<open>ask.rs\<close>, \<^verbatim>\<open>actor_context.rs\<close>,
    \<^verbatim>\<open>actor_system.rs\<close>. The state all tasks share is the record \<open>world\<close>; user code is a tree of API
    calls (\<open>prog\<close>); \<open>phase_step\<close> runs the task of an actor up to the next point where others can
    run, one API call of user code at a time. \<open>sys_step\<close> interleaves all tasks with sends from
    outside and the operations of the actor system, \<open>sys_reach\<close> are the reachable worlds.
  \<^item> \<open>ActorTree\<close>, \<open>DeathWatch\<close>, \<open>Trace\<close>, \<open>Shutdown\<close>: the invariants of reachable worlds, in the
    locale \<open>actor_runtime\<close> over the two channel contracts: receivers count children, signals are
    registered or pending or delivered, traces are what went through the mailboxes, and the sink of
    the actor system is in the root's registry.
  \<^item> \<open>Guarantees\<close>: the properties of a running system, and an executable run of a small one.
  \<^item> \<open>Progress\<close>: shutdown makes progress. A stop goes down the whole tree, a stopped system is never
    stuck, and one whose actors are out of user code terminates.

  \<^item> \<open>Behaviour\<close>, \<open>Delivery\<close>: what one actor does apart from all others (\<open>behaves\<close>), that every actor of
    a running system behaves so, and what actors can rely on when they tell each other messages.

  \<^bold>\<open>Examples.\<close> The claims in the comments of \<^verbatim>\<open>src/tellus/examples\<close>, proved for every interleaving from
  the guarantees above. The actors are programs on the modelled API.
  \<^item> \<open>ScatterGather\<close>, \<open>WorkPulling\<close>, \<open>SupervisionExample\<close>: the printed total is the sum over all shards;
    all documents are done, and a mailbox of capacity one is enough for a worker; all values but the
    toxic ones are loaded, over restarts.
  \<^item> \<open>PlainExamples\<close>, \<open>Devices\<close>: \<^verbatim>\<open>hello.rs\<close>, \<^verbatim>\<open>counter.rs\<close>, \<^verbatim>\<open>profile.rs\<close> and \<^verbatim>\<open>device_manager.rs\<close>; a
    reply of the counter reflects the increments before it, a query replies once, with the average
    over the devices that answered.
  \<^item> \<open>Report\<close>: \<^verbatim>\<open>tellus-comparison/src/bin/report.rs\<close>, which does not use the crate: from criterion's
    files to the HTML page. Measurements are grouped and ordered, and no text becomes markup.

  \<^bold>\<open>Event sourcing.\<close>
  \<^item> \<open>PersistenceIds\<close>, \<open>Codecs\<close>: \<^verbatim>\<open>seq_no.rs\<close>, \<^verbatim>\<open>schema_version.rs\<close>, \<^verbatim>\<open>persistence_id.rs\<close>,
    \<^verbatim>\<open>codec.rs\<close>, \<^verbatim>\<open>versioned.rs\<close>. ciborium and serde_json are arguments.
  \<^item> \<open>Stores\<close>: \<^verbatim>\<open>store.rs\<close>, \<^verbatim>\<open>in_memory_store.rs\<close>. The traits are records of operations, their
    documented contracts the locales \<open>event_store_contract\<close>, \<open>snapshot_store_contract\<close>,
    \<open>keeping_snapshot_store\<close> and \<open>storage\<close>, interpreted on the in-memory store and on
    \<^verbatim>\<open>NoSnapshots\<close>. Failed calls are part of the contract: an append that reports a failure may
    have happened.
  \<^item> \<open>StoreChecks\<close>: \<^verbatim>\<open>persistence_tests.rs\<close>, the checks the crate offers to authors of stores.
  \<^item> \<open>EventSourcing\<close>, \<open>Incarnations\<close>: \<^verbatim>\<open>effect.rs\<close>, \<^verbatim>\<open>event_sourced.rs\<close>, \<^verbatim>\<open>spawn.rs\<close>. \<open>recover\<close>
    and \<open>settle\<close> are the functions of the code; \<open>es_step\<close> is the run loop cut at its awaits, and
    \<open>es_reach\<close> interleaves incarnations of one entity, crashes and other entities on one storage.
  \<^item> \<open>Durability\<close>, \<open>Recovery\<close>: for every entity that keeps the laws \<open>durable\<close> on every storage
    (locale \<open>durable_entity\<close>), the state an incarnation works with is a fold of the durable stream;
    replay ends and agrees with one fold.
  \<^item> \<open>EventExamples\<close>, \<open>EventGuarantees\<close>: the event-sourced examples of the repository and the
    properties of \<^verbatim>\<open>docs/persistence.md\<close>, with the counter as the witness.
  \<^item> \<open>PersistenceProfile\<close>: \<^verbatim>\<open>examples/profile_persistence.rs\<close>, a counter with snapshots flooded and then
    recovered on one in-memory store.
  \<^item> \<open>Host\<close>, \<open>HostGuarantees\<close>: \<^verbatim>\<open>host.rs\<close>, each method with the list of what it did through its
    context; one incarnation per key, order and silence over all sequences of incoming messages.
  \<^item> \<open>Testing\<close>: \<^verbatim>\<open>testing.rs\<close>; \<open>test_settle\<close> agrees with \<open>settle\<close>.
  \<^item> \<open>Postgres\<close>: \<^verbatim>\<open>tellus-persistence-postgres/src/lib.rs\<close>, the SQL statements as functions on tables
    of rows, proved to be a \<open>storage\<close> under refused statements and lost replies.

  \<^bold>\<open>Bounds and termination.\<close> Counts, sequence numbers, versions and restart streaks have the width
  of the code. Sequence numbers saturate at the greatest value of 64 bits, so the laws of the stores
  and \<open>es_reach\<close> have as a premise that a stream has fewer than $2^{64}$ events. A page is limited to
  $2^{63}$ events, since PostgreSQL's \<^verbatim>\<open>LIMIT\<close> is signed; the code asks for 512. There is no
  fuel: the two loops that depend on a store or a channel, \<open>replay_loop\<close> and \<open>receive_all\<close>, are
  partial functions, and that they return is proved.
  The run loops are step functions, since they are meant to run forever.

  \<^bold>\<open>Granularity.\<close> In a running system a send, its reservation included, and a receive with its release are
  one step each; that their atomic accesses interleave is \<open>Contention\<close>. A statement of the PostgreSQL
  store and an append of a racing writer are one step; the database's own races are the outcome of a
  refused statement. Additions of user code panic on overflow, as in a build with checks. The run
  loop that \<open>PersistenceProfile\<close> uses has no interruption; \<open>es_step\<close> is the one with them.

  \<^bold>\<open>Not modelled.\<close> \<^verbatim>\<open>lib.rs\<close> and \<^verbatim>\<open>sync.rs\<close> re-export names and switch to the loom primitives. Lock
  poisoning, logging beyond the events of the trace, the futures of \<^verbatim>\<open>ask\<close> beyond their outcome, and
  the schema migration and connection pool of the PostgreSQL crate belong to the libraries. The
  destructors of messages, states and actors are user code that does nothing in the model: they cannot
  panic or send, so dropping a queue or an actor is a step without an effect. The
  constructors of an actor system with an event-sourced root compose operations modelled here. The
  \<^verbatim>\<open>main\<close> functions of examples set up tracing, start a modelled system and wait for it. The
  benchmarks measure times, and the comparison report's files are not written.
\<close>

end
